theory Spec2Isabelle
  imports Main
begin

section \<open>Snowstorm: the directed conflict graph (snowstorm/directed.go)\<close>

text \<open>
  The development embeds \<^verbatim>\<open>Directed\<close>, the conflict-graph consensus over transactions.
  Go pointers are modelled by an explicit store: every \<^verbatim>\<open>*directedTx\<close>,
  \<^verbatim>\<open>*directedAccepter\<close> and \<^verbatim>\<open>*directedRejector\<close> is an address into a store of
  records, so that an accepter keeps reading the node it was created for after that node
  has been deleted from \<^verbatim>\<open>dg.txs\<close>, exactly as the Go object does.

  A nil-pointer dereference is the result \<open>Panic\<close>. The value a Go function returns as
  \<^verbatim>\<open>error\<close> is an \<open>err option\<close>.

  An \<^verbatim>\<open>ids.Set\<close> is a list without duplicates; \<^verbatim>\<open>List()\<close> enumerates it in insertion
  order (Go leaves the order of a map iteration open; the model fixes this one).
\<close>

type_synonym ident = nat
type_synonym ref = nat
type_synonym err = string

datatype 'a result = Panic | OutOfFuel | is_Done: Done (the_Done: 'a)

text \<open>
  The counters of the source (\<open>bias\<close>, \<open>confidence\<close>, \<open>lastVote\<close>, \<open>currentVote\<close>) are
  Go \<^verbatim>\<open>int\<close>s. The model takes them 64 bits wide: they are integers between \<open>-2^63\<close> and
  \<open>2^63 - 1\<close>, and an increment wraps around in two's complement.
\<close>

definition wrap :: "int \<Rightarrow> int" where
  "wrap i = (i + 9223372036854775808) mod 18446744073709551616 - 9223372036854775808"

subsection \<open>Collaborators that the source only uses through interfaces\<close>

text \<open>
  Modelled from the spec: \<^verbatim>\<open>choices.Status\<close> (section 3: a mutable status in
  Processing, Accepted, Rejected; the last two are the decided ones).
\<close>

datatype Status = Processing | Accepted | Rejected

definition Decided :: "Status \<Rightarrow> bool" where
  "Decided st = (st = Accepted \<or> st = Rejected)"

text \<open>
  Modelled from the spec: the \<^verbatim>\<open>Tx\<close> interface (section 6). A transaction presents its
  id, its input UTXO ids, the ids of the transactions it depends on, and the outcome its
  \<^verbatim>\<open>Accept()\<close> and \<^verbatim>\<open>Reject()\<close> callbacks return (\<open>None\<close> is Go's nil error). The mutable
  status of every transaction lives in the field \<open>status\<close> of the engine state below,
  indexed by id; \<^verbatim>\<open>Accept()\<close> and \<^verbatim>\<open>Reject()\<close> set it and then return their outcome.
\<close>

record Tx =
  ID :: ident
  InputIDs :: "ident list"
  Dependencies :: "ident list"
  AcceptV :: "err option"
  RejectV :: "err option"

text \<open>Modelled from the spec: \<^verbatim>\<open>ids.Set\<close> (section 2, IdentifierSet).\<close>

definition Set_Add :: "ident \<Rightarrow> ident list \<Rightarrow> ident list" where
  "Set_Add x xs = (if x \<in> set xs then xs else xs @ [x])"

definition Set_Remove :: "ident \<Rightarrow> ident list \<Rightarrow> ident list" where
  "Set_Remove x xs = removeAll x xs"

definition Set_Union :: "ident list \<Rightarrow> ident list \<Rightarrow> ident list" where
  "Set_Union xs ys = fold Set_Add ys xs"

text \<open>
  Modelled from the spec: \<^verbatim>\<open>ids.Bag\<close> (section 6, vote bag): identifiers with their
  vote counts, in insertion order, and the threshold query.
\<close>

type_synonym Bag = "(ident \<times> int) list"

definition Bag_AddCount :: "ident \<Rightarrow> int \<Rightarrow> Bag \<Rightarrow> Bag" where
  "Bag_AddCount i n b =
     (if i \<in> fst ` set b then map (\<lambda>(k, c). if k = i then (k, wrap (c + n)) else (k, c)) b
      else b @ [(i, n)])"

definition Bag_Threshold :: "int \<Rightarrow> Bag \<Rightarrow> ident list" where
  "Bag_Threshold t b = map fst (filter (\<lambda>(k, c). t \<le> c) b)"

text \<open>
  Modelled from the spec: \<^verbatim>\<open>events.Blocker\<close> (section 4.2, DependencyRegistry). A
  registration is a pair of the awaited id and the address of the blockable; the
  blockables waiting on an id are notified in registration order, and the id's entry is
  deleted before they are notified.
\<close>

type_synonym Blocker = "(ident \<times> ref) list"

definition blocking :: "Blocker \<Rightarrow> ident \<Rightarrow> ref list" where
  "blocking b k = map snd (filter (\<lambda>p. fst p = k) b)"

definition Blocker_delete :: "Blocker \<Rightarrow> ident \<Rightarrow> Blocker" where
  "Blocker_delete b k = filter (\<lambda>p. fst p \<noteq> k) b"

definition Blocker_store :: "Blocker \<Rightarrow> ident list \<Rightarrow> ref \<Rightarrow> Blocker" where
  "Blocker_store b ds r = b @ map (\<lambda>d. (d, r)) ds"

subsection \<open>The data of directed.go\<close>

record directedTx =
  bias :: int
  confidence :: int
  lastVote :: int
  rogue :: bool
  pendingAccept :: bool
  accepted :: bool
  ins :: "ident list"
  outs :: "ident list"
  tx :: Tx

record directedAccepter =
  a_deps :: "ident list"
  a_rejected :: bool
  a_fn :: ref

record directedRejector =
  r_deps :: "ident list"
  r_rejected :: bool
  r_fn :: ref

record Parameters =
  K :: int
  Alpha :: int
  BetaVirtuous :: int
  BetaRogue :: int

datatype event = Issue ident | Accept ident | Reject ident

text \<open>
  The engine state: the fields of \<^verbatim>\<open>Directed\<close> (\<open>txs\<close>, \<open>utxos\<close>), the fields of the
  embedded \<^verbatim>\<open>common\<close> (modelled from the spec, section 4.3: parameters, the three
  identifier sets, the poll counter, the two dependency registries and the error
  accumulator), the three object stores with the next free address, and the observable
  collaborators: the status of every transaction, the calls received by the decision
  dispatcher and the calls received by the metrics.
\<close>

record Directed =
  params :: Parameters
  preferences :: "ident list"
  virtuous :: "ident list"
  virtuousVoting :: "ident list"
  currentVote :: int
  pendingAccepts :: Blocker
  pendingRejects :: Blocker
  errs :: "err option"
  txs :: "ident \<rightharpoonup> ref"
  utxos :: "ident \<rightharpoonup> ident list"
  nodes :: "ref \<Rightarrow> directedTx"
  accepters :: "ref \<Rightarrow> directedAccepter"
  rejectors :: "ref \<Rightarrow> directedRejector"
  nextRef :: ref
  status :: "ident \<Rightarrow> Status"
  dispatched :: "event list"
  metricsLog :: "event list"

definition emptyTx :: Tx where
  "emptyTx = \<lparr>ID = 0, InputIDs = [], Dependencies = [], AcceptV = None, RejectV = None\<rparr>"

definition newNode :: "Tx \<Rightarrow> directedTx" where
  "newNode t = \<lparr>bias = 0, confidence = 0, lastVote = 0, rogue = False,
                pendingAccept = False, accepted = False, ins = [], outs = [], tx = t\<rparr>"

definition Initialize :: "Parameters \<Rightarrow> Directed" where
  "Initialize p =
     \<lparr>params = p, preferences = [], virtuous = [], virtuousVoting = [], currentVote = 0,
      pendingAccepts = [], pendingRejects = [], errs = None,
      txs = Map.empty, utxos = Map.empty,
      nodes = (\<lambda>_. newNode emptyTx),
      accepters = (\<lambda>_. \<lparr>a_deps = [], a_rejected = False, a_fn = 0\<rparr>),
      rejectors = (\<lambda>_. \<lparr>r_deps = [], r_rejected = False, r_fn = 0\<rparr>),
      nextRef = 0,
      status = (\<lambda>_. Processing), dispatched = [], metricsLog = []\<rparr>"

text \<open>\<^verbatim>\<open>wrappers.Errs.Add\<close>: the accumulator keeps the first error it is given.\<close>

definition errs_Add :: "err option \<Rightarrow> Directed \<Rightarrow> Directed" where
  "errs_Add e s = (if errs s = None then s\<lparr>errs := e\<rparr> else s)"

text \<open>The dependencies of a transaction that are not decided yet, as an \<^verbatim>\<open>ids.Set\<close>.\<close>

definition undecided :: "Directed \<Rightarrow> Tx \<Rightarrow> ident list" where
  "undecided s t = fold Set_Add (filter (\<lambda>d. \<not> Decided (status s d)) (Dependencies t)) []"

subsection \<open>Issued, IsVirtuous, Conflicts\<close>

definition Issued :: "Tx \<Rightarrow> Directed \<Rightarrow> bool" where
  "Issued t s = (if Decided (status s (ID t)) then True else txs s (ID t) \<noteq> None)"

definition IsVirtuous :: "Tx \<Rightarrow> Directed \<Rightarrow> bool" where
  "IsVirtuous t s =
     (case txs s (ID t) of
        Some r \<Rightarrow> \<not> rogue (nodes s r)
      | None \<Rightarrow> list_all (\<lambda>u. utxos s u = None) (InputIDs t))"

definition Conflicts :: "Tx \<Rightarrow> Directed \<Rightarrow> ident list" where
  "Conflicts t s =
     (case txs s (ID t) of
        Some r \<Rightarrow> Set_Union (Set_Union [] (ins (nodes s r))) (outs (nodes s r))
      | None \<Rightarrow>
          Set_Remove (ID t)
            (fold (\<lambda>u acc. case utxos s u of None \<Rightarrow> acc | Some sp \<Rightarrow> Set_Union acc sp)
               (InputIDs t) []))"

subsection \<open>reject and the rejector cascade\<close>

text \<open>\<^verbatim>\<open>removeConflict(id, ids...)\<close>: detach \<open>c\<close> from those neighbours that still exist.\<close>

fun removeConflict :: "ident \<Rightarrow> ident list \<Rightarrow> Directed \<Rightarrow> Directed" where
  "removeConflict c [] s = s"
| "removeConflict c (n # ns) s =
     (case txs s n of
        None \<Rightarrow> removeConflict c ns s
      | Some r \<Rightarrow>
          let nb = (nodes s r)\<lparr>ins := Set_Remove c (ins (nodes s r)),
                               outs := Set_Remove c (outs (nodes s r))\<rparr>;
              s1 = s\<lparr>nodes := (nodes s)(r := nb)\<rparr>
          in removeConflict c ns
               (if outs nb = [] then s1\<lparr>preferences := Set_Add n (preferences s1)\<rparr> else s1))"

text \<open>
  The first half of one iteration of \<^verbatim>\<open>reject\<close>, for the node \<open>conf\<close> found at address
  \<open>r\<close>: delete it from the tx map, drop it from the preferences, detach it from its
  neighbours, and call \<^verbatim>\<open>conf.tx.Reject()\<close>, which sets the status.
\<close>

definition detach :: "ident \<Rightarrow> ref \<Rightarrow> Directed \<Rightarrow> Directed" where
  "detach c r s =
     (let conf = nodes s r;
          s1 = s\<lparr>txs := (txs s)(c := None)\<rparr>;
          s2 = s1\<lparr>preferences := Set_Remove c (preferences s1)\<rparr>;
          s3 = removeConflict c (ins conf) s2;
          s4 = removeConflict c (outs conf) s3
      in s4\<lparr>status := (status s4)(ID (tx conf) := Rejected)\<rparr>)"

text \<open>
  \<^verbatim>\<open>pendingAccept.Abandon(id)\<close>: the entry of \<open>c\<close> is deleted and every accepter that
  waited on \<open>c\<close> is marked rejected (\<^verbatim>\<open>directedAccepter.Abandon\<close>).
\<close>

definition abandonAccepters :: "ident \<Rightarrow> Directed \<Rightarrow> Directed" where
  "abandonAccepters c s =
     s\<lparr>pendingAccepts := Blocker_delete (pendingAccepts s) c,
       accepters := (\<lambda>a. if a \<in> set (blocking (pendingAccepts s) c)
                          then (accepters s a)\<lparr>a_rejected := True\<rparr> else accepters s a)\<rparr>"

text \<open>
  The second half of the iteration, up to the point where the rejectors waiting on \<open>c\<close>
  are notified: the dispatcher and the metrics are told, \<^verbatim>\<open>pendingAccept.Abandon\<close> runs,
  and the entry of \<open>c\<close> is taken out of \<^verbatim>\<open>pendingReject\<close>.
\<close>

definition announceReject :: "ident \<Rightarrow> ref \<Rightarrow> Directed \<Rightarrow> Directed" where
  "announceReject c r s =
     (let s1 = s\<lparr>dispatched := dispatched s @ [Reject (ID (tx (nodes s r)))],
                 metricsLog := metricsLog s @ [Reject c]\<rparr>;
          s2 = abandonAccepters c s1
      in s2\<lparr>pendingRejects := Blocker_delete (pendingRejects s2) c\<rparr>)"

text \<open>
  \<^verbatim>\<open>reject(ids...)\<close> together with \<^verbatim>\<open>pendingReject.Fulfill(id)\<close>, which calls
  \<^verbatim>\<open>directedRejector.Fulfill\<close> on every rejector that waited on the id, which in turn calls
  \<^verbatim>\<open>reject\<close>. The first argument bounds the depth of this nesting.
\<close>

fun reject :: "nat \<Rightarrow> ident list \<Rightarrow> Directed \<Rightarrow> (err option \<times> Directed) result"
  and fulfillRejectors :: "nat \<Rightarrow> ref list \<Rightarrow> Directed \<Rightarrow> Directed result"
where
  "reject n [] s = Done (None, s)"
| "reject n (c # cs) s =
     (case txs s c of
        None \<Rightarrow> Panic
      | Some r \<Rightarrow>
          (case RejectV (tx (nodes s r)) of
             Some e \<Rightarrow> Done (Some e, detach c r s)
           | None \<Rightarrow>
               (case fulfillRejectors n (blocking (pendingRejects (detach c r s)) c)
                       (announceReject c r (detach c r s)) of
                  Panic \<Rightarrow> Panic
                | OutOfFuel \<Rightarrow> OutOfFuel
                | Done s' \<Rightarrow> reject n cs s')))"
| "fulfillRejectors n [] s = Done s"
| "fulfillRejectors 0 (b # bs) s = OutOfFuel"
| "fulfillRejectors (Suc n) (b # bs) s =
     (if r_rejected (rejectors s b) \<or> errs s \<noteq> None then fulfillRejectors (Suc n) bs s
      else
        (case reject n [ID (tx (nodes s (r_fn (rejectors s b))))]
                (s\<lparr>rejectors := (rejectors s)(b := (rejectors s b)\<lparr>r_rejected := True\<rparr>)\<rparr>) of
           Panic \<Rightarrow> Panic
         | OutOfFuel \<Rightarrow> OutOfFuel
         | Done (e, s') \<Rightarrow> fulfillRejectors (Suc n) bs (errs_Add e s')))"

subsection \<open>The accepter\<close>

text \<open>
  The accepter's work between its guard and the rejection of the conflicts: delete the
  node from the tx map, purge the UTXO entries of its inputs, drop it from \<open>virtuous\<close>
  and \<open>preferences\<close>.
\<close>

definition purge :: "ref \<Rightarrow> Directed \<Rightarrow> Directed" where
  "purge fnr s =
     (let t = tx (nodes s fnr);
          s1 = s\<lparr>txs := (txs s)(ID t := None)\<rparr>;
          s2 = s1\<lparr>utxos := fold (\<lambda>u m. m(u := None)) (InputIDs t) (utxos s1)\<rparr>
      in s2\<lparr>virtuous := Set_Remove (ID t) (virtuous s2),
            preferences := Set_Remove (ID t) (preferences s2)\<rparr>)"

text \<open>
  After a successful \<^verbatim>\<open>Accept()\<close>: the node is flagged, the dispatcher and the metrics
  are told, and the entry of the id is taken out of \<^verbatim>\<open>pendingAccept\<close>.
\<close>

definition announceAccept :: "ref \<Rightarrow> Directed \<Rightarrow> Directed" where
  "announceAccept fnr s =
     (let i = ID (tx (nodes s fnr)) in
      s\<lparr>nodes := (nodes s)(fnr := (nodes s fnr)\<lparr>accepted := True\<rparr>),
        dispatched := dispatched s @ [Accept i],
        metricsLog := metricsLog s @ [Accept i],
        pendingAccepts := Blocker_delete (pendingAccepts s) i\<rparr>)"

text \<open>
  \<^verbatim>\<open>directedAccepter.Update\<close> together with \<^verbatim>\<open>pendingAccept.Fulfill(id)\<close>, which calls
  \<^verbatim>\<open>directedAccepter.Fulfill\<close> (remove the dependency, then \<^verbatim>\<open>Update\<close>) on every accepter
  that waited on the id. The first argument bounds the depth of this nesting. The
  rejectors' \<^verbatim>\<open>Abandon\<close> does nothing, so \<^verbatim>\<open>pendingReject.Abandon(id)\<close> only deletes the
  entry of the id.
\<close>

fun Update :: "nat \<Rightarrow> ref \<Rightarrow> Directed \<Rightarrow> Directed result"
  and fulfillAccepters :: "nat \<Rightarrow> ident \<Rightarrow> ref list \<Rightarrow> Directed \<Rightarrow> Directed result"
where
  "Update n a s =
     (if a_rejected (accepters s a) \<or> a_deps (accepters s a) \<noteq> [] \<or> errs s \<noteq> None then Done s
      else
        (case reject (length (pendingRejects s)) (ins (nodes s (a_fn (accepters s a))))
                (purge (a_fn (accepters s a)) s) of
           Panic \<Rightarrow> Panic
         | OutOfFuel \<Rightarrow> OutOfFuel
         | Done (Some e, s1) \<Rightarrow> Done (errs_Add (Some e) s1)
         | Done (None, s1) \<Rightarrow>
             (case reject (length (pendingRejects s1)) (outs (nodes s1 (a_fn (accepters s1 a)))) s1 of
                Panic \<Rightarrow> Panic
              | OutOfFuel \<Rightarrow> OutOfFuel
              | Done (Some e, s2) \<Rightarrow> Done (errs_Add (Some e) s2)
              | Done (None, s2) \<Rightarrow>
                  (let fnr = a_fn (accepters s2 a);
                       t = tx (nodes s2 fnr);
                       s3 = s2\<lparr>status := (status s2)(ID t := Accepted)\<rparr>
                   in case AcceptV t of
                        Some e \<Rightarrow> Done (errs_Add (Some e) s3)
                      | None \<Rightarrow>
                          (case fulfillAccepters n (ID t) (blocking (pendingAccepts s3) (ID t))
                                  (announceAccept fnr s3) of
                             Panic \<Rightarrow> Panic
                           | OutOfFuel \<Rightarrow> OutOfFuel
                           | Done s4 \<Rightarrow>
                               Done (s4\<lparr>pendingRejects :=
                                          Blocker_delete (pendingRejects s4) (ID t)\<rparr>))))))"
| "fulfillAccepters n i [] s = Done s"
| "fulfillAccepters 0 i (a # as) s = OutOfFuel"
| "fulfillAccepters (Suc n) i (a # as) s =
     (case Update n a
             (s\<lparr>accepters := (accepters s)(a := (accepters s a)\<lparr>a_deps :=
                                 Set_Remove i (a_deps (accepters s a))\<rparr>)\<rparr>) of
        Panic \<Rightarrow> Panic
      | OutOfFuel \<Rightarrow> OutOfFuel
      | Done s' \<Rightarrow> fulfillAccepters (Suc n) i as s')"

text \<open>
  \<^verbatim>\<open>deferAcceptance(fn)\<close>: flag the node, build the accepter with the undecided
  dependencies, drop the id from \<open>virtuousVoting\<close> and register the accepter;
  \<^verbatim>\<open>Blocker.Register\<close> stores the accepter under each of its dependencies and then calls
  its \<^verbatim>\<open>Update\<close>.
\<close>

definition registerAccepter :: "ref \<Rightarrow> Directed \<Rightarrow> Directed" where
  "registerAccepter fnr s =
     (let s1 = s\<lparr>nodes := (nodes s)(fnr := (nodes s fnr)\<lparr>pendingAccept := True\<rparr>)\<rparr>;
          t = tx (nodes s1 fnr);
          a = nextRef s1;
          ds = undecided s1 t
      in s1\<lparr>accepters := (accepters s1)(a := \<lparr>a_deps = ds, a_rejected = False, a_fn = fnr\<rparr>),
             nextRef := Suc a,
             virtuousVoting := Set_Remove (ID t) (virtuousVoting s1),
             pendingAccepts := Blocker_store (pendingAccepts s1) ds a\<rparr>)"

definition deferAcceptance :: "ref \<Rightarrow> Directed \<Rightarrow> Directed result" where
  "deferAcceptance fnr s =
     (let s1 = registerAccepter fnr s in Update (length (pendingAccepts s1)) (nextRef s) s1)"

subsection \<open>RecordPoll\<close>

definition redirectEdge :: "ref \<Rightarrow> ident \<Rightarrow> Directed \<Rightarrow> Directed result" where
  "redirectEdge fnr c s =
     (case txs s c of
        None \<Rightarrow> Panic
      | Some cr \<Rightarrow>
          if bias (nodes s cr) < bias (nodes s fnr) then
            (let nodeID = ID (tx (nodes s fnr));
                 s1 = s\<lparr>nodes := (nodes s)(cr := (nodes s cr)\<lparr>confidence := 0,
                              ins := Set_Remove nodeID (ins (nodes s cr)),
                              outs := Set_Add nodeID (outs (nodes s cr))\<rparr>)\<rparr>;
                 s2 = s1\<lparr>preferences := Set_Remove c (preferences s1)\<rparr>;
                 s3 = s2\<lparr>nodes := (nodes s2)(fnr := (nodes s2 fnr)\<lparr>
                              ins := Set_Add c (ins (nodes s2 fnr)),
                              outs := Set_Remove c (outs (nodes s2 fnr))\<rparr>)\<rparr>
             in Done (if outs (nodes s3 fnr) = []
                      then s3\<lparr>preferences := Set_Add nodeID (preferences s3)\<rparr> else s3))
          else Done s)"

fun redirectLoop :: "ref \<Rightarrow> ident list \<Rightarrow> Directed \<Rightarrow> Directed result" where
  "redirectLoop fnr [] s = Done s"
| "redirectLoop fnr (c # cs) s =
     (case redirectEdge fnr c s of
        Panic \<Rightarrow> Panic
      | OutOfFuel \<Rightarrow> OutOfFuel
      | Done s' \<Rightarrow> redirectLoop fnr cs s')"

definition redirectEdges :: "ref \<Rightarrow> Directed \<Rightarrow> Directed result" where
  "redirectEdges fnr s = redirectLoop fnr (outs (nodes s fnr)) s"

text \<open>The vote bookkeeping of one winner (the node at address \<open>fnr\<close>).\<close>

definition recordVote :: "ref \<Rightarrow> Directed \<Rightarrow> Directed" where
  "recordVote fnr s =
     (let fn = nodes s fnr;
          fn1 = (if wrap (lastVote fn + 1) \<noteq> currentVote s then fn\<lparr>confidence := 0\<rparr> else fn);
          fn2 = fn1\<lparr>lastVote := currentVote s\<rparr>
      in s\<lparr>nodes := (nodes s)(fnr := fn2\<lparr>bias := wrap (bias fn2 + 1),
                                           confidence := wrap (confidence fn2 + 1)\<rparr>)\<rparr>)"

definition shouldAccept :: "ref \<Rightarrow> Directed \<Rightarrow> bool" where
  "shouldAccept fnr s =
     (\<not> pendingAccept (nodes s fnr) \<and>
      ((\<not> rogue (nodes s fnr) \<and> BetaVirtuous (params s) \<le> confidence (nodes s fnr)) \<or>
       BetaRogue (params s) \<le> confidence (nodes s fnr)))"

text \<open>
  One iteration of the loop of \<^verbatim>\<open>RecordPoll\<close> for a winner that has a node. The Boolean
  of the result says that \<^verbatim>\<open>RecordPoll\<close> returns at once (the error check after
  \<^verbatim>\<open>deferAcceptance\<close>).
\<close>

definition pollNode :: "ref \<Rightarrow> Directed \<Rightarrow> (bool \<times> Directed) result" where
  "pollNode fnr s =
     (let s1 = recordVote fnr s in
      if shouldAccept fnr s1 then
        (case deferAcceptance fnr s1 of
           Panic \<Rightarrow> Panic
         | OutOfFuel \<Rightarrow> OutOfFuel
         | Done s2 \<Rightarrow>
             if errs s2 \<noteq> None then Done (True, s2)
             else if \<not> accepted (nodes s2 fnr) then
               (case redirectEdges fnr s2 of
                  Panic \<Rightarrow> Panic | OutOfFuel \<Rightarrow> OutOfFuel | Done s3 \<Rightarrow> Done (False, s3))
             else Done (False, s2))
      else if \<not> accepted (nodes s1 fnr) then
        (case redirectEdges fnr s1 of
           Panic \<Rightarrow> Panic | OutOfFuel \<Rightarrow> OutOfFuel | Done s3 \<Rightarrow> Done (False, s3))
      else Done (False, s1))"

fun pollLoop :: "ident list \<Rightarrow> Directed \<Rightarrow> (err option \<times> Directed) result" where
  "pollLoop [] s = Done (errs s, s)"
| "pollLoop (toInc # rest) s =
     (case txs s toInc of
        None \<Rightarrow> pollLoop rest s
      | Some fnr \<Rightarrow>
          (case pollNode fnr s of
             Panic \<Rightarrow> Panic
           | OutOfFuel \<Rightarrow> OutOfFuel
           | Done (stop, s') \<Rightarrow> if stop then Done (errs s', s') else pollLoop rest s'))"

definition RecordPoll :: "Bag \<Rightarrow> Directed \<Rightarrow> (err option \<times> Directed) result" where
  "RecordPoll votes s =
     (let s1 = s\<lparr>currentVote := wrap (currentVote s + 1)\<rparr>
      in pollLoop (Bag_Threshold (Alpha (params s1)) votes) s1)"

subsection \<open>Add\<close>

text \<open>
  The inner loop of \<^verbatim>\<open>Add\<close> over the spenders of one input: each is looked up without a
  check, taken out of \<open>virtuous\<close> and \<open>virtuousVoting\<close>, marked rogue and given the
  incoming edge.
\<close>

fun markConflicts :: "ident \<Rightarrow> ident list \<Rightarrow> Directed \<Rightarrow> Directed result" where
  "markConflicts txID [] s = Done s"
| "markConflicts txID (c # cs) s =
     (case txs s c of
        None \<Rightarrow> Panic
      | Some r \<Rightarrow>
          markConflicts txID cs
            (s\<lparr>virtuous := Set_Remove c (virtuous s),
               virtuousVoting := Set_Remove c (virtuousVoting s),
               nodes := (nodes s)(r := (nodes s r)\<lparr>rogue := True,
                                      ins := Set_Add txID (ins (nodes s r))\<rparr>)\<rparr>))"

text \<open>
  The outer loop of \<^verbatim>\<open>Add\<close> over the inputs. The new node is not reachable from the
  engine before the loop ends, so its growing \<open>outs\<close> set is the accumulator \<open>os\<close>.
\<close>

fun addInputs :: "ident \<Rightarrow> ident list \<Rightarrow> ident list \<Rightarrow> Directed \<Rightarrow> (ident list \<times> Directed) result"
where
  "addInputs txID [] os s = Done (os, s)"
| "addInputs txID (u # us) os s =
     (let spends = (case utxos s u of None \<Rightarrow> [] | Some sp \<Rightarrow> sp) in
      case markConflicts txID spends s of
        Panic \<Rightarrow> Panic
      | OutOfFuel \<Rightarrow> OutOfFuel
      | Done s1 \<Rightarrow>
          addInputs txID us (Set_Union os spends)
            (s1\<lparr>utxos := (utxos s1)(u \<mapsto> Set_Add txID spends)\<rparr>))"

text \<open>The rest of \<^verbatim>\<open>Add\<close> once the edges are known: store the node, register the rejector.\<close>

definition insertNode :: "Tx \<Rightarrow> ident list \<Rightarrow> Directed \<Rightarrow> Directed" where
  "insertNode t os s =
     (let r = nextRef s;
          fn = (newNode t)\<lparr>outs := os, rogue := (os \<noteq> [])\<rparr>;
          s1 = s\<lparr>nodes := (nodes s)(r := fn), nextRef := Suc r, txs := (txs s)(ID t \<mapsto> r)\<rparr>;
          s2 = (if \<not> rogue fn
                then s1\<lparr>virtuous := Set_Add (ID t) (virtuous s1),
                        virtuousVoting := Set_Add (ID t) (virtuousVoting s1),
                        preferences := Set_Add (ID t) (preferences s1)\<rparr>
                else s1);
          s3 = s2\<lparr>metricsLog := metricsLog s2 @ [Issue (ID t)]\<rparr>;
          b = nextRef s3;
          ds = undecided s3 t
      in s3\<lparr>rejectors := (rejectors s3)(b := \<lparr>r_deps = ds, r_rejected = False, r_fn = r\<rparr>),
             nextRef := Suc b,
             pendingRejects := Blocker_store (pendingRejects s3) ds b\<rparr>)"

definition Add :: "Tx \<Rightarrow> Directed \<Rightarrow> (err option \<times> Directed) result" where
  "Add t s =
     (if Issued t s then Done (None, s)
      else
        (let s1 = s\<lparr>dispatched := dispatched s @ [Issue (ID t)]\<rparr> in
         if InputIDs t = [] then
           (let s2 = s1\<lparr>status := (status s1)(ID t := Accepted)\<rparr> in
            case AcceptV t of
              Some e \<Rightarrow> Done (Some e, s2)
            | None \<Rightarrow>
                Done (None, s2\<lparr>dispatched := dispatched s2 @ [Accept (ID t)],
                               metricsLog := metricsLog s2 @ [Issue (ID t), Accept (ID t)]\<rparr>))
         else
           (case addInputs (ID t) (InputIDs t) [] s1 of
              Panic \<Rightarrow> Panic
            | OutOfFuel \<Rightarrow> OutOfFuel
            | Done (os, s2) \<Rightarrow> (let s3 = insertNode t os s2 in Done (errs s3, s3)))))"

subsection \<open>Runs of the engine\<close>

datatype operation = OpAdd Tx | OpRecordPoll Bag

definition perform :: "operation \<Rightarrow> Directed \<Rightarrow> (err option \<times> Directed) result" where
  "perform opn s = (case opn of OpAdd t \<Rightarrow> Add t s | OpRecordPoll votes \<Rightarrow> RecordPoll votes s)"

text \<open>
  A run performs the operations in order, whatever error each of them returns to its
  caller; it ends with the first panic.
\<close>

fun run :: "operation list \<Rightarrow> Directed \<Rightarrow> Directed result" where
  "run [] s = Done s"
| "run (opn # opns) s =
     (case perform opn s of
        Panic \<Rightarrow> Panic
      | OutOfFuel \<Rightarrow> OutOfFuel
      | Done (e, s') \<Rightarrow> run opns s')"

section \<open>Auxiliary notions for the proofs\<close>

text \<open>
  What every step of an accept or reject cascade leaves alone, or changes in one
  direction only.
\<close>

definition frame :: "Directed \<Rightarrow> Directed \<Rightarrow> bool" where
  "frame s s' \<longleftrightarrow>
     params s' = params s \<and> currentVote s' = currentVote s \<and> nextRef s' = nextRef s \<and>
     virtuousVoting s' = virtuousVoting s \<and>
     (\<forall>r. bias (nodes s' r) = bias (nodes s r) \<and>
          confidence (nodes s' r) = confidence (nodes s r) \<and>
          lastVote (nodes s' r) = lastVote (nodes s r) \<and>
          rogue (nodes s' r) = rogue (nodes s r) \<and>
          pendingAccept (nodes s' r) = pendingAccept (nodes s r) \<and>
          tx (nodes s' r) = tx (nodes s r) \<and>
          a_fn (accepters s' r) = a_fn (accepters s r) \<and>
          r_fn (rejectors s' r) = r_fn (rejectors s r)) \<and>
     (\<forall>r. accepted (nodes s r) \<longrightarrow> accepted (nodes s' r)) \<and>
     (\<forall>r. set (ins (nodes s' r)) \<subseteq> set (ins (nodes s r)) \<and>
          set (outs (nodes s' r)) \<subseteq> set (outs (nodes s r))) \<and>
     (\<forall>i. txs s' i = None \<or> txs s' i = txs s i) \<and>
     (\<forall>u. utxos s' u = None \<or> utxos s' u = utxos s u) \<and>
     (errs s \<noteq> None \<longrightarrow> errs s' = errs s) \<and>
     length (pendingRejects s') \<le> length (pendingRejects s) \<and>
     length (pendingAccepts s') \<le> length (pendingAccepts s)"

section \<open>Concrete transactions and runs\<close>

definition mkTx :: "ident \<Rightarrow> ident list \<Rightarrow> ident list \<Rightarrow> Tx" where
  "mkTx i us ds = \<lparr>ID = i, InputIDs = us, Dependencies = ds, AcceptV = None, RejectV = None\<rparr>"

text \<open>Parameters under which one successful poll is enough to accept any transaction.\<close>

definition quick :: Parameters where
  "quick = \<lparr>K = 2, Alpha = 2, BetaVirtuous = 1, BetaRogue = 1\<rparr>"

text \<open>Parameters under which three consecutive successful polls are needed.\<close>

definition slow :: Parameters where
  "slow = \<lparr>K = 2, Alpha = 2, BetaVirtuous = 3, BetaRogue = 3\<rparr>"

text \<open>The state a run from the initial state ends in.\<close>

definition after :: "Parameters \<Rightarrow> operation list \<Rightarrow> Directed" where
  "after p opns = the_Done (run opns (Initialize p))"

text \<open>A transaction without inputs whose \<^verbatim>\<open>Accept()\<close> callback fails.\<close>

definition failingVacuous :: Tx where
  "failingVacuous =
     \<lparr>ID = 7, InputIDs = [], Dependencies = [], AcceptV = Some ''accept failed'', RejectV = None\<rparr>"

text \<open>A transaction with one input whose \<^verbatim>\<open>Accept()\<close> callback fails.\<close>

definition failingSpender :: Tx where
  "failingSpender =
     \<lparr>ID = 1, InputIDs = [10], Dependencies = [], AcceptV = Some ''accept failed'', RejectV = None\<rparr>"

section \<open>Notions used to state the properties\<close>

text \<open>
  The conflicts of the node \<open>fnr\<close> that \<^verbatim>\<open>redirectEdges\<close> inverts: the ids in its \<open>outs\<close>
  whose node has a strictly smaller bias.
\<close>

definition inverted :: "Directed \<Rightarrow> ref \<Rightarrow> ident \<Rightarrow> bool" where
  "inverted s fnr y =
     (y \<in> set (outs (nodes s fnr)) \<and>
      (case txs s y of None \<Rightarrow> False | Some cr \<Rightarrow> bias (nodes s cr) < bias (nodes s fnr)))"

text \<open>What an inversion does to the node of the conflict, \<open>w\<close> being the id of the winner.\<close>

definition invertedNode :: "ident \<Rightarrow> directedTx \<Rightarrow> directedTx" where
  "invertedNode w n = n\<lparr>confidence := 0, ins := Set_Remove w (ins n), outs := Set_Add w (outs n)\<rparr>"

text \<open>
  Transactions 1 and 2 spend the same input; in the first poll the vote for 2 has been
  recorded and its edges are about to be redirected.
\<close>

definition voted2 :: Directed where
  "voted2 = recordVote 2 ((after slow [OpAdd (mkTx 1 [10] []), OpAdd (mkTx 2 [10] [])])
                            \<lparr>currentVote := 1\<rparr>)"

text \<open>
  Well-formedness of the tx map: the node stored under an id is a node of that id, at an
  address that has been handed out.
\<close>

definition wf :: "Directed \<Rightarrow> bool" where
  "wf s \<longleftrightarrow> (\<forall>i r. txs s i = Some r \<longrightarrow> ID (tx (nodes s r)) = i \<and> r < nextRef s)"

text \<open>The preferences are ids with a node, and exactly those whose node has no out-edge.\<close>

definition prefsOK :: "Directed \<Rightarrow> bool" where
  "prefsOK s \<longleftrightarrow>
     set (preferences s) \<subseteq> dom (txs s) \<and>
     (\<forall>i r. txs s i = Some r \<longrightarrow> (i \<in> set (preferences s)) = (outs (nodes s r) = []))"

definition Inv2 :: "Directed \<Rightarrow> bool" where
  "Inv2 s \<longleftrightarrow> wf s \<and> prefsOK s"

text \<open>Edge symmetry between the transactions that have a node.\<close>

definition edgeSym :: "Directed \<Rightarrow> bool" where
  "edgeSym s \<longleftrightarrow>
     (\<forall>x y rx ry. txs s x = Some rx \<longrightarrow> txs s y = Some ry \<longrightarrow>
        (y \<in> set (outs (nodes s rx))) = (x \<in> set (ins (nodes s ry))))"

text \<open>
  The neighbours a node names either have a node themselves, or are decided (and so can
  never be added again), or are among the ids \<open>H\<close> that an operation is working on.
\<close>

definition closedD :: "ident set \<Rightarrow> Directed \<Rightarrow> bool" where
  "closedD H s \<longleftrightarrow>
     (\<forall>x rx z. txs s x = Some rx \<longrightarrow> z \<in> set (ins (nodes s rx)) \<union> set (outs (nodes s rx)) \<longrightarrow>
        txs s z \<noteq> None \<or> Decided (status s z) \<or> z \<in> H)"

definition Inv3 :: "ident set \<Rightarrow> Directed \<Rightarrow> bool" where
  "Inv3 H s \<longleftrightarrow> Inv2 s \<and> edgeSym s \<and> closedD H s"

text \<open>A transaction spending input 10 whose \<^verbatim>\<open>Reject()\<close> callback fails.\<close>

definition stubborn :: Tx where
  "stubborn =
     \<lparr>ID = 2, InputIDs = [10], Dependencies = [], AcceptV = None, RejectV = Some ''reject failed''\<rparr>"

text \<open>
  Three spenders of input 10; the poll starts accepting transaction 1 and stops at the
  failing rejection of transaction 2; then transaction 1 is added once more.
\<close>

definition halfAccepted :: "operation list" where
  "halfAccepted =
     [OpAdd (mkTx 1 [10] []), OpAdd stubborn, OpAdd (mkTx 3 [10] []), OpRecordPoll [(1, 2)],
      OpAdd (mkTx 1 [10] [])]"

section \<open>Notions used in the proofs about polls, errors and conflicts\<close>

text \<open>
  The vote counters are in order: no counter is negative and no node has been voted
  for in a poll later than the current one.
\<close>

definition votesOK :: "Directed \<Rightarrow> bool" where
  "votesOK s \<longleftrightarrow>
     0 \<le> currentVote s \<and>
     (\<forall>r. 0 \<le> lastVote (nodes s r) \<and> lastVote (nodes s r) \<le> currentVote s)"

text \<open>
  The operation is an \<^verbatim>\<open>Add\<close>, or a poll in which \<open>x\<close> is not among the winners (the ids whose
  count reaches the threshold \<open>a\<close>).
\<close>

definition unvoted :: "int \<Rightarrow> ident \<Rightarrow> operation \<Rightarrow> bool" where
  "unvoted a x opn =
     (case opn of OpAdd t \<Rightarrow> True | OpRecordPoll votes \<Rightarrow> x \<notin> set (Bag_Threshold a votes))"

text \<open>
  Transaction 1 is added and wins two polls in a row.
\<close>

definition gap :: "operation list" where
  "gap = [OpAdd (mkTx 1 [10] []), OpRecordPoll [(1, 2)], OpRecordPoll [(1, 2)]]"

text \<open>
  Transactions 1 and 2 spend the same input; 1 wins two polls, then 2 wins one.
\<close>

definition contested :: "operation list" where
  "contested = [OpAdd (mkTx 1 [10] []), OpAdd (mkTx 2 [10] []),
                OpRecordPoll [(1, 2)], OpRecordPoll [(1, 2)], OpRecordPoll [(2, 2)]]"

text \<open>
  A transaction whose \<^verbatim>\<open>Accept()\<close> fails and an unrelated transaction 2, both in the graph.
\<close>

definition stalled :: "operation list" where
  "stalled = [OpAdd failingSpender, OpAdd (mkTx 2 [11] [])]"

text \<open>
  The same two transactions after a poll for the first one: its acceptance has failed and
  the error is stored.
\<close>

definition faulted :: "operation list" where
  "faulted = [OpAdd failingSpender, OpAdd (mkTx 2 [11] []), OpRecordPoll [(1, 2)]]"

text \<open>
  The neighbours of a node: the ids on its incoming and on its outgoing edges.
\<close>

definition nbrs :: "Directed \<Rightarrow> ref \<Rightarrow> ident set" where
  "nbrs s r = set (ins (nodes s r)) \<union> set (outs (nodes s r))"

text \<open>
  What a reject cascade does between two of its states. Nodes leave the tx map and do
  not come back; a status changes only to Rejected and only for a transaction whose node
  leaves; an edge set loses only ids whose node has left; a node that is not in the tx map
  keeps its edges; accepters and rejectors keep their node and their dependencies; the two
  registries only shrink.
\<close>

definition rejStep :: "Directed \<Rightarrow> Directed \<Rightarrow> bool" where
  "rejStep s s' \<longleftrightarrow>
     (\<forall>i. txs s' i = None \<or> txs s' i = txs s i) \<and>
     (\<forall>i. status s' i = status s i \<or> txs s i \<noteq> None \<and> txs s' i = None \<and> status s' i = Rejected) \<and>
     (\<forall>i. txs s i \<noteq> None \<longrightarrow> txs s' i = None \<longrightarrow> status s' i = Rejected) \<and>
     (\<forall>r w. w \<in> nbrs s r \<longrightarrow> w \<in> nbrs s' r \<or> txs s w \<noteq> None \<and> txs s' w = None) \<and>
     (\<forall>r. nbrs s' r \<subseteq> nbrs s r) \<and>
     (\<forall>r. (\<forall>i. txs s i \<noteq> Some r) \<longrightarrow>
          ins (nodes s' r) = ins (nodes s r) \<and> outs (nodes s' r) = outs (nodes s r)) \<and>
     utxos s' = utxos s \<and> nextRef s' = nextRef s \<and>
     (\<forall>r. tx (nodes s' r) = tx (nodes s r) \<and>
          pendingAccept (nodes s' r) = pendingAccept (nodes s r)) \<and>
     (\<forall>a. a_deps (accepters s' a) = a_deps (accepters s a) \<and>
          a_fn (accepters s' a) = a_fn (accepters s a) \<and>
          (a_rejected (accepters s a) \<longrightarrow> a_rejected (accepters s' a))) \<and>
     (\<forall>b. r_fn (rejectors s' b) = r_fn (rejectors s b) \<and>
          (r_rejected (rejectors s b) \<longrightarrow> r_rejected (rejectors s' b))) \<and>
     set (pendingAccepts s') \<subseteq> set (pendingAccepts s) \<and>
     set (pendingRejects s') \<subseteq> set (pendingRejects s) \<and>
     (distinct (pendingAccepts s) \<longrightarrow> distinct (pendingAccepts s'))"

text \<open>
  The node an accepter was registered for, the node a rejector was registered for, and the
  id of the transaction a node holds.
\<close>

abbreviation fnA :: "Directed \<Rightarrow> ref \<Rightarrow> ref" where
  "fnA s a \<equiv> a_fn (accepters s a)"

abbreviation fnR :: "Directed \<Rightarrow> ref \<Rightarrow> ref" where
  "fnR s b \<equiv> r_fn (rejectors s b)"

abbreviation idOf :: "Directed \<Rightarrow> ref \<Rightarrow> ident" where
  "idOf s r \<equiv> ID (tx (nodes s r))"

text \<open>
  The accepter registrations that can still be notified: the ones in the registry, and the
  ones in \<open>F\<close>, which \<open>fulfillAccepters\<close> has taken out of the registry and is going through.
\<close>

definition waiting :: "(ident \<times> ref) set \<Rightarrow> Directed \<Rightarrow> (ident \<times> ref) set" where
  "waiting F s = set (pendingAccepts s) \<union> F"

text \<open>
  A node is poisoned when one of its neighbours has lost its node for good: it is decided,
  or it is in \<open>H\<close>, the transaction an accepter is accepting at this moment. To accept a
  poisoned node, \<open>Update\<close> would have to reject that neighbour, and \<open>reject\<close> dereferences
  the missing node.
\<close>

definition poisoned :: "ident set \<Rightarrow> Directed \<Rightarrow> ref \<Rightarrow> bool" where
  "poisoned H s r \<longleftrightarrow> (\<exists>w \<in> nbrs s r. txs s w = None \<and> (Decided (status s w) \<or> w \<in> H))"

text \<open>
  A node that can be deleted without harm: it is poisoned, or every accepter still waiting
  for it has been abandoned.
\<close>

definition doomed :: "ident set \<Rightarrow> (ident \<times> ref) set \<Rightarrow> Directed \<Rightarrow> ref \<Rightarrow> bool" where
  "doomed H F s r \<longleftrightarrow>
     poisoned H s r \<or> (\<forall>d a. (d, a) \<in> waiting F s \<longrightarrow> fnA s a = r \<longrightarrow> a_rejected (accepters s a))"

text \<open>
  An id without a node that will not get one again.
\<close>

definition gone :: "ident set \<Rightarrow> Directed \<Rightarrow> ident \<Rightarrow> bool" where
  "gone H s i \<longleftrightarrow> txs s i = None \<and> (Decided (status s i) \<or> i \<in> H)"

text \<open>
  A transaction with a node is still being processed.
\<close>

definition procOK :: "Directed \<Rightarrow> bool" where
  "procOK s \<longleftrightarrow> (\<forall>i r. txs s i = Some r \<longrightarrow> status s i = Processing)"

text \<open>
  The accepter registrations: no entry twice; each entry is a dependency of its accepter,
  which has been allocated and whose node is pending; the entries in flight belong to an
  accepted id that has left the registry; a node has one accepter at most.
\<close>

definition regOK :: "(ident \<times> ref) set \<Rightarrow> Directed \<Rightarrow> bool" where
  "regOK F s \<longleftrightarrow>
     distinct (pendingAccepts s) \<and>
     (\<forall>d a. (d, a) \<in> waiting F s \<longrightarrow>
        d \<in> set (a_deps (accepters s a)) \<and> a < nextRef s \<and> fnA s a < nextRef s \<and>
        pendingAccept (nodes s (fnA s a))) \<and>
     (\<forall>d a. (d, a) \<in> F \<longrightarrow> status s d = Accepted \<and> (\<forall>a'. (d, a') \<notin> set (pendingAccepts s))) \<and>
     (\<forall>d a d' a'. (d, a) \<in> waiting F s \<longrightarrow> (d', a') \<in> waiting F s \<longrightarrow>
        fnA s a = fnA s a' \<longrightarrow> a = a')"

text \<open>
  An accepter that is waiting was registered for a node that is still in the graph, or it
  has been abandoned, or its node is poisoned.
\<close>

definition accOK :: "ident set \<Rightarrow> (ident \<times> ref) set \<Rightarrow> Directed \<Rightarrow> bool" where
  "accOK H F s \<longleftrightarrow>
     (\<forall>d a. (d, a) \<in> waiting F s \<longrightarrow>
        txs s (idOf s (fnA s a)) = Some (fnA s a) \<or> a_rejected (accepters s a) \<or>
        poisoned H s (fnA s a))"

text \<open>
  The node is the one its id is mapped to, or its id is gone.
\<close>

definition rlive :: "ident set \<Rightarrow> Directed \<Rightarrow> ref \<Rightarrow> bool" where
  "rlive H s r \<longleftrightarrow> txs s (idOf s r) = Some r \<or> gone H s (idOf s r)"

text \<open>
  The rejector registrations: each entry is a dependency of the rejector's transaction
  that is not rejected, and a rejector that has not fired belongs to a node in the graph or
  to an id that is gone.
\<close>

definition rejOK :: "ident set \<Rightarrow> Directed \<Rightarrow> bool" where
  "rejOK H s \<longleftrightarrow>
     (\<forall>d b. (d, b) \<in> set (pendingRejects s) \<longrightarrow>
        b < nextRef s \<and> fnR s b < nextRef s \<and>
        d \<in> set (Dependencies (tx (nodes s (fnR s b)))) \<and> status s d \<noteq> Rejected \<and>
        (\<not> r_rejected (rejectors s b) \<longrightarrow> rlive H s (fnR s b)))"

text \<open>
  While the rejector of a node waits on a dependency, an accepter of the same node that
  has not been abandoned waits on it too, unless the dependency is accepted.
\<close>

definition waitOK :: "(ident \<times> ref) set \<Rightarrow> Directed \<Rightarrow> bool" where
  "waitOK F s \<longleftrightarrow>
     (\<forall>d b d' a. (d, b) \<in> set (pendingRejects s) \<longrightarrow> \<not> r_rejected (rejectors s b) \<longrightarrow>
        (d', a) \<in> waiting F s \<longrightarrow> fnA s a = fnR s b \<longrightarrow>
        a_rejected (accepters s a) \<or> (d, a) \<in> set (pendingAccepts s) \<or> status s d = Accepted)"

text \<open>
  A transaction in the graph is listed as a spender of each of its inputs; \<open>X\<close> holds the
  ids exempt from this while an accepter works.
\<close>

definition utxoOK :: "ident set \<Rightarrow> Directed \<Rightarrow> bool" where
  "utxoOK X s \<longleftrightarrow>
     (\<forall>x r u. txs s x = Some r \<longrightarrow> x \<notin> X \<longrightarrow> u \<in> set (InputIDs (tx (nodes s r))) \<longrightarrow>
        (\<exists>sp. utxos s u = Some sp \<and> x \<in> set sp))"

text \<open>
  Two transactions in the graph that share an input are joined by an edge.
\<close>

definition edgeOK :: "Directed \<Rightarrow> bool" where
  "edgeOK s \<longleftrightarrow>
     (\<forall>x y rx ry. txs s x = Some rx \<longrightarrow> txs s y = Some ry \<longrightarrow> x \<noteq> y \<longrightarrow>
        set (InputIDs (tx (nodes s rx))) \<inter> set (InputIDs (tx (nodes s ry))) \<noteq> {} \<longrightarrow>
        y \<in> nbrs s rx)"

text \<open>
  The property of the pair \<open>x\<close>, \<open>y\<close> that is followed along a run: the two nodes hold
  transactions that share an input, and when one of the two is accepted the other one is
  rejected.
\<close>

definition pairOK :: "ident set \<Rightarrow> ident \<Rightarrow> ref \<Rightarrow> ident \<Rightarrow> ref \<Rightarrow> Directed \<Rightarrow> bool" where
  "pairOK H x rx y ry s \<longleftrightarrow>
     (x \<noteq> y \<longrightarrow>
        rx < nextRef s \<and> ry < nextRef s \<and> idOf s rx = x \<and> idOf s ry = y \<and>
        set (InputIDs (tx (nodes s rx))) \<inter> set (InputIDs (tx (nodes s ry))) \<noteq> {} \<and>
        rlive H s rx \<and> rlive H s ry \<and>
        (status s x = Accepted \<longrightarrow> status s y = Rejected) \<and>
        (status s y = Accepted \<longrightarrow> status s x = Rejected))"

text \<open>
  The invariant of the runs without a stored error.
\<close>

definition GI :: "ident set \<Rightarrow> (ident \<times> ref) set \<Rightarrow> ident set \<Rightarrow> ident \<Rightarrow> ref \<Rightarrow> ident \<Rightarrow> ref \<Rightarrow>
    Directed \<Rightarrow> bool" where
  "GI H F X x rx y ry s \<longleftrightarrow>
     Inv3 H s \<and> procOK s \<and> regOK F s \<and> accOK H F s \<and> rejOK H s \<and> waitOK F s \<and>
     utxoOK X s \<and> edgeOK s \<and> pairOK H x rx y ry s"

text \<open>
  What holds of an accepter when it is notified: if it is about to accept, its node is in
  the graph or poisoned, and no other accepter waits for the same node.
\<close>

definition PreU :: "(ident \<times> ref) set \<Rightarrow> ref \<Rightarrow> Directed \<Rightarrow> bool" where
  "PreU F a s \<longleftrightarrow>
     (\<not> a_rejected (accepters s a) \<longrightarrow> a_deps (accepters s a) = [] \<longrightarrow>
        (txs s (idOf s (fnA s a)) = Some (fnA s a) \<or> poisoned {} s (fnA s a)) \<and>
        (\<forall>d a'. (d, a') \<in> waiting F s \<longrightarrow> fnA s a' \<noteq> fnA s a))"

text \<open>
  Two transactions that spend the same input.
\<close>

definition rivals :: "operation list" where
  "rivals = [OpAdd (mkTx 1 [10] []), OpAdd (mkTx 2 [10] [])]"

section \<open>Properties\<close>

subsection \<open>Identifier sets and registries\<close>

lemma set_Set_Add [simp]: "set (Set_Add x xs) = insert x (set xs)"
  by (auto simp: Set_Add_def)

lemma set_Set_Remove [simp]: "set (Set_Remove x xs) = set xs - {x}"
  by (auto simp: Set_Remove_def)

lemma set_Set_Union [simp]: "set (Set_Union xs ys) = set xs \<union> set ys"
  unfolding Set_Union_def by (induction ys arbitrary: xs) auto

lemma Set_Remove_eq_Nil [simp]: "(Set_Remove x xs = []) = (set xs \<subseteq> {x})"
  by (induction xs) (auto simp: Set_Remove_def)

lemma Set_Add_neq_Nil [simp]: "Set_Add x xs \<noteq> []"
  by (auto simp: Set_Add_def)

lemma length_Blocker_delete: "length (Blocker_delete b k) \<le> length b"
  by (simp add: Blocker_delete_def)

lemma length_Blocker_delete_blocking:
  "length (Blocker_delete b k) + length (blocking b k) = length b"
  by (simp add: Blocker_delete_def blocking_def sum_length_filter_compl add.commute)

subsection \<open>The frame of the cascades\<close>

lemma frame_refl [simp]: "frame s s"
  by (simp add: frame_def)

lemma frame_trans: "frame s s' \<Longrightarrow> frame s' s'' \<Longrightarrow> frame s s''"
proof -
  assume a: "frame s s'" and b: "frame s' s''"
  have 1: "\<forall>i. txs s'' i = None \<or> txs s'' i = txs s i"
    using a b unfolding frame_def by metis
  have 2: "\<forall>u. utxos s'' u = None \<or> utxos s'' u = utxos s u"
    using a b unfolding frame_def by metis
  have 3: "\<forall>r. set (ins (nodes s'' r)) \<subseteq> set (ins (nodes s r)) \<and>
          set (outs (nodes s'' r)) \<subseteq> set (outs (nodes s r))"
    using a b unfolding frame_def by (meson order_trans)
  have 4: "errs s \<noteq> None \<longrightarrow> errs s'' = errs s"
    using a b unfolding frame_def by metis
  show ?thesis
    using a b 1 2 3 4 unfolding frame_def by simp
qed

lemma frame_preferences [simp]: "frame s (s\<lparr>preferences := p\<rparr>)"
  by (simp add: frame_def)

lemma frame_nodes_shrink:
  "set i' \<subseteq> set (ins (nodes s r)) \<Longrightarrow> set o' \<subseteq> set (outs (nodes s r)) \<Longrightarrow>
   frame s (s\<lparr>nodes := (nodes s)(r := (nodes s r)\<lparr>ins := i', outs := o'\<rparr>)\<rparr>)"
  by (simp add: frame_def)

lemma frame_removeConflict: "frame s (removeConflict c ns s)"
proof (induction ns arbitrary: s)
  case Nil show ?case by simp
next
  case (Cons n ns)
  show ?case
  proof (cases "txs s n")
    case None then show ?thesis using Cons by simp
  next
    case (Some r)
    let ?nb = "(nodes s r)\<lparr>ins := Set_Remove c (ins (nodes s r)), outs := Set_Remove c (outs (nodes s r))\<rparr>"
    let ?s1 = "s\<lparr>nodes := (nodes s)(r := ?nb)\<rparr>"
    let ?s2 = "(if outs ?nb = [] then ?s1\<lparr>preferences := Set_Add n (preferences ?s1)\<rparr> else ?s1)"
    have 1: "frame s ?s1" by (rule frame_nodes_shrink) auto
    have 2: "frame ?s1 ?s2" by (simp del: Set_Remove_eq_Nil)
    have 3: "frame ?s2 (removeConflict c ns ?s2)" by (rule Cons)
    have "removeConflict c (n # ns) s = removeConflict c ns ?s2"
      using Some by (simp add: Let_def del: Set_Remove_eq_Nil)
    then show ?thesis using frame_trans [OF 1 frame_trans [OF 2 3]] by simp
  qed
qed


subsection \<open>Induction over the two cascades\<close>

lemma reject_preserves:
  fixes R :: "Directed \<Rightarrow> Directed \<Rightarrow> bool"
  assumes refl: "\<And>s. R s s"
    and trans: "\<And>s s' s''. R s s' \<Longrightarrow> R s' s'' \<Longrightarrow> R s s''"
    and d: "\<And>c r s. txs s c = Some r \<Longrightarrow> R s (detach c r s)"
    and a: "\<And>c r s. txs s c = Some r \<Longrightarrow> RejectV (tx (nodes s r)) = None \<Longrightarrow>
               R (detach c r s) (announceReject c r (detach c r s))"
    and m: "\<And>b s. \<not> r_rejected (rejectors s b) \<Longrightarrow> errs s = None \<Longrightarrow>
               R s (s\<lparr>rejectors := (rejectors s)(b := (rejectors s b)\<lparr>r_rejected := True\<rparr>)\<rparr>)"
    and e: "\<And>e s. R s (errs_Add e s)"
  shows "\<forall>e s'. reject n cs s = Done (e, s') \<longrightarrow> R s s'"
    and "\<forall>s'. fulfillRejectors n bs s = Done s' \<longrightarrow> R s s'"
proof (induction n cs s and n bs s rule: reject_fulfillRejectors.induct)
  case (1 n s)
  show ?case by (simp add: refl)
next
  case (2 n c cs s)
  show ?case
  proof (intro allI impI)
    fix e s' assume run: "reject n (c # cs) s = Done (e, s')"
    then obtain r where r: "txs s c = Some r" by (auto split: option.splits)
    show "R s s'"
    proof (cases "RejectV (tx (nodes s r))")
      case (Some x)
      then have "s' = detach c r s" using run r by simp
      then show ?thesis using d [OF r] by simp
    next
      case None
      let ?s1 = "detach c r s"
      let ?s2 = "announceReject c r ?s1"
      obtain s3 where s3: "fulfillRejectors n (blocking (pendingRejects ?s1) c) ?s2 = Done s3"
        and rest: "reject n cs s3 = Done (e, s')"
        using run r None by (auto split: result.splits)
      have "R ?s2 s3" using "2.IH"(1) [OF r None] s3 by blast
      moreover have "R s3 s'" using "2.IH"(2) [OF r None s3] rest by blast
      ultimately show ?thesis using d [OF r] a [OF r None] trans by blast
    qed
  qed
next
  case (3 n s)
  show ?case by (simp add: refl)
next
  case (4 b bs s)
  show ?case by simp
next
  case (5 n b bs s)
  show ?case
  proof (intro allI impI)
    fix s' assume run: "fulfillRejectors (Suc n) (b # bs) s = Done s'"
    show "R s s'"
    proof (cases "r_rejected (rejectors s b) \<or> errs s \<noteq> None")
      case True
      then show ?thesis using run "5.IH"(1) by simp
    next
      case False
      let ?s1 = "s\<lparr>rejectors := (rejectors s)(b := (rejectors s b)\<lparr>r_rejected := True\<rparr>)\<rparr>"
      obtain e1 s2 where s2: "reject n [ID (tx (nodes s (r_fn (rejectors s b))))] ?s1 = Done (e1, s2)"
        and rest: "fulfillRejectors (Suc n) bs (errs_Add e1 s2) = Done s'"
        using run False by (auto split: result.splits)
      have 1: "R s ?s1" using m False by blast
      have 2: "R ?s1 s2" using "5.IH"(2) [OF False] s2 by blast
      have 3: "R s2 (errs_Add e1 s2)" by (rule e)
      have 4: "R (errs_Add e1 s2) s'" using "5.IH"(3) [OF False s2 HOL.refl] rest by blast
      show ?thesis using 1 2 3 4 trans by blast
    qed
  qed
qed

subsection \<open>Frame rules for the single steps\<close>

lemma frame_step:
  assumes "frame s s'"
  shows frame_preferences': "frame s (s'\<lparr>preferences := p\<rparr>)"
    and frame_status': "frame s (s'\<lparr>status := st\<rparr>)"
    and frame_virtuous': "frame s (s'\<lparr>virtuous := v\<rparr>)"
    and frame_dispatched': "frame s (s'\<lparr>dispatched := d\<rparr>)"
    and frame_metricsLog': "frame s (s'\<lparr>metricsLog := ml\<rparr>)"
    and frame_txs_delete': "frame s (s'\<lparr>txs := (txs s')(c := None)\<rparr>)"
    and frame_pendingRejects_delete':
      "frame s (s'\<lparr>pendingRejects := Blocker_delete (pendingRejects s') c\<rparr>)"
    and frame_pendingAccepts_delete':
      "frame s (s'\<lparr>pendingAccepts := Blocker_delete (pendingAccepts s') c\<rparr>)"
    and frame_removeConflict': "frame s (removeConflict c ns s')"
proof -
  show "frame s (s'\<lparr>preferences := p\<rparr>)"
    by (rule frame_trans [OF assms]) (simp add: frame_def)
  show "frame s (s'\<lparr>status := st\<rparr>)"
    by (rule frame_trans [OF assms]) (simp add: frame_def)
  show "frame s (s'\<lparr>virtuous := v\<rparr>)"
    by (rule frame_trans [OF assms]) (simp add: frame_def)
  show "frame s (s'\<lparr>dispatched := d\<rparr>)"
    by (rule frame_trans [OF assms]) (simp add: frame_def)
  show "frame s (s'\<lparr>metricsLog := ml\<rparr>)"
    by (rule frame_trans [OF assms]) (simp add: frame_def)
  show "frame s (s'\<lparr>txs := (txs s')(c := None)\<rparr>)"
    by (rule frame_trans [OF assms]) (simp add: frame_def)
  show "frame s (s'\<lparr>pendingRejects := Blocker_delete (pendingRejects s') c\<rparr>)"
    by (rule frame_trans [OF assms]) (simp add: frame_def length_Blocker_delete)
  show "frame s (s'\<lparr>pendingAccepts := Blocker_delete (pendingAccepts s') c\<rparr>)"
    by (rule frame_trans [OF assms]) (simp add: frame_def length_Blocker_delete)
  show "frame s (removeConflict c ns s')"
    by (rule frame_trans [OF assms frame_removeConflict])
qed

lemma frame_accepters':
  assumes "frame s s'" and "\<And>a. a_fn (f a) = a_fn (accepters s' a)"
  shows "frame s (s'\<lparr>accepters := f\<rparr>)"
  by (rule frame_trans [OF assms(1)]) (simp add: frame_def assms(2))

lemma frame_rejectors':
  assumes "frame s s'" and "\<And>a. r_fn (f a) = r_fn (rejectors s' a)"
  shows "frame s (s'\<lparr>rejectors := f\<rparr>)"
  by (rule frame_trans [OF assms(1)]) (simp add: frame_def assms(2))

lemma frame_utxos':
  assumes "frame s s'" and "\<And>u. m u = None \<or> m u = utxos s' u"
  shows "frame s (s'\<lparr>utxos := m\<rparr>)"
  by (rule frame_trans [OF assms(1)]) (simp add: frame_def assms(2))

lemma frame_errs_Add': "frame s s' \<Longrightarrow> frame s (errs_Add e s')"
  by (erule frame_trans) (simp add: frame_def errs_Add_def)

lemma frame_detach: "frame s (detach c r s)"
  unfolding detach_def Let_def
  by (intro frame_status' frame_removeConflict' frame_preferences' frame_txs_delete' frame_refl)

lemma frame_abandonAccepters': "frame s s' \<Longrightarrow> frame s (abandonAccepters c s')"
  unfolding abandonAccepters_def
  by (rule frame_accepters', rule frame_pendingAccepts_delete') simp_all

lemma frame_announceReject: "frame s (announceReject c r s)"
  unfolding announceReject_def Let_def
  by (intro frame_pendingRejects_delete' frame_abandonAccepters' frame_metricsLog'
        frame_dispatched' frame_refl)

lemma fold_delete_cases:
  "fold (\<lambda>u m. m(u := None)) us m u = (if u \<in> set us then None else m u)"
  by (induction us arbitrary: m) auto

lemma frame_purge: "frame s (purge fnr s)"
  unfolding purge_def Let_def
  apply (rule frame_preferences', rule frame_virtuous', rule frame_utxos', rule frame_txs_delete', rule frame_refl)
  apply (simp add: fold_delete_cases)
  done

lemma frame_accepted': 
  "frame s s' \<Longrightarrow> frame s (s'\<lparr>nodes := (nodes s')(fnr := (nodes s' fnr)\<lparr>accepted := True\<rparr>)\<rparr>)"
  by (erule frame_trans) (simp add: frame_def)

lemma announceAccept_alt:
  "announceAccept fnr s =
     (let i = ID (tx (nodes s fnr));
          s1 = s\<lparr>nodes := (nodes s)(fnr := (nodes s fnr)\<lparr>accepted := True\<rparr>)\<rparr>;
          s2 = s1\<lparr>dispatched := dispatched s1 @ [Accept i]\<rparr>;
          s3 = s2\<lparr>metricsLog := metricsLog s2 @ [Accept i]\<rparr>
      in s3\<lparr>pendingAccepts := Blocker_delete (pendingAccepts s3) i\<rparr>)"
  by (simp add: announceAccept_def Let_def)

lemma frame_announceAccept: "frame s (announceAccept fnr s)"
  unfolding announceAccept_alt Let_def
  by (intro frame_pendingAccepts_delete' frame_metricsLog' frame_dispatched' frame_accepted' frame_refl)

lemma frame_reject: "reject n cs s = Done (e, s') \<Longrightarrow> frame s s'"
  and frame_fulfillRejectors: "fulfillRejectors n bs s = Done s' \<Longrightarrow> frame s s'"
proof -
  have *: "\<forall>e s'. reject n cs s = Done (e, s') \<longrightarrow> frame s s'"
      "\<forall>s'. fulfillRejectors n bs s = Done s' \<longrightarrow> frame s s'" for n cs bs s
    by (rule reject_preserves [where R = frame];
        (rule frame_refl frame_detach frame_announceReject | erule (1) frame_trans |
         rule frame_errs_Add' frame_rejectors', rule frame_refl, simp?))+
  show "reject n cs s = Done (e, s') \<Longrightarrow> frame s s'" using * by blast
  show "fulfillRejectors n bs s = Done s' \<Longrightarrow> frame s s'" using * by blast
qed

subsection \<open>The ways an accepter's update can end\<close>

lemmas Update_unfold = Update.simps

declare Update.simps [simp del]

lemma Update_Done_cases [consumes 1, case_names skip fail_ins fail_outs fail_accept ok]:
  assumes run: "Update n a s = Done s'"
  obtains
    (skip) "a_rejected (accepters s a) \<or> a_deps (accepters s a) \<noteq> [] \<or> errs s \<noteq> None"
      "s' = s"
  | (fail_ins) e s1 where
      "\<not> a_rejected (accepters s a)" "a_deps (accepters s a) = []" "errs s = None"
      "reject (length (pendingRejects s)) (ins (nodes s (a_fn (accepters s a))))
         (purge (a_fn (accepters s a)) s) = Done (Some e, s1)"
      "s' = errs_Add (Some e) s1"
  | (fail_outs) e s1 s2 where
      "\<not> a_rejected (accepters s a)" "a_deps (accepters s a) = []" "errs s = None"
      "reject (length (pendingRejects s)) (ins (nodes s (a_fn (accepters s a))))
         (purge (a_fn (accepters s a)) s) = Done (None, s1)"
      "reject (length (pendingRejects s1)) (outs (nodes s1 (a_fn (accepters s a)))) s1
         = Done (Some e, s2)"
      "s' = errs_Add (Some e) s2"
  | (fail_accept) e s1 s2 where
      "\<not> a_rejected (accepters s a)" "a_deps (accepters s a) = []" "errs s = None"
      "reject (length (pendingRejects s)) (ins (nodes s (a_fn (accepters s a))))
         (purge (a_fn (accepters s a)) s) = Done (None, s1)"
      "reject (length (pendingRejects s1)) (outs (nodes s1 (a_fn (accepters s a)))) s1
         = Done (None, s2)"
      "AcceptV (tx (nodes s (a_fn (accepters s a)))) = Some e"
      "s' = errs_Add (Some e)
              (s2\<lparr>status := (status s2)(ID (tx (nodes s (a_fn (accepters s a)))) := Accepted)\<rparr>)"
  | (ok) s1 s2 s4 where
      "\<not> a_rejected (accepters s a)" "a_deps (accepters s a) = []" "errs s = None"
      "reject (length (pendingRejects s)) (ins (nodes s (a_fn (accepters s a))))
         (purge (a_fn (accepters s a)) s) = Done (None, s1)"
      "reject (length (pendingRejects s1)) (outs (nodes s1 (a_fn (accepters s a)))) s1
         = Done (None, s2)"
      "AcceptV (tx (nodes s (a_fn (accepters s a)))) = None"
      "fulfillAccepters n (ID (tx (nodes s (a_fn (accepters s a)))))
         (blocking (pendingAccepts s2) (ID (tx (nodes s (a_fn (accepters s a))))))
         (announceAccept (a_fn (accepters s a))
            (s2\<lparr>status := (status s2)(ID (tx (nodes s (a_fn (accepters s a)))) := Accepted)\<rparr>))
         = Done s4"
      "s' = s4\<lparr>pendingRejects :=
                 Blocker_delete (pendingRejects s4) (ID (tx (nodes s (a_fn (accepters s a)))))\<rparr>"
proof (cases "a_rejected (accepters s a) \<or> a_deps (accepters s a) \<noteq> [] \<or> errs s \<noteq> None")
  case True
  note U = run [unfolded Update_unfold [of n a s]]
  from U True have "s' = s" by simp
  then show ?thesis using True skip by blast
next
  case False
  note U = run [unfolded Update_unfold [of n a s]]
  define fnr where "fnr = a_fn (accepters s a)"
  define t where "t = tx (nodes s fnr)"
  have g: "\<not> a_rejected (accepters s a)" "a_deps (accepters s a) = []" "errs s = None"
    using False by auto
  obtain x1 s1 where r1:
    "reject (length (pendingRejects s)) (ins (nodes s fnr)) (purge fnr s) = Done (x1, s1)"
    using U False unfolding fnr_def by (auto split: result.splits)
  show ?thesis
  proof (cases x1)
    case (Some e1)
    then have "s' = errs_Add (Some e1) s1" using U False r1 unfolding fnr_def by simp
    then show ?thesis using fail_ins g r1 Some unfolding fnr_def by blast
  next
    case None
    have f1: "frame (purge fnr s) s1" using r1 by (rule frame_reject)
    have fn1: "a_fn (accepters s1 a) = fnr"
      using f1 frame_purge [of s fnr] unfolding fnr_def frame_def by simp
    obtain x2 s2 where r2:
      "reject (length (pendingRejects s1)) (outs (nodes s1 fnr)) s1 = Done (x2, s2)"
      using U False r1 None fn1 unfolding fnr_def by (auto split: result.splits)
    show ?thesis
    proof (cases x2)
      case (Some e2)
      then have "s' = errs_Add (Some e2) s2"
        using U False r1 None r2 fn1 unfolding fnr_def by simp
      then show ?thesis using fail_outs g r1 r2 None Some unfolding fnr_def by blast
    next
      case n2: None
      have f2: "frame s1 s2" using r2 by (rule frame_reject)
      have fs: "frame s s2" using frame_trans [OF frame_purge frame_trans [OF f1 f2]] .
      have fn2: "a_fn (accepters s2 a) = fnr"
        using fs unfolding fnr_def frame_def by simp
      have t2: "tx (nodes s2 fnr) = t"
        using fs unfolding frame_def t_def by simp
      define s3 where "s3 = s2\<lparr>status := (status s2)(ID t := Accepted)\<rparr>"
      have pa: "pendingAccepts s3 = pendingAccepts s2" by (simp add: s3_def)
      show ?thesis
      proof (cases "AcceptV t")
        case (Some e3)
        then have "s' = errs_Add (Some e3) s3"
          using U False r1 None r2 n2 fn1 fn2 t2
          unfolding fnr_def [symmetric] s3_def by (simp add: Let_def)
        then show ?thesis
          using fail_accept g r1 r2 None n2 Some unfolding fnr_def t_def s3_def by blast
      next
        case a3: None
        obtain s4 where s4:
          "fulfillAccepters n (ID t) (blocking (pendingAccepts s2) (ID t)) (announceAccept fnr s3) = Done s4"
          and s': "s' = s4\<lparr>pendingRejects := Blocker_delete (pendingRejects s4) (ID t)\<rparr>"
          using U False r1 None r2 n2 fn1 fn2 t2 a3
          unfolding fnr_def [symmetric] s3_def
          by (auto simp: Let_def split: result.splits)
        show ?thesis
          using ok g r1 r2 None n2 a3 s4 s' unfolding fnr_def t_def s3_def by blast
      qed
    qed
  qed
qed

lemma fulfillAccepters_Done_cases [consumes 1, case_names nil cons]:
  assumes "fulfillAccepters n i as s = Done s'"
  obtains (nil) "as = []" "s' = s"
  | (cons) m a as' s1 where "n = Suc m" "as = a # as'"
      "Update m a (s\<lparr>accepters := (accepters s)(a := (accepters s a)\<lparr>a_deps :=
                                 Set_Remove i (a_deps (accepters s a))\<rparr>)\<rparr>) = Done s1"
      "fulfillAccepters n i as' s1 = Done s'"
proof (cases as)
  case Nil
  then show ?thesis using assms nil by simp
next
  case (Cons a as')
  then obtain m where m: "n = Suc m" using assms by (cases n) auto
  then show ?thesis using assms Cons cons [OF m Cons] by (auto split: result.splits)
qed

lemma Update_preserves:
  fixes R :: "Directed \<Rightarrow> Directed \<Rightarrow> bool"
  assumes refl: "\<And>s. R s s"
    and trans: "\<And>s s' s''. R s s' \<Longrightarrow> R s' s'' \<Longrightarrow> R s s''"
    and fail_ins: "\<And>a s e s1.
       \<not> a_rejected (accepters s a) \<Longrightarrow> a_deps (accepters s a) = [] \<Longrightarrow> errs s = None \<Longrightarrow>
       reject (length (pendingRejects s)) (ins (nodes s (a_fn (accepters s a))))
         (purge (a_fn (accepters s a)) s) = Done (Some e, s1) \<Longrightarrow>
       R s (errs_Add (Some e) s1)"
    and fail_outs: "\<And>a s e s1 s2.
       \<not> a_rejected (accepters s a) \<Longrightarrow> a_deps (accepters s a) = [] \<Longrightarrow> errs s = None \<Longrightarrow>
       reject (length (pendingRejects s)) (ins (nodes s (a_fn (accepters s a))))
         (purge (a_fn (accepters s a)) s) = Done (None, s1) \<Longrightarrow>
       reject (length (pendingRejects s1)) (outs (nodes s1 (a_fn (accepters s a)))) s1
         = Done (Some e, s2) \<Longrightarrow>
       R s (errs_Add (Some e) s2)"
    and accept: "\<And>a s s1 s2.
       \<not> a_rejected (accepters s a) \<Longrightarrow> a_deps (accepters s a) = [] \<Longrightarrow> errs s = None \<Longrightarrow>
       reject (length (pendingRejects s)) (ins (nodes s (a_fn (accepters s a))))
         (purge (a_fn (accepters s a)) s) = Done (None, s1) \<Longrightarrow>
       reject (length (pendingRejects s1)) (outs (nodes s1 (a_fn (accepters s a)))) s1
         = Done (None, s2) \<Longrightarrow>
       R s (s2\<lparr>status := (status s2)(ID (tx (nodes s (a_fn (accepters s a)))) := Accepted)\<rparr>) \<and>
       (AcceptV (tx (nodes s (a_fn (accepters s a)))) = None \<longrightarrow>
        R s (announceAccept (a_fn (accepters s a))
            (s2\<lparr>status := (status s2)(ID (tx (nodes s (a_fn (accepters s a)))) := Accepted)\<rparr>)))"
    and e: "\<And>e s. R s (errs_Add e s)"
    and dp: "\<And>a i s. R s (s\<lparr>accepters := (accepters s)(a := (accepters s a)\<lparr>a_deps :=
                                 Set_Remove i (a_deps (accepters s a))\<rparr>)\<rparr>)"
    and dl: "\<And>i s. R s (s\<lparr>pendingRejects := Blocker_delete (pendingRejects s) i\<rparr>)"
  shows "Update n a s = Done s' \<Longrightarrow> R s s'"
    and "fulfillAccepters n i as s = Done s' \<Longrightarrow> R s s'"
proof -
  have fa: "fulfillAccepters n i as s = Done s' \<Longrightarrow> R s s'"
    if U: "\<And>m a s s'. Suc m = n \<Longrightarrow> Update m a s = Done s' \<Longrightarrow> R s s'"
    for n i as s s'
  proof (induction as arbitrary: s)
    case Nil
    then show ?case using refl by simp
  next
    case (Cons a as)
    from Cons.prems show ?case
    proof (cases rule: fulfillAccepters_Done_cases)
      case nil
      then show ?thesis by simp
    next
      case (cons m a' as' s1)
      then have eq: "a' = a" "as' = as" by simp_all
      have "R s1 s'" using Cons.IH cons(4) eq by blast
      moreover have "R (s\<lparr>accepters := (accepters s)(a := (accepters s a)\<lparr>a_deps :=
                                 Set_Remove i (a_deps (accepters s a))\<rparr>)\<rparr>) s1"
        using U [of m] cons(1,3) eq by blast
      ultimately show ?thesis using dp trans by blast
    qed
  qed
  have up: "Update n a s = Done s' \<Longrightarrow> R s s'"
    if F: "\<And>i as s s'. fulfillAccepters n i as s = Done s' \<Longrightarrow> R s s'"
    for n a s s'
  proof (erule Update_Done_cases)
    show "s' = s \<Longrightarrow> R s s'" using refl by simp
  next
    fix e s1
    show "\<not> a_rejected (accepters s a) \<Longrightarrow> a_deps (accepters s a) = [] \<Longrightarrow> errs s = None \<Longrightarrow>
       reject (length (pendingRejects s)) (ins (nodes s (a_fn (accepters s a))))
         (purge (a_fn (accepters s a)) s) = Done (Some e, s1) \<Longrightarrow>
       s' = errs_Add (Some e) s1 \<Longrightarrow> R s s'"
      using fail_ins by simp
  next
    fix e s1 s2
    show "\<not> a_rejected (accepters s a) \<Longrightarrow> a_deps (accepters s a) = [] \<Longrightarrow> errs s = None \<Longrightarrow>
       reject (length (pendingRejects s)) (ins (nodes s (a_fn (accepters s a))))
         (purge (a_fn (accepters s a)) s) = Done (None, s1) \<Longrightarrow>
       reject (length (pendingRejects s1)) (outs (nodes s1 (a_fn (accepters s a)))) s1
         = Done (Some e, s2) \<Longrightarrow>
       s' = errs_Add (Some e) s2 \<Longrightarrow> R s s'"
      using fail_outs by simp
  next
    fix e s1 s2
    assume "\<not> a_rejected (accepters s a)" "a_deps (accepters s a) = []" "errs s = None"
       "reject (length (pendingRejects s)) (ins (nodes s (a_fn (accepters s a))))
         (purge (a_fn (accepters s a)) s) = Done (None, s1)"
       "reject (length (pendingRejects s1)) (outs (nodes s1 (a_fn (accepters s a)))) s1
         = Done (None, s2)"
       and s': "s' = errs_Add (Some e)
              (s2\<lparr>status := (status s2)(ID (tx (nodes s (a_fn (accepters s a)))) := Accepted)\<rparr>)"
    then have "R s (s2\<lparr>status := (status s2)(ID (tx (nodes s (a_fn (accepters s a)))) := Accepted)\<rparr>)"
      using accept by blast
    then show "R s s'" unfolding s' using e trans by blast
  next
    fix s1 s2 s4
    assume g: "\<not> a_rejected (accepters s a)" "a_deps (accepters s a) = []" "errs s = None"
       "reject (length (pendingRejects s)) (ins (nodes s (a_fn (accepters s a))))
         (purge (a_fn (accepters s a)) s) = Done (None, s1)"
       "reject (length (pendingRejects s1)) (outs (nodes s1 (a_fn (accepters s a)))) s1
         = Done (None, s2)"
       and av: "AcceptV (tx (nodes s (a_fn (accepters s a)))) = None"
       and f: "fulfillAccepters n (ID (tx (nodes s (a_fn (accepters s a)))))
         (blocking (pendingAccepts s2) (ID (tx (nodes s (a_fn (accepters s a))))))
         (announceAccept (a_fn (accepters s a))
            (s2\<lparr>status := (status s2)(ID (tx (nodes s (a_fn (accepters s a)))) := Accepted)\<rparr>))
         = Done s4"
       and s': "s' = s4\<lparr>pendingRejects :=
                 Blocker_delete (pendingRejects s4) (ID (tx (nodes s (a_fn (accepters s a)))))\<rparr>"
    have "R s (announceAccept (a_fn (accepters s a))
            (s2\<lparr>status := (status s2)(ID (tx (nodes s (a_fn (accepters s a)))) := Accepted)\<rparr>))"
      using accept [OF g] av by blast
    moreover have "R (announceAccept (a_fn (accepters s a))
            (s2\<lparr>status := (status s2)(ID (tx (nodes s (a_fn (accepters s a)))) := Accepted)\<rparr>)) s4"
      using F f by blast
    ultimately show "R s s'" unfolding s' using dl trans by blast
  qed
  have both: "(\<forall>a s s'. Update n a s = Done s' \<longrightarrow> R s s') \<and>
              (\<forall>i as s s'. fulfillAccepters n i as s = Done s' \<longrightarrow> R s s')" for n
  proof (induction n)
    case 0
    have F0: "\<And>i as s s'. fulfillAccepters 0 i as s = Done s' \<Longrightarrow> R s s'"
      by (rule fa) simp_all
    show ?case using F0 up [of 0] by blast
  next
    case (Suc n)
    have FS: "\<And>i as s s'. fulfillAccepters (Suc n) i as s = Done s' \<Longrightarrow> R s s'"
      by (rule fa) (use Suc in auto)
    show ?case using FS up [of "Suc n"] by blast
  qed
  show "Update n a s = Done s' \<Longrightarrow> R s s'" using both by blast
  show "fulfillAccepters n i as s = Done s' \<Longrightarrow> R s s'" using both by blast
qed

lemma frame_accepters_deps:
  "frame s (s\<lparr>accepters := (accepters s)(a := (accepters s a)\<lparr>a_deps := ds\<rparr>)\<rparr>)"
  by (rule frame_accepters', rule frame_refl) simp

lemma frame_Update: "Update n a s = Done s' \<Longrightarrow> frame s s'"
  and frame_fulfillAccepters: "fulfillAccepters n i as s = Done s' \<Longrightarrow> frame s s'"
proof -
  have fail_ins: "frame s (errs_Add (Some e) s1)"
    if "reject k cs (purge fnr s) = Done (Some e, s1)" for s e s1 k cs fnr
    using frame_errs_Add' [OF frame_trans [OF frame_purge frame_reject [OF that]]] .
  have two: "frame s s2"
    if "reject k cs (purge fnr s) = Done (None, s1)" "reject k' cs' s1 = Done (x, s2)"
    for s s1 s2 k cs fnr k' cs' x
    using frame_trans [OF frame_purge frame_trans [OF frame_reject [OF that(1)] frame_reject [OF that(2)]]] .
  show "Update n a s = Done s' \<Longrightarrow> frame s s'"
    apply (erule Update_preserves(1) [where R = frame, rotated -1])
           apply (rule frame_refl)
          apply (erule (1) frame_trans)
         apply (erule fail_ins)
        apply (rule frame_errs_Add', erule (1) two)
       apply (rule conjI)
        apply (rule frame_status', erule (1) two)
       apply (rule impI)
       apply (rule frame_trans [OF _ frame_announceAccept])
       apply (rule frame_status', erule (1) two)
      apply (rule frame_errs_Add', rule frame_refl)
     apply (rule frame_accepters_deps)
    apply (rule frame_pendingRejects_delete', rule frame_refl)
    done
  show "fulfillAccepters n i as s = Done s' \<Longrightarrow> frame s s'"
    apply (erule Update_preserves(2) [where R = frame, rotated -1])
           apply (rule frame_refl)
          apply (erule (1) frame_trans)
         apply (erule fail_ins)
        apply (rule frame_errs_Add', erule (1) two)
       apply (rule conjI)
        apply (rule frame_status', erule (1) two)
       apply (rule impI)
       apply (rule frame_trans [OF _ frame_announceAccept])
       apply (rule frame_status', erule (1) two)
      apply (rule frame_errs_Add', rule frame_refl)
     apply (rule frame_accepters_deps)
    apply (rule frame_pendingRejects_delete', rule frame_refl)
    done
qed

subsection \<open>deferAcceptance and redirectEdges\<close>

lemma registerAccepter_fields [simp]:
  "params (registerAccepter fnr s) = params s"
  "currentVote (registerAccepter fnr s) = currentVote s"
  "txs (registerAccepter fnr s) = txs s"
  "utxos (registerAccepter fnr s) = utxos s"
  "errs (registerAccepter fnr s) = errs s"
  "status (registerAccepter fnr s) = status s"
  "preferences (registerAccepter fnr s) = preferences s"
  "virtuous (registerAccepter fnr s) = virtuous s"
  "pendingRejects (registerAccepter fnr s) = pendingRejects s"
  "rejectors (registerAccepter fnr s) = rejectors s"
  "dispatched (registerAccepter fnr s) = dispatched s"
  "metricsLog (registerAccepter fnr s) = metricsLog s"
  "nextRef (registerAccepter fnr s) = Suc (nextRef s)"
  "nodes (registerAccepter fnr s) = (nodes s)(fnr := (nodes s fnr)\<lparr>pendingAccept := True\<rparr>)"
  by (simp_all add: registerAccepter_def Let_def)

lemma registerAccepter_accepter [simp]:
  "accepters (registerAccepter fnr s) =
     (accepters s)(nextRef s := \<lparr>a_deps = undecided s (tx (nodes s fnr)), a_rejected = False, a_fn = fnr\<rparr>)"
  by (simp add: registerAccepter_def Let_def undecided_def)

text \<open>The fields of a node that votes are counted in.\<close>

lemma deferAcceptance_votes:
  assumes "deferAcceptance fnr s = Done s'"
  shows "bias (nodes s' r) = bias (nodes s r) \<and>
    confidence (nodes s' r) = confidence (nodes s r) \<and>
    lastVote (nodes s' r) = lastVote (nodes s r) \<and>
    tx (nodes s' r) = tx (nodes s r) \<and>
    currentVote s' = currentVote s \<and> params s' = params s"
proof -
  have f: "frame (registerAccepter fnr s) s'"
    using assms unfolding deferAcceptance_def Let_def by (rule frame_Update)
  show ?thesis
    using f unfolding frame_def by (simp split: if_splits)
qed

lemma redirectEdge_votes:
  assumes "redirectEdge fnr c s = Done s'"
  shows "bias (nodes s' r) = bias (nodes s r) \<and> lastVote (nodes s' r) = lastVote (nodes s r) \<and>
         tx (nodes s' r) = tx (nodes s r) \<and>
         confidence (nodes s' fnr) = confidence (nodes s fnr) \<and>
         txs s' = txs s \<and> errs s' = errs s \<and> status s' = status s \<and>
         currentVote s' = currentVote s \<and> params s' = params s \<and> utxos s' = utxos s"
  using assms unfolding redirectEdge_def
  by (auto simp: Let_def split: option.splits if_splits)

lemma redirectLoop_votes:
  assumes "redirectLoop fnr cs s = Done s'"
  shows "bias (nodes s' r) = bias (nodes s r) \<and> lastVote (nodes s' r) = lastVote (nodes s r) \<and>
         tx (nodes s' r) = tx (nodes s r) \<and>
         confidence (nodes s' fnr) = confidence (nodes s fnr) \<and>
         txs s' = txs s \<and> errs s' = errs s \<and> status s' = status s \<and>
         currentVote s' = currentVote s \<and> params s' = params s \<and> utxos s' = utxos s"
  using assms
proof (induction cs arbitrary: s)
  case Nil
  then show ?case by simp
next
  case (Cons c cs)
  then obtain s1 where 1: "redirectEdge fnr c s = Done s1" and 2: "redirectLoop fnr cs s1 = Done s'"
    by (auto split: result.splits)
  show ?case using redirectEdge_votes [OF 1, of r] Cons.IH [OF 2] by simp
qed

lemma recordVote_node:
  "nodes (recordVote fnr s) fnr =
     (nodes s fnr)\<lparr>confidence := wrap ((if wrap (lastVote (nodes s fnr) + 1) \<noteq> currentVote s
                                             then 0 else confidence (nodes s fnr)) + 1),
                    lastVote := currentVote s, bias := wrap (bias (nodes s fnr) + 1)\<rparr>"
  by (simp add: recordVote_def Let_def)

lemma recordVote_fields [simp]:
  "currentVote (recordVote fnr s) = currentVote s"
  "params (recordVote fnr s) = params s"
  "txs (recordVote fnr s) = txs s"
  "errs (recordVote fnr s) = errs s"
  "status (recordVote fnr s) = status s"
  "preferences (recordVote fnr s) = preferences s"
  "r \<noteq> fnr \<Longrightarrow> nodes (recordVote fnr s) r = nodes s r"
  by (simp_all add: recordVote_def Let_def)

lemma pollNode_votes:
  assumes "pollNode fnr s = Done (stop, s')"
  shows "bias (nodes s' fnr) = bias (nodes (recordVote fnr s) fnr)"
    and "lastVote (nodes s' fnr) = lastVote (nodes (recordVote fnr s) fnr)"
    and "confidence (nodes s' fnr) = confidence (nodes (recordVote fnr s) fnr)"
proof -
  define s1 where "s1 = recordVote fnr s"
  have "bias (nodes s' fnr) = bias (nodes s1 fnr) \<and> lastVote (nodes s' fnr) = lastVote (nodes s1 fnr) \<and>
        confidence (nodes s' fnr) = confidence (nodes s1 fnr)"
  proof (cases "shouldAccept fnr s1")
    case True
    then obtain s2 where d: "deferAcceptance fnr s1 = Done s2"
      using assms unfolding pollNode_def s1_def [symmetric] Let_def by (auto split: result.splits)
    note dv = deferAcceptance_votes [OF d, of fnr]
    show ?thesis
    proof (cases "errs s2 = None \<and> \<not> accepted (nodes s2 fnr)")
      case False
      then have "s' = s2"
        using assms True d unfolding pollNode_def s1_def [symmetric] Let_def by (auto split: if_splits)
      then show ?thesis using dv by simp
    next
      case c: True
      then have "redirectLoop fnr (outs (nodes s2 fnr)) s2 = Done s'"
        using assms True d unfolding pollNode_def s1_def [symmetric] Let_def redirectEdges_def
        by (auto split: result.splits)
      from redirectLoop_votes [OF this, of fnr] show ?thesis using dv by simp
    qed
  next
    case False
    show ?thesis
    proof (cases "accepted (nodes s1 fnr)")
      case True
      then have "s' = s1"
        using assms False unfolding pollNode_def s1_def [symmetric] Let_def by simp
      then show ?thesis by simp
    next
      case a: False
      then have "redirectLoop fnr (outs (nodes s1 fnr)) s1 = Done s'"
        using assms False unfolding pollNode_def s1_def [symmetric] Let_def redirectEdges_def
        by (auto split: result.splits)
      from redirectLoop_votes [OF this, of fnr] show ?thesis by simp
    qed
  qed
  then show "bias (nodes s' fnr) = bias (nodes (recordVote fnr s) fnr)"
    and "lastVote (nodes s' fnr) = lastVote (nodes (recordVote fnr s) fnr)"
    and "confidence (nodes s' fnr) = confidence (nodes (recordVote fnr s) fnr)"
    unfolding s1_def by simp_all
qed

subsection \<open>Evaluation of concrete runs\<close>

lemmas eval_defs =
  after_def mkTx_def quick_def slow_def wrap_def
  Initialize_def perform_def Add_def RecordPoll_def Issued_def Decided_def
  insertNode_def newNode_def undecided_def Blocker_store_def Set_Add_def Set_Union_def
  Set_Remove_def Bag_Threshold_def pollNode_def recordVote_def shouldAccept_def
  deferAcceptance_def registerAccepter_def redirectEdges_def redirectEdge_def purge_def
  detach_def announceReject_def announceAccept_def abandonAccepters_def blocking_def
  Blocker_delete_def errs_Add_def Update_unfold Let_def

subsection \<open>Add\<close>

lemma markConflicts_fields:
  "markConflicts i cs s = Done s' \<Longrightarrow>
     status s' = status s \<and> txs s' = txs s \<and> utxos s' = utxos s \<and> errs s' = errs s \<and>
     dispatched s' = dispatched s \<and> preferences s' = preferences s \<and> nextRef s' = nextRef s"
  by (induction cs arbitrary: s) (auto split: option.splits)

lemma addInputs_fields:
  "addInputs i us os s = Done (os', s') \<Longrightarrow>
     status s' = status s \<and> txs s' = txs s \<and> errs s' = errs s \<and>
     dispatched s' = dispatched s \<and> preferences s' = preferences s \<and> nextRef s' = nextRef s"
proof (induction us arbitrary: os s)
  case Nil
  then show ?case by simp
next
  case (Cons u us)
  then show ?case
    by (auto simp: Let_def split: result.splits dest!: markConflicts_fields)
qed

lemma insertNode_fields [simp]:
  "txs (insertNode t os s) = (txs s)(ID t \<mapsto> nextRef s)"
  "errs (insertNode t os s) = errs s"
  "status (insertNode t os s) = status s"
  by (simp_all add: insertNode_def Let_def)

lemma Add_Issued_after: "Add t s = Done (e, s') \<Longrightarrow> Issued t s'"
  by (auto simp: Add_def Issued_def Decided_def Let_def
      split: if_splits option.splits result.splits dest!: addInputs_fields)

text \<open>
  C7. For a transaction that is already issued, \<open>Add\<close> returns nil and the engine state
  is the one it was called in; and whatever a completed \<open>Add\<close> returned, adding the same
  transaction again returns nil and changes nothing.
\<close>

theorem Add_idempotent:
  "(Issued t s \<longrightarrow> Add t s = Done (None, s)) \<and>
   (\<forall>e s'. Add t s = Done (e, s') \<longrightarrow> Add t s' = Done (None, s'))"
proof (intro conjI allI impI)
  show "Add t s = Done (None, s)" if "Issued t s" using that by (simp add: Add_def)
next
  fix e s' assume "Add t s = Done (e, s')"
  then have "Issued t s'" by (rule Add_Issued_after)
  then show "Add t s' = Done (None, s')" by (simp add: Add_def)
qed

theorem Add_idempotent_witness:
  "Issued (mkTx 1 [10] []) (after quick [OpAdd (mkTx 1 [10] [])]) \<and>
   Add (mkTx 1 [10] []) (after quick [OpAdd (mkTx 1 [10] [])])
     = Done (None, after quick [OpAdd (mkTx 1 [10] [])]) \<and>
   Add (mkTx 1 [10] []) (Initialize quick)
     = Done (None, after quick [OpAdd (mkTx 1 [10] [])])"
proof -
  have i: "Issued (mkTx 1 [10] []) (after quick [OpAdd (mkTx 1 [10] [])])"
    by (simp add: eval_defs)
  have a: "Add (mkTx 1 [10] []) (Initialize quick)
     = Done (None, after quick [OpAdd (mkTx 1 [10] [])])"
    by (simp add: eval_defs)
  from Add_idempotent [of "mkTx 1 [10] []" "after quick [OpAdd (mkTx 1 [10] [])]"] i a
  show ?thesis by blast
qed

text \<open>
  C6, as the code has it. For a transaction that is not issued and has no inputs, \<open>Add\<close>
  tells the dispatcher of the issue, calls the transaction's \<open>Accept\<close> (which sets its
  status) and returns what \<open>Accept\<close> returned; the Accept event is emitted exactly when
  \<open>Accept\<close> succeeded. In both cases no node is inserted: the tx map, the UTXO index,
  the node store and the sets virtuous, virtuousVoting and preferences are unchanged.
\<close>

theorem Add_vacuous:
  assumes "\<not> Issued t s" and "InputIDs t = []"
  shows "\<exists>s'. Add t s = Done (AcceptV t, s') \<and> status s' (ID t) = Accepted \<and>
           dispatched s' = dispatched s @ Issue (ID t) # (if AcceptV t = None then [Accept (ID t)] else []) \<and>
           txs s' = txs s \<and> utxos s' = utxos s \<and> nodes s' = nodes s \<and>
           virtuous s' = virtuous s \<and> virtuousVoting s' = virtuousVoting s \<and>
           preferences s' = preferences s"
  using assms by (cases "AcceptV t") (simp_all add: Add_def Let_def)

theorem Add_vacuous_witness:
  "\<not> Issued (mkTx 5 [] []) (Initialize quick) \<and> InputIDs (mkTx 5 [] []) = [] \<and>
   status (snd (the_Done (Add (mkTx 5 [] []) (Initialize quick)))) 5 = Accepted \<and>
   dispatched (snd (the_Done (Add (mkTx 5 [] []) (Initialize quick)))) = [Issue 5, Accept 5]"
proof -
  have h: "\<not> Issued (mkTx 5 [] []) (Initialize quick)" "InputIDs (mkTx 5 [] []) = []"
    by (simp_all add: eval_defs)
  from Add_vacuous [OF h] obtain s' where
    "Add (mkTx 5 [] []) (Initialize quick) = Done (AcceptV (mkTx 5 [] []), s')"
    "status s' (ID (mkTx 5 [] [])) = Accepted"
    "dispatched s' = dispatched (Initialize quick) @ Issue (ID (mkTx 5 [] []))
        # (if AcceptV (mkTx 5 [] []) = None then [Accept (ID (mkTx 5 [] []))] else [])"
    by blast
  then show ?thesis using h by (simp add: mkTx_def Initialize_def)
qed

text \<open>
  C6 as stated fails: the transaction below is not issued and has no inputs, its \<open>Accept\<close>
  fails, and \<open>Add\<close> returns the error without emitting the Accept event.
\<close>

theorem Add_vacuous_counterexample:
  "\<not> Issued failingVacuous (Initialize quick) \<and> InputIDs failingVacuous = [] \<and>
   is_Done (Add failingVacuous (Initialize quick)) \<and>
   fst (the_Done (Add failingVacuous (Initialize quick))) = Some ''accept failed'' \<and>
   Accept (ID failingVacuous) \<notin> set (dispatched (snd (the_Done (Add failingVacuous (Initialize quick)))))"
  by (simp add: failingVacuous_def eval_defs)

subsection \<open>What a poll leaves alone\<close>

lemma deferAcceptance_frame:
  "deferAcceptance fnr s = Done s' \<Longrightarrow> frame (registerAccepter fnr s) s'"
  unfolding deferAcceptance_def Let_def by (rule frame_Update)

lemma pollNode_cases [consumes 1, case_names deferred redirected]:
  assumes "pollNode fnr s = Done (stop, s')"
  obtains
    (deferred) s2 where "shouldAccept fnr (recordVote fnr s)"
      "deferAcceptance fnr (recordVote fnr s) = Done s2"
      "errs s2 \<noteq> None \<and> stop \<and> s' = s2 \<or>
       errs s2 = None \<and> \<not> stop \<and> accepted (nodes s2 fnr) \<and> s' = s2 \<or>
       errs s2 = None \<and> \<not> stop \<and> \<not> accepted (nodes s2 fnr) \<and> redirectEdges fnr s2 = Done s'"
  | (redirected) "\<not> shouldAccept fnr (recordVote fnr s)" "\<not> stop"
      "accepted (nodes (recordVote fnr s) fnr) \<and> s' = recordVote fnr s \<or>
       \<not> accepted (nodes (recordVote fnr s) fnr) \<and> redirectEdges fnr (recordVote fnr s) = Done s'"
proof (cases "shouldAccept fnr (recordVote fnr s)")
  case True
  then obtain s2 where d: "deferAcceptance fnr (recordVote fnr s) = Done s2"
    using assms unfolding pollNode_def Let_def by (auto split: result.splits)
  have "errs s2 \<noteq> None \<and> stop \<and> s' = s2 \<or>
       errs s2 = None \<and> \<not> stop \<and> accepted (nodes s2 fnr) \<and> s' = s2 \<or>
       errs s2 = None \<and> \<not> stop \<and> \<not> accepted (nodes s2 fnr) \<and> redirectEdges fnr s2 = Done s'"
    using assms True d unfolding pollNode_def Let_def
    by (auto split: result.splits if_splits)
  then show ?thesis using deferred True d by blast
next
  case False
  have "\<not> stop \<and> (accepted (nodes (recordVote fnr s) fnr) \<and> s' = recordVote fnr s \<or>
       \<not> accepted (nodes (recordVote fnr s) fnr) \<and> redirectEdges fnr (recordVote fnr s) = Done s')"
    using assms False unfolding pollNode_def Let_def
    by (auto split: result.splits if_splits)
  then show ?thesis using redirected False by blast
qed

lemma pollNode_keeps:
  assumes "pollNode fnr s = Done (stop, s')"
  shows "currentVote s' = currentVote s \<and> params s' = params s \<and>
         (\<forall>i. txs s' i = None \<or> txs s' i = txs s i) \<and>
         (errs s \<noteq> None \<longrightarrow> errs s' = errs s) \<and>
         (stop \<longrightarrow> errs s' \<noteq> None) \<and>
         (\<forall>r. r \<noteq> fnr \<longrightarrow> lastVote (nodes s' r) = lastVote (nodes s r))"
  using assms
proof (cases rule: pollNode_cases)
  case (deferred s2)
  have f: "frame (registerAccepter fnr (recordVote fnr s)) s2"
    using deferred(2) by (rule deferAcceptance_frame)
  have k2: "currentVote s2 = currentVote s \<and> params s2 = params s \<and>
         (\<forall>i. txs s2 i = None \<or> txs s2 i = txs s i) \<and>
         (errs s \<noteq> None \<longrightarrow> errs s2 = errs s) \<and>
         (\<forall>r. r \<noteq> fnr \<longrightarrow> lastVote (nodes s2 r) = lastVote (nodes s r))"
    using f unfolding frame_def by simp
  from deferred(3) show ?thesis
  proof (elim disjE conjE)
    assume "redirectEdges fnr s2 = Done s'" "errs s2 = None" "\<not> stop"
    then show ?thesis
      using k2 redirectLoop_votes [of fnr "outs (nodes s2 fnr)" s2 s']
      unfolding redirectEdges_def by simp
  qed (use k2 in simp_all)
next
  case redirected
  from redirected(3) show ?thesis
  proof (elim disjE conjE)
    assume "redirectEdges fnr (recordVote fnr s) = Done s'"
    then show ?thesis
      using redirected(2)
        redirectLoop_votes [of fnr "outs (nodes (recordVote fnr s) fnr)" "recordVote fnr s" s']
      unfolding redirectEdges_def by simp
  qed (use redirected(2) in simp)
qed

lemma pollLoop_keeps:
  assumes "pollLoop ws s = Done (e, s')"
  shows "e = errs s' \<and> currentVote s' = currentVote s \<and> params s' = params s \<and>
         (\<forall>i. txs s' i = None \<or> txs s' i = txs s i) \<and>
         (errs s \<noteq> None \<longrightarrow> errs s' = errs s) \<and>
         ((\<forall>w \<in> set ws. txs s w \<noteq> Some r) \<longrightarrow> lastVote (nodes s' r) = lastVote (nodes s r))"
  using assms
proof (induction ws arbitrary: s)
  case Nil
  then show ?case by auto
next
  case (Cons w ws)
  show ?case
  proof (cases "txs s w")
    case None
    then have "pollLoop ws s = Done (e, s')" using Cons.prems by simp
    from Cons.IH [OF this] show ?thesis by simp
  next
    case (Some fnr)
    then obtain stop s1 where p: "pollNode fnr s = Done (stop, s1)"
      and rest: "if stop then e = errs s1 \<and> s' = s1 else pollLoop ws s1 = Done (e, s')"
      using Cons.prems by (auto split: result.splits if_splits)
    note k = pollNode_keeps [OF p]
    show ?thesis
    proof (cases stop)
      case True
      then show ?thesis using rest k Some by auto
    next
      case False
      then have "pollLoop ws s1 = Done (e, s')" using rest by simp
      note ih = Cons.IH [OF this]
      have 1: "e = errs s'" "currentVote s' = currentVote s" "params s' = params s"
        using ih k by simp_all
      have 2: "\<forall>i. txs s' i = None \<or> txs s' i = txs s i"
        using ih k by metis
      have 3: "errs s \<noteq> None \<longrightarrow> errs s' = errs s"
        using ih k by metis
      have 4: "lastVote (nodes s' r) = lastVote (nodes s r)"
        if a: "\<forall>w \<in> set (w # ws). txs s w \<noteq> Some r"
      proof -
        have "fnr \<noteq> r" using a Some by auto
        moreover have "\<forall>w \<in> set ws. txs s1 w \<noteq> Some r"
          using a k by (metis list.set_intros(2) option.distinct(1))
        ultimately show ?thesis using ih k by metis
      qed
      show ?thesis using 1 2 3 4 by blast
    qed
  qed
qed

lemma RecordPoll_keeps:
  assumes "RecordPoll votes s = Done (e, s')"
  shows "e = errs s' \<and> currentVote s' = wrap (currentVote s + 1) \<and> params s' = params s \<and>
         (\<forall>i. txs s' i = None \<or> txs s' i = txs s i) \<and>
         (errs s \<noteq> None \<longrightarrow> errs s' = errs s) \<and>
         ((\<forall>w \<in> set (Bag_Threshold (Alpha (params s)) votes). txs s w \<noteq> Some r) \<longrightarrow>
            lastVote (nodes s' r) = lastVote (nodes s r))"
  using pollLoop_keeps [OF assms [unfolded RecordPoll_def Let_def], of r] by simp

subsection \<open>The error accumulator\<close>

lemma Add_errs: "Add t s = Done (e, s') \<Longrightarrow> errs s' = errs s"
  by (auto simp: Add_def Let_def split: if_splits option.splits result.splits
      dest!: addInputs_fields)

lemma Add_returns_errs:
  "Add t s = Done (e, s') \<Longrightarrow> \<not> Issued t s \<Longrightarrow> InputIDs t \<noteq> [] \<Longrightarrow> e = errs s"
  by (auto simp: Add_def Let_def split: if_splits option.splits result.splits
      dest!: addInputs_fields)

subsection \<open>Spenders without a node\<close>

text \<open>
  C10 fails on the code. Transactions 1 and 2 share input 10, and 2 also spends 11.
  One poll accepts 1 and rejects 2; \<open>reject\<close> deletes the node of 2 but leaves its id in
  the spender set of 11 (the accepter purges only the inputs of 1). The run completes,
  the spender set of 11 names a transaction without a node, and adding transaction 3,
  which spends 11, dereferences the missing node.
\<close>

theorem dangling_spender:
  "is_Done (run [OpAdd (mkTx 1 [10] []), OpAdd (mkTx 2 [10, 11] []), OpRecordPoll [(1, 2)]]
             (Initialize quick)) \<and>
   utxos (after quick [OpAdd (mkTx 1 [10] []), OpAdd (mkTx 2 [10, 11] []), OpRecordPoll [(1, 2)]]) 11
     = Some [2] \<and>
   txs (after quick [OpAdd (mkTx 1 [10] []), OpAdd (mkTx 2 [10, 11] []), OpRecordPoll [(1, 2)]]) 2
     = None \<and>
   status (after quick [OpAdd (mkTx 1 [10] []), OpAdd (mkTx 2 [10, 11] []), OpRecordPoll [(1, 2)]]) 2
     = Rejected \<and>
   Add (mkTx 3 [11] [])
     (after quick [OpAdd (mkTx 1 [10] []), OpAdd (mkTx 2 [10, 11] []), OpRecordPoll [(1, 2)]])
     = Panic"
  by (simp add: eval_defs)

subsection \<open>redirectEdges\<close>

lemma Set_Remove_idem [simp]: "Set_Remove x (Set_Remove x xs) = Set_Remove x xs"
  by (simp add: Set_Remove_def)

lemma Set_Add_idem [simp]: "Set_Add x (Set_Add x xs) = Set_Add x xs"
  by (simp add: Set_Add_def)

lemma invertedNode_idem [simp]: "invertedNode w (invertedNode w n) = invertedNode w n"
  by (simp add: invertedNode_def)

lemma redirectEdge_inverted:
  assumes "txs s c = Some cr" and "bias (nodes s cr) < bias (nodes s fnr)"
  shows "redirectEdge fnr c s = Done
     (s\<lparr>nodes := (nodes s)(cr := invertedNode (ID (tx (nodes s fnr))) (nodes s cr),
                              fnr := (nodes s fnr)\<lparr>ins := Set_Add c (ins (nodes s fnr)),
                                        outs := Set_Remove c (outs (nodes s fnr))\<rparr>),
         preferences := (if set (outs (nodes s fnr)) \<subseteq> {c}
            then Set_Add (ID (tx (nodes s fnr))) (Set_Remove c (preferences s))
            else Set_Remove c (preferences s))\<rparr>)"
proof -
  have ne: "cr \<noteq> fnr" "fnr \<noteq> cr" using assms(2) by auto
  show ?thesis
    using assms ne by (simp add: redirectEdge_def Let_def invertedNode_def)
qed

lemma redirectEdge_kept:
  assumes "txs s c = Some cr" and "\<not> bias (nodes s cr) < bias (nodes s fnr)"
  shows "redirectEdge fnr c s = Done s"
  using assms by (simp add: redirectEdge_def)


text \<open>
  The loop of \<^verbatim>\<open>redirectEdges\<close> over any list \<open>cs\<close> of conflicts. \<open>I\<close> is the set of the
  ids in \<open>cs\<close> whose edge is inverted.
\<close>

lemma redirectLoop_effect:
  assumes "redirectLoop fnr cs s = Done s'"
    and "txs s (ID (tx (nodes s fnr))) = Some fnr"
  defines "w \<equiv> ID (tx (nodes s fnr))"
  defines "I \<equiv> {y \<in> set cs. \<exists>cr. txs s y = Some cr \<and> bias (nodes s cr) < bias (nodes s fnr)}"
  shows "(\<forall>y \<in> set cs. txs s y \<noteq> None) \<and>
         txs s' = txs s \<and>
         (\<forall>r. bias (nodes s' r) = bias (nodes s r) \<and> tx (nodes s' r) = tx (nodes s r)) \<and>
         (\<forall>r. r \<noteq> fnr \<longrightarrow> nodes s' r =
            (if \<exists>y \<in> I. txs s y = Some r then invertedNode w (nodes s r) else nodes s r)) \<and>
         (\<exists>i' o'. nodes s' fnr = (nodes s fnr)\<lparr>ins := i', outs := o'\<rparr> \<and>
            set i' = set (ins (nodes s fnr)) \<union> I \<and> set o' = set (outs (nodes s fnr)) - I) \<and>
         set (preferences s') =
           (set (preferences s) - I) \<union> (if I \<noteq> {} \<and> outs (nodes s' fnr) = [] then {w} else {})"
  using assms(1,2) unfolding w_def I_def
proof (induction cs arbitrary: s)
  case Nil
  have "\<exists>i' o'. nodes s fnr = (nodes s fnr)\<lparr>ins := i', outs := o'\<rparr> \<and>
          set i' = set (ins (nodes s fnr)) \<and> set o' = set (outs (nodes s fnr))"
    by (intro exI [of _ "ins (nodes s fnr)"] exI [of _ "outs (nodes s fnr)"]) simp
  then show ?case using Nil by simp
next
  case (Cons c cs)
  define w where "w = ID (tx (nodes s fnr))"
  define I where "I = {y \<in> set cs. \<exists>cr. txs s y = Some cr \<and> bias (nodes s cr) < bias (nodes s fnr)}"
  obtain s1 where e: "redirectEdge fnr c s = Done s1" and l: "redirectLoop fnr cs s1 = Done s'"
    using Cons.prems(1) by (auto split: result.splits)
  obtain cr where cr: "txs s c = Some cr"
    using e unfolding redirectEdge_def by (auto split: option.splits)
  note v = redirectEdge_votes [OF e]
  have t1: "txs s1 = txs s" using v by simp
  have b1: "\<And>r. bias (nodes s1 r) = bias (nodes s r)" "\<And>r. tx (nodes s1 r) = tx (nodes s r)"
    using v by simp_all
  have w1: "txs s1 (ID (tx (nodes s1 fnr))) = Some fnr" using Cons.prems(2) t1 b1 by simp
  note ih = Cons.IH [OF l w1, unfolded t1 b1, folded w_def I_def]
  show ?case
  proof (cases "bias (nodes s cr) < bias (nodes s fnr)")
    case False
    then have s1: "s1 = s" using e redirectEdge_kept [OF cr] by simp
    have I': "{y \<in> set (c # cs). \<exists>cr. txs s y = Some cr \<and> bias (nodes s cr) < bias (nodes s fnr)} = I"
      using False cr unfolding I_def by auto
    show ?thesis unfolding I' w_def [symmetric] using ih cr unfolding s1 by simp
  next
    case True
    then have ne: "cr \<noteq> fnr" by auto
    then have cw: "c \<noteq> w" using cr Cons.prems(2) unfolding w_def by auto
    define n1 where "n1 = (nodes s fnr)\<lparr>ins := Set_Add c (ins (nodes s fnr)),
                                        outs := Set_Remove c (outs (nodes s fnr))\<rparr>"
    have s1: "s1 = s\<lparr>nodes := (nodes s)(cr := invertedNode w (nodes s cr), fnr := n1),
         preferences := (if set (outs (nodes s fnr)) \<subseteq> {c}
            then Set_Add w (Set_Remove c (preferences s))
            else Set_Remove c (preferences s))\<rparr>"
      using e redirectEdge_inverted [OF cr True] unfolding n1_def w_def by simp
    have nodes1: "nodes s1 = (nodes s)(cr := invertedNode w (nodes s cr), fnr := n1)"
      unfolding s1 by simp
    have prefs1: "set (preferences s1) =
        (set (preferences s) - {c}) \<union> (if outs n1 = [] then {w} else {})"
      unfolding s1 n1_def by simp
    have I': "{y \<in> set (c # cs). \<exists>cr. txs s y = Some cr \<and> bias (nodes s cr) < bias (nodes s fnr)}
        = insert c I"
      using True cr unfolding I_def by auto
    have wI: "w \<notin> I" using Cons.prems(2) unfolding I_def w_def by auto
    from ih obtain i' o' where
      fn': "nodes s' fnr = (nodes s1 fnr)\<lparr>ins := i', outs := o'\<rparr>"
      and i': "set i' = set (ins (nodes s1 fnr)) \<union> I"
      and o': "set o' = set (outs (nodes s1 fnr)) - I" by blast
    have A: "\<forall>y \<in> set (c # cs). txs s y \<noteq> None" using ih cr by simp
    have B: "txs s' = txs s" using ih by simp
    have C: "\<forall>r. bias (nodes s' r) = bias (nodes s r) \<and> tx (nodes s' r) = tx (nodes s r)"
      using ih by simp
    have D: "\<forall>r. r \<noteq> fnr \<longrightarrow> nodes s' r =
            (if \<exists>y \<in> insert c I. txs s y = Some r then invertedNode w (nodes s r) else nodes s r)"
    proof (intro allI impI)
      fix r assume r: "r \<noteq> fnr"
      have ihr: "nodes s' r = (if \<exists>y \<in> I. txs s y = Some r then invertedNode w (nodes s1 r) else nodes s1 r)"
        using ih r by simp
      show "nodes s' r =
            (if \<exists>y \<in> insert c I. txs s y = Some r then invertedNode w (nodes s r) else nodes s r)"
      proof (cases "r = cr")
        case True
        have "nodes s1 cr = invertedNode w (nodes s cr)" using ne unfolding nodes1 by simp
        then have "nodes s' cr = invertedNode w (nodes s cr)" using ihr True by simp
        moreover have "\<exists>y \<in> insert c I. txs s y = Some cr" using cr by blast
        ultimately show ?thesis using True by simp
      next
        case False
        have "nodes s1 r = nodes s r" using r False unfolding nodes1 by simp
        moreover have "(\<exists>y \<in> insert c I. txs s y = Some r) = (\<exists>y \<in> I. txs s y = Some r)"
          using cr False by auto
        ultimately show ?thesis using ihr by simp
      qed
    qed
    have n1f: "nodes s1 fnr = n1" unfolding nodes1 by simp
    have E: "\<exists>i' o'. nodes s' fnr = (nodes s fnr)\<lparr>ins := i', outs := o'\<rparr> \<and>
            set i' = set (ins (nodes s fnr)) \<union> insert c I \<and>
            set o' = set (outs (nodes s fnr)) - insert c I"
    proof (intro exI conjI)
      show "nodes s' fnr = (nodes s fnr)\<lparr>ins := i', outs := o'\<rparr>"
        unfolding fn' n1f n1_def by simp
      show "set i' = set (ins (nodes s fnr)) \<union> insert c I"
        unfolding i' n1f n1_def by simp
      show "set o' = set (outs (nodes s fnr)) - insert c I"
        unfolding o' n1f n1_def by auto
    qed
    have o1: "outs (nodes s1 fnr) = outs n1" unfolding n1f by simp
    have oo: "outs (nodes s' fnr) = o'" using fn' by simp
    have F: "set (preferences s') =
           (set (preferences s) - insert c I) \<union>
           (if insert c I \<noteq> {} \<and> outs (nodes s' fnr) = [] then {w} else {})"
    proof -
      have p: "set (preferences s') =
           (set (preferences s1) - I) \<union> (if I \<noteq> {} \<and> outs (nodes s' fnr) = [] then {w} else {})"
        using ih by simp
      show ?thesis
      proof (cases "outs n1 = []")
        case True
        then have "o' = []" using o' o1 by simp
        then show ?thesis using p prefs1 True wI oo by auto
      next
        case False
        then have "o' = [] \<longrightarrow> I \<noteq> {}" using o' o1 by auto
        then show ?thesis using p prefs1 False oo by auto
      qed
    qed
    show ?thesis unfolding I' w_def [symmetric] using A B C D E F by blast
  qed
qed

text \<open>
  C5. Let \<open>w\<close> be the id of the node \<open>fnr\<close>, found under that id in the tx map, and let
  \<^verbatim>\<open>redirectEdges\<close> complete. A conflict \<open>y\<close> in \<open>w.outs\<close> is inverted when its bias is
  strictly smaller than that of \<open>w\<close>. Then every conflict in \<open>w.outs\<close> has a node; the node
  of an inverted conflict gets confidence 0, loses \<open>w\<close> from its \<open>ins\<close> and gains \<open>w\<close> in
  its \<open>outs\<close>, and the conflict is not preferred afterwards; the node of a conflict that is
  not inverted (a tie, or a larger bias) is unchanged and the conflict stays in \<open>w.outs\<close>;
  \<open>w.ins\<close> gains exactly the inverted conflicts, \<open>w.outs\<close> loses exactly them and the other
  fields of the node of \<open>w\<close> are unchanged; and the preferences lose the inverted conflicts
  and gain \<open>w\<close> exactly when an inversion left \<open>w.outs\<close> empty.
\<close>

theorem redirectEdges_inverts:
  assumes "redirectEdges fnr s = Done s'"
    and "w = ID (tx (nodes s fnr))" and "txs s w = Some fnr"
  shows "(\<forall>y \<in> set (outs (nodes s fnr)). \<exists>cr. txs s y = Some cr \<and>
            (inverted s fnr y \<longrightarrow> nodes s' cr = invertedNode w (nodes s cr) \<and>
                                   y \<notin> set (preferences s')) \<and>
            (\<not> inverted s fnr y \<longrightarrow> (cr \<noteq> fnr \<longrightarrow> nodes s' cr = nodes s cr) \<and>
                                     y \<in> set (outs (nodes s' fnr)))) \<and>
         set (ins (nodes s' fnr)) = set (ins (nodes s fnr)) \<union> {y. inverted s fnr y} \<and>
         set (outs (nodes s' fnr)) = set (outs (nodes s fnr)) - {y. inverted s fnr y} \<and>
         (nodes s' fnr)\<lparr>ins := [], outs := []\<rparr> = (nodes s fnr)\<lparr>ins := [], outs := []\<rparr> \<and>
         set (preferences s') =
           (set (preferences s) - {y. inverted s fnr y}) \<union>
           (if (\<exists>y. inverted s fnr y) \<and> outs (nodes s' fnr) = [] then {w} else {})"
proof -
  define I where "I = {y \<in> set (outs (nodes s fnr)).
                        \<exists>cr. txs s y = Some cr \<and> bias (nodes s cr) < bias (nodes s fnr)}"
  have Iinv: "I = {y. inverted s fnr y}"
    unfolding I_def inverted_def by (auto split: option.splits)
  have l: "redirectLoop fnr (outs (nodes s fnr)) s = Done s'"
    using assms(1) unfolding redirectEdges_def .
  have t: "txs s (ID (tx (nodes s fnr))) = Some fnr" using assms(2,3) by simp
  note eff = redirectLoop_effect [OF l t, folded I_def, folded assms(2)]
  have ex: "\<forall>y \<in> set (outs (nodes s fnr)). txs s y \<noteq> None" using eff by blast
  have other: "\<forall>r. r \<noteq> fnr \<longrightarrow> nodes s' r =
            (if \<exists>y \<in> I. txs s y = Some r then invertedNode w (nodes s r) else nodes s r)"
    using eff by blast
  obtain i' o' where fn': "nodes s' fnr = (nodes s fnr)\<lparr>ins := i', outs := o'\<rparr>"
    and i': "set i' = set (ins (nodes s fnr)) \<union> I"
    and o': "set o' = set (outs (nodes s fnr)) - I"
    using eff by blast
  have prefs: "set (preferences s') =
           (set (preferences s) - I) \<union> (if I \<noteq> {} \<and> outs (nodes s' fnr) = [] then {w} else {})"
    using eff by blast
  have wI: "w \<notin> I" using assms(3) unfolding I_def by auto
  have 1: "\<exists>cr. txs s y = Some cr \<and>
            (inverted s fnr y \<longrightarrow> nodes s' cr = invertedNode w (nodes s cr) \<and>
                                   y \<notin> set (preferences s')) \<and>
            (\<not> inverted s fnr y \<longrightarrow> (cr \<noteq> fnr \<longrightarrow> nodes s' cr = nodes s cr) \<and>
                                     y \<in> set (outs (nodes s' fnr)))"
    if y: "y \<in> set (outs (nodes s fnr))" for y
  proof -
    obtain cr where cr: "txs s y = Some cr" using ex y by blast
    have a: "nodes s' cr = invertedNode w (nodes s cr) \<and> y \<notin> set (preferences s')"
      if inv: "inverted s fnr y"
    proof -
      have yI: "y \<in> I" using inv Iinv by simp
      then have "bias (nodes s cr) < bias (nodes s fnr)" using cr unfolding I_def by simp
      then have "cr \<noteq> fnr" by auto
      then have "nodes s' cr = invertedNode w (nodes s cr)" using other yI cr by auto
      moreover have "y \<noteq> w" using yI wI by auto
      then have "y \<notin> set (preferences s')" using prefs yI by (auto split: if_splits)
      ultimately show ?thesis by simp
    qed
    have b: "(cr \<noteq> fnr \<longrightarrow> nodes s' cr = nodes s cr) \<and> y \<in> set (outs (nodes s' fnr))"
      if ninv: "\<not> inverted s fnr y"
    proof -
      have yI: "y \<notin> I" using ninv Iinv by simp
      then have nb: "\<not> bias (nodes s cr) < bias (nodes s fnr)" using cr y unfolding I_def by simp
      have "\<not> (\<exists>y' \<in> I. txs s y' = Some cr)" using nb unfolding I_def by auto
      then have "cr \<noteq> fnr \<longrightarrow> nodes s' cr = nodes s cr" using other by simp
      moreover have "y \<in> set (outs (nodes s' fnr))" using fn' o' y yI by simp
      ultimately show ?thesis by simp
    qed
    show ?thesis using cr a b by blast
  qed
  have 2: "set (ins (nodes s' fnr)) = set (ins (nodes s fnr)) \<union> {y. inverted s fnr y}"
    using fn' i' Iinv by simp
  have 3: "set (outs (nodes s' fnr)) = set (outs (nodes s fnr)) - {y. inverted s fnr y}"
    using fn' o' Iinv by simp
  have 4: "(nodes s' fnr)\<lparr>ins := [], outs := []\<rparr> = (nodes s fnr)\<lparr>ins := [], outs := []\<rparr>"
    unfolding fn' by simp
  have 5: "set (preferences s') =
           (set (preferences s) - {y. inverted s fnr y}) \<union>
           (if (\<exists>y. inverted s fnr y) \<and> outs (nodes s' fnr) = [] then {w} else {})"
  proof -
    have "(I \<noteq> {}) = (\<exists>y. inverted s fnr y)" unfolding Iinv by auto
    then show ?thesis using prefs unfolding Iinv by simp
  qed
  show ?thesis using 1 2 3 4 5 by blast
qed

theorem redirectEdges_inverts_witness:
  "is_Done (redirectEdges 2 voted2) \<and> 2 = ID (tx (nodes voted2 2)) \<and> txs voted2 2 = Some 2 \<and>
   outs (nodes voted2 2) = [1] \<and> txs voted2 1 = Some 0 \<and> inverted voted2 2 1 \<and>
   nodes (the_Done (redirectEdges 2 voted2)) 0 = invertedNode 2 (nodes voted2 0) \<and>
   1 \<notin> set (preferences (the_Done (redirectEdges 2 voted2))) \<and>
   set (preferences (the_Done (redirectEdges 2 voted2))) = {2}"
proof -
  let ?s' = "the_Done (redirectEdges 2 voted2)"
  have d: "is_Done (redirectEdges 2 voted2)" by (simp add: voted2_def eval_defs)
  then have r: "redirectEdges 2 voted2 = Done ?s'" by simp
  have w: "2 = ID (tx (nodes voted2 2))" by (simp add: voted2_def eval_defs)
  have t: "txs voted2 2 = Some 2" by (simp add: voted2_def eval_defs)
  have o: "outs (nodes voted2 2) = [1]" by (simp add: voted2_def eval_defs)
  have t1: "txs voted2 1 = Some 0" by (simp add: voted2_def eval_defs)
  have i: "inverted voted2 2 1" by (simp add: inverted_def voted2_def eval_defs)
  have p: "set (preferences voted2) = {1}" by (simp add: voted2_def eval_defs)
  note th = redirectEdges_inverts [OF r w t]
  have m: "(1::nat) \<in> set (outs (nodes voted2 2))" unfolding o by simp
  from th [THEN conjunct1, THEN bspec, OF m] obtain cr where
    c1: "txs voted2 1 = Some cr" and
    c2: "inverted voted2 2 1 \<longrightarrow> nodes ?s' cr = invertedNode 2 (nodes voted2 cr) \<and>
                                   1 \<notin> set (preferences ?s')"
    by blast
  have cr0: "cr = 0" using c1 t1 by simp
  have a: "nodes ?s' 0 = invertedNode 2 (nodes voted2 0)" "1 \<notin> set (preferences ?s')"
    using c2 i unfolding cr0 by blast+
  have inv: "{y. inverted voted2 2 y} = {1}"
    using i o unfolding inverted_def by auto
  have "set (outs (nodes ?s' 2)) = set (outs (nodes voted2 2)) - {y. inverted voted2 2 y}"
    using th by blast
  then have oe: "outs (nodes ?s' 2) = []" unfolding o inv by simp
  have "set (preferences ?s') =
           (set (preferences voted2) - {y. inverted voted2 2 y}) \<union>
           (if (\<exists>y. inverted voted2 2 y) \<and> outs (nodes ?s' 2) = [] then {2} else {})"
    using th by blast
  moreover have "\<exists>y. inverted voted2 2 y" using i by blast
  ultimately have b: "set (preferences ?s') = {2}" unfolding p inv oe by simp
  show ?thesis using d w t o t1 i a b by simp
qed

subsection \<open>The preferences invariant\<close>

lemma Inv2I:
  assumes "\<And>i r. txs s i = Some r \<Longrightarrow> ID (tx (nodes s r)) = i \<and> r < nextRef s"
    and "set (preferences s) \<subseteq> dom (txs s)"
    and "\<And>i r. txs s i = Some r \<Longrightarrow> (i \<in> set (preferences s)) = (outs (nodes s r) = [])"
  shows "Inv2 s"
  using assms unfolding Inv2_def wf_def prefsOK_def by blast

lemma Inv2D:
  assumes "Inv2 s"
  shows "txs s i = Some r \<Longrightarrow> ID (tx (nodes s r)) = i"
    and "txs s i = Some r \<Longrightarrow> r < nextRef s"
    and "set (preferences s) \<subseteq> dom (txs s)"
    and "txs s i = Some r \<Longrightarrow> (i \<in> set (preferences s)) = (outs (nodes s r) = [])"
  using assms unfolding Inv2_def wf_def prefsOK_def by blast+

lemma Inv2_inj: "Inv2 s \<Longrightarrow> txs s i = Some r \<Longrightarrow> txs s j = Some r \<Longrightarrow> i = j"
  using Inv2D(1) by blast

text \<open>The invariant reads the tx map, the preferences, and the \<open>tx\<close> and \<open>outs\<close> of the nodes.\<close>

lemma Inv2_same:
  assumes "Inv2 s" and "txs s' = txs s" and "preferences s' = preferences s"
    and "nextRef s \<le> nextRef s'"
    and "\<And>r. tx (nodes s' r) = tx (nodes s r) \<and> outs (nodes s' r) = outs (nodes s r)"
  shows "Inv2 s'"
proof (rule Inv2I)
  fix i r assume "txs s' i = Some r"
  then have t: "txs s i = Some r" using assms(2) by simp
  show "ID (tx (nodes s' r)) = i \<and> r < nextRef s'"
    using Inv2D(1,2) [OF assms(1) t] assms(4,5) by simp
  show "(i \<in> set (preferences s')) = (outs (nodes s' r) = [])"
    using Inv2D(4) [OF assms(1) t] assms(3,5) by simp
next
  show "set (preferences s') \<subseteq> dom (txs s')"
    using Inv2D(3) [OF assms(1)] assms(2,3) by simp
qed

lemma Inv2_delete:
  assumes "Inv2 s" and "txs s' = (txs s)(c := None)"
    and "set (preferences s') = set (preferences s) - {c}"
    and "nextRef s \<le> nextRef s'"
    and "\<And>r. tx (nodes s' r) = tx (nodes s r) \<and> outs (nodes s' r) = outs (nodes s r)"
  shows "Inv2 s'"
proof (rule Inv2I)
  fix i r assume "txs s' i = Some r"
  then have t: "txs s i = Some r" and ic: "i \<noteq> c" using assms(2) by (auto split: if_splits)
  show "ID (tx (nodes s' r)) = i \<and> r < nextRef s'"
    using Inv2D(1,2) [OF assms(1) t] assms(4,5) by simp
  show "(i \<in> set (preferences s')) = (outs (nodes s' r) = [])"
    using Inv2D(4) [OF assms(1) t] assms(3,5) ic by simp
next
  show "set (preferences s') \<subseteq> dom (txs s')"
    using Inv2D(3) [OF assms(1)] assms(2,3) by auto
qed

text \<open>One neighbour loses an out-edge.\<close>

lemma Inv2_neighbour:
  assumes "Inv2 s" and "txs s n = Some r" and "txs s' = txs s" and "nextRef s' = nextRef s"
    and "\<And>r'. tx (nodes s' r') = tx (nodes s r')"
    and "\<And>r'. r' \<noteq> r \<Longrightarrow> outs (nodes s' r') = outs (nodes s r')"
    and "set (outs (nodes s' r)) \<subseteq> set (outs (nodes s r))"
    and "set (preferences s') = (if outs (nodes s' r) = [] then insert n (set (preferences s))
                                   else set (preferences s))"
  shows "Inv2 s'"
proof (rule Inv2I)
  fix i r' assume "txs s' i = Some r'"
  then have t: "txs s i = Some r'" using assms(3) by simp
  show "ID (tx (nodes s' r')) = i \<and> r' < nextRef s'"
    using Inv2D(1,2) [OF assms(1) t] assms(4,5) by simp
  show "(i \<in> set (preferences s')) = (outs (nodes s' r') = [])"
  proof (cases "r' = r")
    case True
    then have "i = n" using Inv2_inj [OF assms(1) t] assms(2) by simp
    moreover have "outs (nodes s' r) \<noteq> [] \<Longrightarrow> n \<notin> set (preferences s)"
      using Inv2D(4) [OF assms(1,2)] assms(7) by auto
    ultimately show ?thesis using assms(8) True by auto
  next
    case False
    then have "i \<noteq> n" using t assms(2) by auto
    then show ?thesis using Inv2D(4) [OF assms(1) t] assms(6) [OF False] assms(8) by auto
  qed
next
  show "set (preferences s') \<subseteq> dom (txs s')"
    using Inv2D(3) [OF assms(1)] assms(2,3,8) by (auto split: if_splits)
qed

lemma Inv2_removeConflict: "Inv2 s \<Longrightarrow> Inv2 (removeConflict c ns s)"
proof (induction ns arbitrary: s)
  case Nil
  then show ?case by simp
next
  case (Cons n ns)
  show ?case
  proof (cases "txs s n")
    case None
    then show ?thesis using Cons by simp
  next
    case (Some r)
    define nb where "nb = (nodes s r)\<lparr>ins := Set_Remove c (ins (nodes s r)),
                                       outs := Set_Remove c (outs (nodes s r))\<rparr>"
    define s2 where "s2 = (if outs nb = []
        then s\<lparr>nodes := (nodes s)(r := nb), preferences := Set_Add n (preferences s)\<rparr>
        else s\<lparr>nodes := (nodes s)(r := nb)\<rparr>)"
    have step: "removeConflict c (n # ns) s = removeConflict c ns s2"
      using Some unfolding s2_def nb_def by (simp add: Let_def del: Set_Remove_eq_Nil)
    have p: "txs s2 = txs s" "nextRef s2 = nextRef s" "nodes s2 = (nodes s)(r := nb)"
      "preferences s2 = (if outs nb = [] then Set_Add n (preferences s) else preferences s)"
      unfolding s2_def by (simp_all del: Set_Remove_eq_Nil)
    have "Inv2 s2"
    proof (rule Inv2_neighbour [OF Cons.prems Some])
      show "txs s2 = txs s" "nextRef s2 = nextRef s" by (fact p)+
      show "tx (nodes s2 r') = tx (nodes s r')" for r' unfolding p nb_def by simp
      show "r' \<noteq> r \<Longrightarrow> outs (nodes s2 r') = outs (nodes s r')" for r' unfolding p by simp
      show "set (outs (nodes s2 r)) \<subseteq> set (outs (nodes s r))" unfolding p nb_def by auto
      show "set (preferences s2) = (if outs (nodes s2 r) = [] then insert n (set (preferences s))
                                   else set (preferences s))"
        unfolding p by (simp del: Set_Remove_eq_Nil)
    qed
    then show ?thesis unfolding step by (rule Cons.IH)
  qed
qed

lemma removeConflict_fields [simp]:
  "txs (removeConflict c ns s) = txs s"
  "nextRef (removeConflict c ns s) = nextRef s"
  "status (removeConflict c ns s) = status s"
  "errs (removeConflict c ns s) = errs s"
  "utxos (removeConflict c ns s) = utxos s"
  "pendingAccepts (removeConflict c ns s) = pendingAccepts s"
  "pendingRejects (removeConflict c ns s) = pendingRejects s"
  "accepters (removeConflict c ns s) = accepters s"
  "rejectors (removeConflict c ns s) = rejectors s"
  "dispatched (removeConflict c ns s) = dispatched s"
  "metricsLog (removeConflict c ns s) = metricsLog s"
  "virtuous (removeConflict c ns s) = virtuous s"
  by (induction ns arbitrary: s; simp add: Let_def split: option.splits del: Set_Remove_eq_Nil)+

lemma Inv2_detach: "Inv2 s \<Longrightarrow> Inv2 (detach c r s)"
proof -
  assume i: "Inv2 s"
  define s2 where "s2 = s\<lparr>txs := (txs s)(c := None), preferences := Set_Remove c (preferences s)\<rparr>"
  define s4 where "s4 = removeConflict c (outs (nodes s r)) (removeConflict c (ins (nodes s r)) s2)"
  have d: "detach c r s = s4\<lparr>status := (status s4)(ID (tx (nodes s r)) := Rejected)\<rparr>"
    unfolding detach_def s4_def s2_def by (simp add: Let_def)
  have "Inv2 s2" by (rule Inv2_delete [OF i]) (simp_all add: s2_def)
  then have "Inv2 s4" unfolding s4_def by (intro Inv2_removeConflict)
  then show ?thesis unfolding d by (rule Inv2_same) simp_all
qed

lemma errs_Add_fields [simp]:
  "txs (errs_Add e s) = txs s" "nodes (errs_Add e s) = nodes s"
  "preferences (errs_Add e s) = preferences s" "nextRef (errs_Add e s) = nextRef s"
  "status (errs_Add e s) = status s" "utxos (errs_Add e s) = utxos s"
  "pendingAccepts (errs_Add e s) = pendingAccepts s"
  "pendingRejects (errs_Add e s) = pendingRejects s"
  "accepters (errs_Add e s) = accepters s" "rejectors (errs_Add e s) = rejectors s"
  "virtuous (errs_Add e s) = virtuous s"
  by (simp_all add: errs_Add_def)

lemma errs_Add_errs: "errs (errs_Add e s) = (if errs s = None then e else errs s)"
  by (simp add: errs_Add_def)

lemma abandonAccepters_fields [simp]:
  "txs (abandonAccepters c s) = txs s" "nodes (abandonAccepters c s) = nodes s"
  "preferences (abandonAccepters c s) = preferences s" "nextRef (abandonAccepters c s) = nextRef s"
  "status (abandonAccepters c s) = status s" "utxos (abandonAccepters c s) = utxos s"
  "errs (abandonAccepters c s) = errs s"
  "pendingRejects (abandonAccepters c s) = pendingRejects s"
  "rejectors (abandonAccepters c s) = rejectors s"
  "virtuous (abandonAccepters c s) = virtuous s"
  "pendingAccepts (abandonAccepters c s) = Blocker_delete (pendingAccepts s) c"
  "accepters (abandonAccepters c s) a =
     (if a \<in> set (blocking (pendingAccepts s) c) then (accepters s a)\<lparr>a_rejected := True\<rparr>
      else accepters s a)"
  by (simp_all add: abandonAccepters_def)

lemma announceReject_fields [simp]:
  "txs (announceReject c r s) = txs s" "nodes (announceReject c r s) = nodes s"
  "preferences (announceReject c r s) = preferences s" "nextRef (announceReject c r s) = nextRef s"
  "status (announceReject c r s) = status s" "utxos (announceReject c r s) = utxos s"
  "errs (announceReject c r s) = errs s"
  "rejectors (announceReject c r s) = rejectors s"
  "virtuous (announceReject c r s) = virtuous s"
  "pendingRejects (announceReject c r s) = Blocker_delete (pendingRejects s) c"
  "pendingAccepts (announceReject c r s) = Blocker_delete (pendingAccepts s) c"
  "accepters (announceReject c r s) a =
     (if a \<in> set (blocking (pendingAccepts s) c) then (accepters s a)\<lparr>a_rejected := True\<rparr>
      else accepters s a)"
  by (simp_all add: announceReject_def Let_def abandonAccepters_def)

lemma detach_fields [simp]:
  "txs (detach c r s) = (txs s)(c := None)"
  "nextRef (detach c r s) = nextRef s"
  "status (detach c r s) = (status s)(ID (tx (nodes s r)) := Rejected)"
  "errs (detach c r s) = errs s"
  "utxos (detach c r s) = utxos s"
  "pendingAccepts (detach c r s) = pendingAccepts s"
  "pendingRejects (detach c r s) = pendingRejects s"
  "accepters (detach c r s) = accepters s"
  "rejectors (detach c r s) = rejectors s"
  "virtuous (detach c r s) = virtuous s"
  by (simp_all add: detach_def Let_def)

lemma purge_fields [simp]:
  "txs (purge fnr s) = (txs s)(ID (tx (nodes s fnr)) := None)"
  "nodes (purge fnr s) = nodes s"
  "nextRef (purge fnr s) = nextRef s"
  "status (purge fnr s) = status s"
  "errs (purge fnr s) = errs s"
  "pendingAccepts (purge fnr s) = pendingAccepts s"
  "pendingRejects (purge fnr s) = pendingRejects s"
  "accepters (purge fnr s) = accepters s"
  "rejectors (purge fnr s) = rejectors s"
  "preferences (purge fnr s) = Set_Remove (ID (tx (nodes s fnr))) (preferences s)"
  "virtuous (purge fnr s) = Set_Remove (ID (tx (nodes s fnr))) (virtuous s)"
  "utxos (purge fnr s) u = (if u \<in> set (InputIDs (tx (nodes s fnr))) then None else utxos s u)"
  by (simp_all add: purge_def Let_def fold_delete_cases)

lemma announceAccept_fields [simp]:
  "txs (announceAccept fnr s) = txs s"
  "nodes (announceAccept fnr s) = (nodes s)(fnr := (nodes s fnr)\<lparr>accepted := True\<rparr>)"
  "nextRef (announceAccept fnr s) = nextRef s"
  "status (announceAccept fnr s) = status s"
  "errs (announceAccept fnr s) = errs s"
  "utxos (announceAccept fnr s) = utxos s"
  "preferences (announceAccept fnr s) = preferences s"
  "virtuous (announceAccept fnr s) = virtuous s"
  "pendingRejects (announceAccept fnr s) = pendingRejects s"
  "accepters (announceAccept fnr s) = accepters s"
  "rejectors (announceAccept fnr s) = rejectors s"
  "pendingAccepts (announceAccept fnr s) = Blocker_delete (pendingAccepts s) (ID (tx (nodes s fnr)))"
  by (simp_all add: announceAccept_def Let_def)

subsection \<open>The preferences invariant through the cascades\<close>

lemma Inv2_reject: "reject n cs s = Done (e, s') \<Longrightarrow> Inv2 s \<Longrightarrow> Inv2 s'"
  and Inv2_fulfillRejectors: "fulfillRejectors n bs s = Done s' \<Longrightarrow> Inv2 s \<Longrightarrow> Inv2 s'"
proof -
  have d: "Inv2 s \<longrightarrow> Inv2 (detach c r s)" for c r s using Inv2_detach by blast
  have a: "Inv2 (detach c r s) \<longrightarrow> Inv2 (announceReject c r (detach c r s))" for c r s
    by (rule impI, erule Inv2_same) simp_all
  have m: "Inv2 s \<longrightarrow> Inv2 (s\<lparr>rejectors := (rejectors s)(b := (rejectors s b)\<lparr>r_rejected := True\<rparr>)\<rparr>)"
    for b s by (rule impI, erule Inv2_same) simp_all
  have e: "Inv2 s \<longrightarrow> Inv2 (errs_Add e s)" for e s
    by (rule impI, erule Inv2_same) simp_all
  note rp = reject_preserves [where R = "\<lambda>s s'. Inv2 s \<longrightarrow> Inv2 s'", OF _ _ d a m e]
  show "reject n cs s = Done (e, s') \<Longrightarrow> Inv2 s \<Longrightarrow> Inv2 s'" using rp(1) by blast
  show "fulfillRejectors n bs s = Done s' \<Longrightarrow> Inv2 s \<Longrightarrow> Inv2 s'" using rp(2) by blast
qed

text \<open>Invariants that every single step of the cascades keeps.\<close>

lemma reject_preserves_inv:
  fixes I :: "Directed \<Rightarrow> bool"
  assumes d: "\<And>c r s. txs s c = Some r \<Longrightarrow> I s \<Longrightarrow> I (detach c r s)"
    and a: "\<And>c r s. I s \<Longrightarrow> I (announceReject c r s)"
    and m: "\<And>b s. I s \<Longrightarrow>
               I (s\<lparr>rejectors := (rejectors s)(b := (rejectors s b)\<lparr>r_rejected := True\<rparr>)\<rparr>)"
    and e: "\<And>e s. I s \<Longrightarrow> I (errs_Add e s)"
  shows "reject n cs s = Done (x, s') \<Longrightarrow> I s \<Longrightarrow> I s'"
    and "fulfillRejectors n bs s = Done s' \<Longrightarrow> I s \<Longrightarrow> I s'"
proof -
  have r: "\<forall>x s'. reject n cs s = Done (x, s') \<longrightarrow> (I s \<longrightarrow> I s')" for n cs s
    by (rule reject_preserves(1) [where R = "\<lambda>s s'. I s \<longrightarrow> I s'"]) (use d a m e in blast)+
  have f: "\<forall>s'. fulfillRejectors n bs s = Done s' \<longrightarrow> (I s \<longrightarrow> I s')" for n bs s
    by (rule reject_preserves(2) [where R = "\<lambda>s s'. I s \<longrightarrow> I s'"]) (use d a m e in blast)+
  show "reject n cs s = Done (x, s') \<Longrightarrow> I s \<Longrightarrow> I s'" using r by blast
  show "fulfillRejectors n bs s = Done s' \<Longrightarrow> I s \<Longrightarrow> I s'" using f by blast
qed

lemma Update_preserves_inv:
  fixes I :: "Directed \<Rightarrow> bool"
  assumes p: "\<And>fnr s. I s \<Longrightarrow> I (purge fnr s)"
    and r: "\<And>n cs s x s'. reject n cs s = Done (x, s') \<Longrightarrow> I s \<Longrightarrow> I s'"
    and e: "\<And>e s. I s \<Longrightarrow> I (errs_Add e s)"
    and st: "\<And>i s. I s \<Longrightarrow> I (s\<lparr>status := (status s)(i := Accepted)\<rparr>)"
    and an: "\<And>fnr s. I s \<Longrightarrow> I (announceAccept fnr s)"
    and dp: "\<And>a ds s. I s \<Longrightarrow>
                I (s\<lparr>accepters := (accepters s)(a := (accepters s a)\<lparr>a_deps := ds\<rparr>)\<rparr>)"
    and dl: "\<And>i s. I s \<Longrightarrow> I (s\<lparr>pendingRejects := Blocker_delete (pendingRejects s) i\<rparr>)"
  shows "Update n a s = Done s' \<Longrightarrow> I s \<Longrightarrow> I s'"
    and "fulfillAccepters n i as s = Done s' \<Longrightarrow> I s \<Longrightarrow> I s'"
proof -
  have one: "I s \<longrightarrow> I (errs_Add (Some e) s1)"
    if "reject k cs (purge fnr s) = Done (x, s1)" for s e s1 k cs fnr x
    using r [OF that] p e by blast
  have two: "I s \<longrightarrow> I s2"
    if "reject k cs (purge fnr s) = Done (x, s1)" "reject k' cs' s1 = Done (x', s2)"
    for s s1 s2 k cs fnr k' cs' x x'
    using r [OF that(1)] r [OF that(2)] p by blast
  have u: "Update n a s = Done s' \<Longrightarrow> I s \<longrightarrow> I s'" for n a s s'
  proof (erule Update_preserves(1) [where R = "\<lambda>s s'. I s \<longrightarrow> I s'", rotated -1], goal_cases)
    case (1 s) show ?case by simp
  next
    case (2 s s' s'') then show ?case by blast
  next
    case (3 a s e s1) then show ?case using one by blast
  next
    case (4 a s e s1 s2) then show ?case using two e by blast
  next
    case (5 a s s1 s2) then show ?case using two st an by blast
  next
    case (6 e s) show ?case using e by blast
  next
    case (7 a i s) show ?case using dp by blast
  next
    case (8 i s) show ?case using dl by blast
  qed
  have f: "fulfillAccepters n i as s = Done s' \<Longrightarrow> I s \<longrightarrow> I s'" for n i as s s'
  proof (erule Update_preserves(2) [where R = "\<lambda>s s'. I s \<longrightarrow> I s'", rotated -1], goal_cases)
    case (1 s) show ?case by simp
  next
    case (2 s s' s'') then show ?case by blast
  next
    case (3 a s e s1) then show ?case using one by blast
  next
    case (4 a s e s1 s2) then show ?case using two e by blast
  next
    case (5 a s s1 s2) then show ?case using two st an by blast
  next
    case (6 e s) show ?case using e by blast
  next
    case (7 a i s) show ?case using dp by blast
  next
    case (8 i s) show ?case using dl by blast
  qed
  show "Update n a s = Done s' \<Longrightarrow> I s \<Longrightarrow> I s'" using u by blast
  show "fulfillAccepters n i as s = Done s' \<Longrightarrow> I s \<Longrightarrow> I s'" using f by blast
qed

lemma Inv2_purge: "Inv2 s \<Longrightarrow> Inv2 (purge fnr s)"
  by (erule Inv2_delete) simp_all

lemma Inv2_Update: "Update n a s = Done s' \<Longrightarrow> Inv2 s \<Longrightarrow> Inv2 s'"
  and Inv2_fulfillAccepters: "fulfillAccepters n i as s = Done s' \<Longrightarrow> Inv2 s \<Longrightarrow> Inv2 s'"
proof -
  have p: "\<And>fnr s. Inv2 s \<Longrightarrow> Inv2 (purge fnr s)" by (rule Inv2_purge)
  have r: "\<And>n cs s x s'. reject n cs s = Done (x, s') \<Longrightarrow> Inv2 s \<Longrightarrow> Inv2 s'"
    by (rule Inv2_reject)
  have e: "\<And>e s. Inv2 s \<Longrightarrow> Inv2 (errs_Add e s)" by (erule Inv2_same) simp_all
  have st: "\<And>i s. Inv2 s \<Longrightarrow> Inv2 (s\<lparr>status := (status s)(i := Accepted)\<rparr>)"
    by (erule Inv2_same) simp_all
  have an: "\<And>fnr s. Inv2 s \<Longrightarrow> Inv2 (announceAccept fnr s)" by (erule Inv2_same) simp_all
  have dp: "\<And>a ds s. Inv2 s \<Longrightarrow>
                Inv2 (s\<lparr>accepters := (accepters s)(a := (accepters s a)\<lparr>a_deps := ds\<rparr>)\<rparr>)"
    by (erule Inv2_same) simp_all
  have dl: "\<And>i s. Inv2 s \<Longrightarrow> Inv2 (s\<lparr>pendingRejects := Blocker_delete (pendingRejects s) i\<rparr>)"
    by (erule Inv2_same) simp_all
  show "Update n a s = Done s' \<Longrightarrow> Inv2 s \<Longrightarrow> Inv2 s'"
    by (rule Update_preserves_inv(1) [where I = Inv2, OF p r e st an dp dl])
  show "fulfillAccepters n i as s = Done s' \<Longrightarrow> Inv2 s \<Longrightarrow> Inv2 s'"
    by (rule Update_preserves_inv(2) [where I = Inv2, OF p r e st an dp dl])
qed

subsection \<open>The preferences invariant through a poll\<close>

lemma deferAcceptance_cases:
  assumes "deferAcceptance fnr s = Done s'"
  shows "s' = registerAccepter fnr s \<or> errs s' \<noteq> None \<or> accepted (nodes s' fnr)"
proof -
  define s1 where "s1 = registerAccepter fnr s"
  have u: "Update (length (pendingAccepts s1)) (nextRef s) s1 = Done s'"
    using assms unfolding deferAcceptance_def s1_def Let_def .
  have fn: "a_fn (accepters s1 (nextRef s)) = fnr" unfolding s1_def by simp
  from u show ?thesis
  proof (cases rule: Update_Done_cases)
    case skip
    then show ?thesis unfolding s1_def by simp
  next
    case (fail_ins e s1)
    then show ?thesis by (simp add: errs_Add_errs)
  next
    case (fail_outs e s1 s2)
    then show ?thesis by (simp add: errs_Add_errs)
  next
    case (fail_accept e s1 s2)
    then show ?thesis by (simp add: errs_Add_errs)
  next
    case (ok s1a s2 s4)
    have "accepted (nodes s4 fnr)"
      using frame_fulfillAccepters [OF ok(7)] unfolding frame_def fn by simp
    then show ?thesis using ok(8) by simp
  qed
qed

lemma Inv2_registerAccepter: "Inv2 s \<Longrightarrow> Inv2 (registerAccepter fnr s)"
  by (erule Inv2_same) simp_all

lemma Inv2_recordVote: "Inv2 s \<Longrightarrow> Inv2 (recordVote fnr s)"
  by (erule Inv2_same) (simp_all add: recordVote_def Let_def)

lemma Inv2_deferAcceptance: "deferAcceptance fnr s = Done s' \<Longrightarrow> Inv2 s \<Longrightarrow> Inv2 s'"
  unfolding deferAcceptance_def Let_def
  by (erule Inv2_Update, rule Inv2_registerAccepter)

lemma Inv2_redirectEdge:
  assumes "Inv2 s" and "txs s (ID (tx (nodes s fnr))) = Some fnr"
    and "redirectEdge fnr c s = Done s'"
  shows "Inv2 s'"
proof -
  define w where "w = ID (tx (nodes s fnr))"
  obtain cr where cr: "txs s c = Some cr"
    using assms(3) unfolding redirectEdge_def by (auto split: option.splits)
  show ?thesis
  proof (cases "bias (nodes s cr) < bias (nodes s fnr)")
    case False
    then show ?thesis using assms(1,3) redirectEdge_kept [OF cr] by simp
  next
    case True
    define n1 where "n1 = (nodes s fnr)\<lparr>ins := Set_Add c (ins (nodes s fnr)),
                                        outs := Set_Remove c (outs (nodes s fnr))\<rparr>"
    have s': "s' = s\<lparr>nodes := (nodes s)(cr := invertedNode w (nodes s cr), fnr := n1),
         preferences := (if set (outs (nodes s fnr)) \<subseteq> {c}
            then Set_Add w (Set_Remove c (preferences s))
            else Set_Remove c (preferences s))\<rparr>"
      using assms(3) redirectEdge_inverted [OF cr True] unfolding n1_def w_def by simp
    have ne: "cr \<noteq> fnr" using True by auto
    have cw: "c \<noteq> w" using cr assms(2) ne unfolding w_def by auto
    have tw: "txs s w = Some fnr" using assms(2) unfolding w_def .
    have p: "txs s' = txs s" "nextRef s' = nextRef s"
      "nodes s' = (nodes s)(cr := invertedNode w (nodes s cr), fnr := n1)"
      "set (preferences s') = (set (preferences s) - {c}) \<union>
          (if set (outs (nodes s fnr)) \<subseteq> {c} then {w} else {})"
      unfolding s' by simp_all
    show ?thesis
    proof (rule Inv2I)
      fix i r assume "txs s' i = Some r"
      then have t: "txs s i = Some r" using p by simp
      have "tx (nodes s' r) = tx (nodes s r)"
        unfolding p n1_def invertedNode_def by simp
      then show "ID (tx (nodes s' r)) = i \<and> r < nextRef s'"
        using Inv2D(1,2) [OF assms(1) t] p by simp
      show "(i \<in> set (preferences s')) = (outs (nodes s' r) = [])"
      proof (cases "r = fnr")
        case True
        then have iw: "i = w" using Inv2_inj [OF assms(1) t] tw by simp
        have o: "outs (nodes s' fnr) = Set_Remove c (outs (nodes s fnr))"
          unfolding p n1_def by simp
        have "(w \<in> set (preferences s)) = (set (outs (nodes s fnr)) = {})"
          using Inv2D(4) [OF assms(1) tw] by simp
        then show ?thesis unfolding True iw o p(4) using cw by auto
      next
        case nf: False
        show ?thesis
        proof (cases "r = cr")
          case True
          then have ic: "i = c" using Inv2_inj [OF assms(1) t] cr by simp
          have "outs (nodes s' cr) \<noteq> []"
            unfolding p invertedNode_def using ne by simp
          then show ?thesis unfolding True ic p(4) using cw by auto
        next
          case False
          then have "i \<noteq> c" "i \<noteq> w" using t cr tw nf by auto
          moreover have "nodes s' r = nodes s r" unfolding p using False nf by simp
          ultimately show ?thesis using Inv2D(4) [OF assms(1) t] unfolding p(4) by auto
        qed
      qed
    next
      show "set (preferences s') \<subseteq> dom (txs s')"
        using Inv2D(3) [OF assms(1)] tw unfolding p by (auto split: if_splits)
    qed
  qed
qed

lemma Inv2_redirectLoop:
  assumes "redirectLoop fnr cs s = Done s'" and "Inv2 s"
    and "txs s (ID (tx (nodes s fnr))) = Some fnr"
  shows "Inv2 s'"
  using assms
proof (induction cs arbitrary: s)
  case Nil
  then show ?case by simp
next
  case (Cons c cs)
  then obtain s1 where 1: "redirectEdge fnr c s = Done s1" and 2: "redirectLoop fnr cs s1 = Done s'"
    by (auto split: result.splits)
  have i1: "Inv2 s1" using Inv2_redirectEdge [OF Cons.prems(2,3) 1] .
  have "txs s1 (ID (tx (nodes s1 fnr))) = Some fnr"
    using redirectEdge_votes [OF 1, of fnr] Cons.prems(3) by simp
  then show ?case using Cons.IH [OF 2 i1] by simp
qed

lemma Inv2_pollNode:
  assumes "pollNode fnr s = Done (stop, s')" and "Inv2 s" and "txs s w = Some fnr"
  shows "Inv2 s'"
proof -
  have w: "ID (tx (nodes s fnr)) = w" using Inv2D(1) [OF assms(2,3)] .
  have r: "Inv2 (recordVote fnr s)" using assms(2) by (rule Inv2_recordVote)
  have tr: "txs (recordVote fnr s) (ID (tx (nodes (recordVote fnr s) fnr))) = Some fnr"
    using assms(3) w by (simp add: recordVote_node)
  from assms(1) show ?thesis
  proof (cases rule: pollNode_cases)
    case (deferred s2)
    have i2: "Inv2 s2" using Inv2_deferAcceptance [OF deferred(2) r] .
    from deferred(3) show ?thesis
    proof (elim disjE conjE)
      assume a: "errs s2 = None" "\<not> accepted (nodes s2 fnr)" and re: "redirectEdges fnr s2 = Done s'"
      have "s2 = registerAccepter fnr (recordVote fnr s)"
        using deferAcceptance_cases [OF deferred(2)] a by blast
      then have "txs s2 (ID (tx (nodes s2 fnr))) = Some fnr"
        using assms(3) w by (simp add: recordVote_node)
      then show ?thesis using Inv2_redirectLoop [OF re [unfolded redirectEdges_def] i2] by simp
    qed (use i2 in simp_all)
  next
    case redirected
    from redirected(3) show ?thesis
    proof (elim disjE conjE)
      assume re: "redirectEdges fnr (recordVote fnr s) = Done s'"
      show ?thesis using Inv2_redirectLoop [OF re [unfolded redirectEdges_def] r tr] .
    qed (use r in simp)
  qed
qed

lemma Inv2_pollLoop:
  assumes "pollLoop ws s = Done (e, s')" and "Inv2 s"
  shows "Inv2 s'"
  using assms
proof (induction ws arbitrary: s)
  case Nil
  then show ?case by simp
next
  case (Cons w ws)
  show ?case
  proof (cases "txs s w")
    case None
    then show ?thesis using Cons by simp
  next
    case (Some fnr)
    then obtain stop s1 where p: "pollNode fnr s = Done (stop, s1)"
      and rest: "if stop then s' = s1 else pollLoop ws s1 = Done (e, s')"
      using Cons.prems(1) by (auto split: result.splits if_splits)
    have "Inv2 s1" using Inv2_pollNode [OF p Cons.prems(2) Some] .
    then show ?thesis using rest Cons.IH by (cases stop) auto
  qed
qed

lemma Inv2_RecordPoll:
  assumes "RecordPoll votes s = Done (e, s')" and "Inv2 s"
  shows "Inv2 s'"
proof -
  have "Inv2 (s\<lparr>currentVote := wrap (currentVote s + 1)\<rparr>)"
    using assms(2) by (rule Inv2_same) simp_all
  then show ?thesis
    using Inv2_pollLoop [OF assms(1) [unfolded RecordPoll_def Let_def]] by simp
qed

subsection \<open>The preferences invariant through Add and through runs\<close>

lemma markConflicts_nodes:
  "markConflicts i cs s = Done s' \<Longrightarrow>
     tx (nodes s' r) = tx (nodes s r) \<and> outs (nodes s' r) = outs (nodes s r)"
  by (induction cs arbitrary: s) (auto split: option.splits)

lemma addInputs_nodes:
  "addInputs i us os s = Done (os', s') \<Longrightarrow>
     tx (nodes s' r) = tx (nodes s r) \<and> outs (nodes s' r) = outs (nodes s r)"
proof (induction us arbitrary: os s)
  case Nil
  then show ?case by simp
next
  case (Cons u us)
  obtain s1 where m: "markConflicts i (case utxos s u of None \<Rightarrow> [] | Some sp \<Rightarrow> sp) s = Done s1"
    and a: "addInputs i us (Set_Union os (case utxos s u of None \<Rightarrow> [] | Some sp \<Rightarrow> sp))
              (s1\<lparr>utxos := (utxos s1)(u \<mapsto> Set_Add i (case utxos s u of None \<Rightarrow> [] | Some sp \<Rightarrow> sp))\<rparr>)
            = Done (os', s')"
    using Cons.prems by (auto simp: Let_def split: result.splits)
  show ?case using Cons.IH [OF a] markConflicts_nodes [OF m, of r] by simp
qed

lemma Inv2_addInputs:
  assumes "addInputs i us os s = Done (os', s')" and "Inv2 s"
  shows "Inv2 s'"
  using assms(2)
proof (rule Inv2_same)
  show "txs s' = txs s" "preferences s' = preferences s" "nextRef s \<le> nextRef s'"
    using addInputs_fields [OF assms(1)] by simp_all
  show "tx (nodes s' r) = tx (nodes s r) \<and> outs (nodes s' r) = outs (nodes s r)" for r
    using addInputs_nodes [OF assms(1)] .
qed

lemma insertNode_more_fields [simp]:
  "nextRef (insertNode t os s) = Suc (Suc (nextRef s))"
  "nodes (insertNode t os s) = (nodes s)(nextRef s := (newNode t)\<lparr>outs := os, rogue := os \<noteq> []\<rparr>)"
  "preferences (insertNode t os s) = (if os = [] then Set_Add (ID t) (preferences s) else preferences s)"
  "utxos (insertNode t os s) = utxos s"
  "pendingAccepts (insertNode t os s) = pendingAccepts s"
  "accepters (insertNode t os s) = accepters s"
  by (simp_all add: insertNode_def Let_def newNode_def)

lemma Inv2_insertNode:
  assumes "Inv2 s" and "txs s (ID t) = None"
  shows "Inv2 (insertNode t os s)"
proof (rule Inv2I)
  fix i r assume a: "txs (insertNode t os s) i = Some r"
  show "ID (tx (nodes (insertNode t os s) r)) = i \<and> r < nextRef (insertNode t os s)"
  proof (cases "i = ID t")
    case True
    then show ?thesis using a by (auto simp: newNode_def)
  next
    case False
    then have t: "txs s i = Some r" using a by simp
    then have "r < nextRef s" using Inv2D(2) [OF assms(1)] by blast
    then show ?thesis using Inv2D(1) [OF assms(1) t] by simp
  qed
  show "(i \<in> set (preferences (insertNode t os s))) = (outs (nodes (insertNode t os s) r) = [])"
  proof (cases "i = ID t")
    case True
    have "ID t \<notin> set (preferences s)" using Inv2D(3) [OF assms(1)] assms(2) by auto
    then show ?thesis using a True by (auto simp: newNode_def)
  next
    case False
    then have t: "txs s i = Some r" using a by simp
    then have "r < nextRef s" using Inv2D(2) [OF assms(1)] by blast
    then show ?thesis using Inv2D(4) [OF assms(1) t] False by simp
  qed
next
  show "set (preferences (insertNode t os s)) \<subseteq> dom (txs (insertNode t os s))"
    using Inv2D(3) [OF assms(1)] by auto
qed

lemma Inv2_Add:
  assumes "Add t s = Done (e, s')" and "Inv2 s"
  shows "Inv2 s'"
proof (cases "Issued t s")
  case True
  then show ?thesis using assms by (simp add: Add_def)
next
  case False
  then have nt: "txs s (ID t) = None" by (auto simp: Issued_def split: if_splits)
  define s1 where "s1 = s\<lparr>dispatched := dispatched s @ [Issue (ID t)]\<rparr>"
  have i1: "Inv2 s1" unfolding s1_def using assms(2) by (rule Inv2_same) simp_all
  show ?thesis
  proof (cases "InputIDs t = []")
    case True
    have "txs s' = txs s \<and> preferences s' = preferences s \<and> nextRef s' = nextRef s \<and>
          nodes s' = nodes s"
      using assms(1) False True by (auto simp: Add_def Let_def split: option.splits)
    then show ?thesis using Inv2_same [OF assms(2)] by simp
  next
    case ni: False
    obtain os s2 where a: "addInputs (ID t) (InputIDs t) [] s1 = Done (os, s2)"
      and s': "s' = insertNode t os s2"
      using assms(1) False ni unfolding Add_def s1_def [symmetric] Let_def
      by (auto split: result.splits)
    have "Inv2 s2" using Inv2_addInputs [OF a i1] .
    moreover have "txs s2 (ID t) = None"
      using addInputs_fields [OF a] nt unfolding s1_def by simp
    ultimately show ?thesis unfolding s' by (rule Inv2_insertNode)
  qed
qed

lemma Inv2_Initialize: "Inv2 (Initialize p)"
  by (rule Inv2I) (simp_all add: Initialize_def)

lemma Inv2_run: "run opns s = Done s' \<Longrightarrow> Inv2 s \<Longrightarrow> Inv2 s'"
proof (induction opns arbitrary: s)
  case Nil
  then show ?case by simp
next
  case (Cons opn opns)
  then obtain e s1 where p: "perform opn s = Done (e, s1)" and r: "run opns s1 = Done s'"
    by (auto split: result.splits)
  have "Inv2 s1"
    using p Cons.prems(2) Inv2_Add Inv2_RecordPoll unfolding perform_def
    by (cases opn) auto
  then show ?case using Cons.IH [OF r] by simp
qed

text \<open>
  C2. In every state a run of \<open>Add\<close> and \<open>RecordPoll\<close> operations from the initial
  state ends in, a transaction with a node in the conflict graph is in the preferences
  exactly when the \<open>outs\<close> of its node are empty.
\<close>

theorem preferences_invariant:
  assumes "run opns (Initialize p) = Done s" and "txs s i = Some r"
  shows "(i \<in> set (preferences s)) = (outs (nodes s r) = [])"
  using Inv2D(4) [OF Inv2_run [OF assms(1) Inv2_Initialize] assms(2)] .

theorem preferences_invariant_witness:
  "run [OpAdd (mkTx 1 [10] []), OpAdd (mkTx 2 [10] []), OpRecordPoll [(2, 2)]] (Initialize slow)
     = Done (after slow [OpAdd (mkTx 1 [10] []), OpAdd (mkTx 2 [10] []), OpRecordPoll [(2, 2)]]) \<and>
   txs (after slow [OpAdd (mkTx 1 [10] []), OpAdd (mkTx 2 [10] []), OpRecordPoll [(2, 2)]]) 1 = Some 0 \<and>
   txs (after slow [OpAdd (mkTx 1 [10] []), OpAdd (mkTx 2 [10] []), OpRecordPoll [(2, 2)]]) 2 = Some 2 \<and>
   outs (nodes (after slow [OpAdd (mkTx 1 [10] []), OpAdd (mkTx 2 [10] []), OpRecordPoll [(2, 2)]]) 0) = [2] \<and>
   outs (nodes (after slow [OpAdd (mkTx 1 [10] []), OpAdd (mkTx 2 [10] []), OpRecordPoll [(2, 2)]]) 2) = [] \<and>
   1 \<notin> set (preferences (after slow [OpAdd (mkTx 1 [10] []), OpAdd (mkTx 2 [10] []), OpRecordPoll [(2, 2)]])) \<and>
   2 \<in> set (preferences (after slow [OpAdd (mkTx 1 [10] []), OpAdd (mkTx 2 [10] []), OpRecordPoll [(2, 2)]]))"
proof -
  let ?s = "after slow [OpAdd (mkTx 1 [10] []), OpAdd (mkTx 2 [10] []), OpRecordPoll [(2, 2)]]"
  have d: "is_Done (run [OpAdd (mkTx 1 [10] []), OpAdd (mkTx 2 [10] []), OpRecordPoll [(2, 2)]]
             (Initialize slow))"
    by (simp add: eval_defs)
  then have r: "run [OpAdd (mkTx 1 [10] []), OpAdd (mkTx 2 [10] []), OpRecordPoll [(2, 2)]]
             (Initialize slow) = Done ?s"
    unfolding after_def by simp
  have t: "txs ?s 1 = Some 0" "txs ?s 2 = Some 2" by (simp_all add: eval_defs)
  have o: "outs (nodes ?s 0) = [2]" "outs (nodes ?s 2) = []" by (simp_all add: eval_defs)
  from preferences_invariant [OF r t(1)] preferences_invariant [OF r t(2)] r t o
  show ?thesis by simp
qed

subsection \<open>The depth bounds are sufficient\<close>

lemma reject_fuel:
  "length (pendingRejects s) \<le> n \<longrightarrow> reject n cs s \<noteq> OutOfFuel"
  "(bs \<noteq> [] \<longrightarrow> length (pendingRejects s) < n) \<longrightarrow> fulfillRejectors n bs s \<noteq> OutOfFuel"
proof (induction n cs s and n bs s rule: reject_fulfillRejectors.induct)
  case (1 n s)
  show ?case by simp
next
  case (2 n c cs s)
  show ?case
  proof (intro impI)
    assume le: "length (pendingRejects s) \<le> n"
    show "reject n (c # cs) s \<noteq> OutOfFuel"
    proof (cases "txs s c")
      case None
      then show ?thesis by simp
    next
      case (Some r)
      show ?thesis
      proof (cases "RejectV (tx (nodes s r))")
        case (Some e)
        then show ?thesis using \<open>txs s c = Some r\<close> by simp
      next
        case None
        let ?s1 = "detach c r s"
        let ?s2 = "announceReject c r ?s1"
        let ?bl = "blocking (pendingRejects ?s1) c"
        have len: "length (pendingRejects ?s2) + length ?bl = length (pendingRejects s)"
          using length_Blocker_delete_blocking [of "pendingRejects s" c] by simp
        moreover have "?bl \<noteq> [] \<longrightarrow> 0 < length ?bl" by simp
        ultimately have "?bl \<noteq> [] \<longrightarrow> length (pendingRejects ?s2) < n" using le by linarith
        then have f: "fulfillRejectors n ?bl ?s2 \<noteq> OutOfFuel"
          using "2.IH"(1) [OF Some None] by blast
        show ?thesis
        proof (cases "fulfillRejectors n ?bl ?s2")
          case Panic
          then show ?thesis using Some None by simp
        next
          case OutOfFuel
          then show ?thesis using f by simp
        next
          case (Done s3)
          have "frame ?s2 s3" using Done by (rule frame_fulfillRejectors)
          then have "length (pendingRejects s3) \<le> n"
            using len le unfolding frame_def by simp
          then have "reject n cs s3 \<noteq> OutOfFuel" using "2.IH"(2) [OF Some None Done] by blast
          then show ?thesis using Some None Done by simp
        qed
      qed
    qed
  qed
next
  case (3 n s)
  show ?case by simp
next
  case (4 b bs s)
  show ?case by simp
next
  case (5 n b bs s)
  show ?case
  proof (intro impI)
    assume "b # bs \<noteq> [] \<longrightarrow> length (pendingRejects s) < Suc n"
    then have le: "length (pendingRejects s) \<le> n" by simp
    show "fulfillRejectors (Suc n) (b # bs) s \<noteq> OutOfFuel"
    proof (cases "r_rejected (rejectors s b) \<or> errs s \<noteq> None")
      case True
      then show ?thesis using "5.IH"(1) le by simp
    next
      case False
      let ?s1 = "s\<lparr>rejectors := (rejectors s)(b := (rejectors s b)\<lparr>r_rejected := True\<rparr>)\<rparr>"
      let ?c = "ID (tx (nodes s (r_fn (rejectors s b))))"
      have r: "reject n [?c] ?s1 \<noteq> OutOfFuel" using "5.IH"(2) [OF False] le by simp
      show ?thesis
      proof (cases "reject n [?c] ?s1")
        case Panic
        then show ?thesis using False by simp
      next
        case OutOfFuel
        then show ?thesis using r by simp
      next
        case (Done p)
        obtain e s2 where p: "p = (e, s2)" by (cases p)
        have "frame ?s1 s2" using Done p frame_reject by blast
        then have "length (pendingRejects (errs_Add e s2)) \<le> n"
          using le unfolding frame_def by simp
        then have "fulfillRejectors (Suc n) bs (errs_Add e s2) \<noteq> OutOfFuel"
          using "5.IH"(3) [OF False Done [unfolded p] HOL.refl] by simp
        then show ?thesis using False Done p by simp
      qed
    qed
  qed
qed

lemma Update_fuel_step:
  assumes F: "\<And>i as s. (as \<noteq> [] \<longrightarrow> length (pendingAccepts s) < n) \<Longrightarrow>
                 fulfillAccepters n i as s \<noteq> OutOfFuel"
    and le: "length (pendingAccepts s) \<le> n"
  shows "Update n a s \<noteq> OutOfFuel"
proof (cases "a_rejected (accepters s a) \<or> a_deps (accepters s a) \<noteq> [] \<or> errs s \<noteq> None")
  case True
  then show ?thesis by (subst Update_unfold) simp
next
  case False
  define fnr where "fnr = a_fn (accepters s a)"
  define t where "t = tx (nodes s fnr)"
  let ?r1 = "reject (length (pendingRejects s)) (ins (nodes s fnr)) (purge fnr s)"
  have n1: "?r1 \<noteq> OutOfFuel" using reject_fuel(1) [of "purge fnr s"] by simp
  show ?thesis
  proof (cases ?r1)
    case Panic
    then show ?thesis using False unfolding fnr_def by (subst Update_unfold) simp
  next
    case OutOfFuel
    then show ?thesis using n1 by simp
  next
    case (Done p1)
    obtain x1 s1 where p1: "p1 = (x1, s1)" by (cases p1)
    note r1 = Done [unfolded p1]
    have f1: "frame s s1" using frame_trans [OF frame_purge frame_reject [OF r1]] .
    have fn1: "a_fn (accepters s1 a) = fnr" using f1 unfolding frame_def fnr_def by simp
    show ?thesis
    proof (cases x1)
      case (Some e)
      then show ?thesis using False r1 unfolding fnr_def by (subst Update_unfold) simp
    next
      case None
      let ?r2 = "reject (length (pendingRejects s1)) (outs (nodes s1 fnr)) s1"
      have n2: "?r2 \<noteq> OutOfFuel" using reject_fuel(1) [of s1] by simp
      show ?thesis
      proof (cases ?r2)
        case Panic
        then show ?thesis using False r1 None fn1 unfolding fnr_def by (subst Update_unfold) simp
      next
        case OutOfFuel
        then show ?thesis using n2 by simp
      next
        case d2: (Done p2)
        obtain x2 s2 where p2: "p2 = (x2, s2)" by (cases p2)
        note r2 = d2 [unfolded p2]
        have f2: "frame s s2" using frame_trans [OF f1 frame_reject [OF r2]] .
        have fn2: "a_fn (accepters s2 a) = fnr" "tx (nodes s2 fnr) = t"
          using f2 unfolding frame_def fnr_def t_def by simp_all
        show ?thesis
        proof (cases x2)
          case (Some e)
          then show ?thesis using False r1 None r2 fn1 unfolding fnr_def
            by (subst Update_unfold) simp
        next
          case n2: None
          define s3 where "s3 = s2\<lparr>status := (status s2)(ID t := Accepted)\<rparr>"
          show ?thesis
          proof (cases "AcceptV t")
            case (Some e)
            then show ?thesis using False r1 None r2 n2 fn1 fn2 unfolding fnr_def t_def
              by (subst Update_unfold) (simp add: Let_def)
          next
            case av: None
            let ?bl = "blocking (pendingAccepts s3) (ID t)"
            let ?s4 = "announceAccept fnr s3"
            have "length (pendingAccepts ?s4) + length ?bl = length (pendingAccepts s2)"
              using length_Blocker_delete_blocking [of "pendingAccepts s2" "ID t"] fn2
              unfolding s3_def by simp
            moreover have "length (pendingAccepts s2) \<le> n" using f2 le unfolding frame_def by simp
            moreover have "?bl \<noteq> [] \<longrightarrow> 0 < length ?bl" by simp
            ultimately have "?bl \<noteq> [] \<longrightarrow> length (pendingAccepts ?s4) < n" by linarith
            then have "fulfillAccepters n (ID t) ?bl ?s4 \<noteq> OutOfFuel" by (rule F)
            then show ?thesis using False r1 None r2 n2 fn1 fn2 av
              unfolding fnr_def t_def s3_def
              by (subst Update_unfold) (simp add: Let_def split: result.splits)
          qed
        qed
      qed
    qed
  qed
qed

lemma fulfillAccepters_fuel_step:
  assumes U: "\<And>m a s. n = Suc m \<Longrightarrow> length (pendingAccepts s) \<le> m \<Longrightarrow> Update m a s \<noteq> OutOfFuel"
  shows "(as \<noteq> [] \<longrightarrow> length (pendingAccepts s) < n) \<Longrightarrow> fulfillAccepters n i as s \<noteq> OutOfFuel"
proof (induction as arbitrary: s)
  case Nil
  show ?case by simp
next
  case (Cons a as)
  then obtain m where m: "n = Suc m" by (cases n) auto
  let ?s1 = "s\<lparr>accepters := (accepters s)(a := (accepters s a)\<lparr>a_deps :=
                                 Set_Remove i (a_deps (accepters s a))\<rparr>)\<rparr>"
  have le: "length (pendingAccepts ?s1) \<le> m" using Cons.prems m by simp
  have u: "Update m a ?s1 \<noteq> OutOfFuel" using U [OF m le] .
  show ?case
  proof (cases "Update m a ?s1")
    case Panic
    then show ?thesis unfolding m by simp
  next
    case OutOfFuel
    then show ?thesis using u by simp
  next
    case (Done s2)
    have "frame ?s1 s2" using Done by (rule frame_Update)
    then have "length (pendingAccepts s2) < n" using le m unfolding frame_def by simp
    then have "fulfillAccepters n i as s2 \<noteq> OutOfFuel" using Cons.IH by simp
    then show ?thesis using Done unfolding m by simp
  qed
qed

lemma Update_fuel:
  "length (pendingAccepts s) \<le> n \<Longrightarrow> Update n a s \<noteq> OutOfFuel"
proof -
  have "(\<forall>a s. length (pendingAccepts s) \<le> n \<longrightarrow> Update n a s \<noteq> OutOfFuel) \<and>
        (\<forall>i as s. (as \<noteq> [] \<longrightarrow> length (pendingAccepts s) < n) \<longrightarrow>
            fulfillAccepters n i as s \<noteq> OutOfFuel)" for n
  proof (induction n)
    case 0
    have F: "(as \<noteq> [] \<longrightarrow> length (pendingAccepts s) < 0) \<Longrightarrow> fulfillAccepters 0 i as s \<noteq> OutOfFuel"
      for i as s by (rule fulfillAccepters_fuel_step) simp_all
    show ?case using F Update_fuel_step [of 0] by blast
  next
    case (Suc n)
    have F: "(as \<noteq> [] \<longrightarrow> length (pendingAccepts s) < Suc n) \<Longrightarrow>
              fulfillAccepters (Suc n) i as s \<noteq> OutOfFuel" for i as s
      by (rule fulfillAccepters_fuel_step) (use Suc in auto)
    show ?case using F Update_fuel_step [of "Suc n"] by blast
  qed
  then show "length (pendingAccepts s) \<le> n \<Longrightarrow> Update n a s \<noteq> OutOfFuel" by blast
qed

lemma deferAcceptance_fuel: "deferAcceptance fnr s \<noteq> OutOfFuel"
  unfolding deferAcceptance_def Let_def by (rule Update_fuel) simp

lemma redirectLoop_fuel: "redirectLoop fnr cs s \<noteq> OutOfFuel"
  by (induction cs arbitrary: s)
     (auto simp: redirectEdge_def Let_def split: result.splits option.splits if_splits)

lemma pollNode_fuel: "pollNode fnr s \<noteq> OutOfFuel"
  using deferAcceptance_fuel redirectLoop_fuel
  unfolding pollNode_def redirectEdges_def Let_def
  by (auto split: result.splits)

lemma pollLoop_fuel: "pollLoop ws s \<noteq> OutOfFuel"
  by (induction ws arbitrary: s) (auto simp: pollNode_fuel split: option.splits result.splits)

lemma markConflicts_fuel: "markConflicts i cs s \<noteq> OutOfFuel"
  by (induction cs arbitrary: s) (auto split: option.splits)

lemma addInputs_fuel: "addInputs i us os s \<noteq> OutOfFuel"
  by (induction us arbitrary: os s) (auto simp: Let_def markConflicts_fuel split: result.splits)

text \<open>
  The depth bounds that \<open>Update\<close> and \<open>deferAcceptance\<close> compute from the registries are
  always enough: no operation and no run ends for lack of depth.
\<close>

lemma perform_fuel: "perform opn s \<noteq> OutOfFuel"
  unfolding perform_def RecordPoll_def Add_def Let_def
  by (cases opn) (auto simp: pollLoop_fuel addInputs_fuel split: option.splits result.splits)

lemma run_fuel: "run opns s \<noteq> OutOfFuel"
  by (induction opns arbitrary: s) (auto simp: perform_fuel split: result.splits)

subsection \<open>Edge symmetry: the single steps\<close>

lemma Inv3I:
  assumes "Inv2 s"
    and "\<And>x y rx ry. txs s x = Some rx \<Longrightarrow> txs s y = Some ry \<Longrightarrow>
           (y \<in> set (outs (nodes s rx))) = (x \<in> set (ins (nodes s ry)))"
    and "\<And>x rx z. txs s x = Some rx \<Longrightarrow> z \<in> set (ins (nodes s rx)) \<union> set (outs (nodes s rx)) \<Longrightarrow>
           txs s z \<noteq> None \<or> Decided (status s z) \<or> z \<in> H"
  shows "Inv3 H s"
  using assms unfolding Inv3_def edgeSym_def closedD_def by blast

lemma Inv3D:
  assumes "Inv3 H s"
  shows "Inv2 s"
    and "txs s x = Some rx \<Longrightarrow> txs s y = Some ry \<Longrightarrow>
           (y \<in> set (outs (nodes s rx))) = (x \<in> set (ins (nodes s ry)))"
    and "txs s x = Some rx \<Longrightarrow> z \<in> set (ins (nodes s rx)) \<union> set (outs (nodes s rx)) \<Longrightarrow>
           txs s z \<noteq> None \<or> Decided (status s z) \<or> z \<in> H"
  using assms unfolding Inv3_def edgeSym_def closedD_def by blast+

text \<open>The invariant reads the tx map, the preferences, the decided statuses, and the
  \<open>tx\<close>, \<open>ins\<close> and \<open>outs\<close> of the nodes.\<close>

lemma Inv3_same:
  assumes "Inv3 H s" and "txs s' = txs s" and "preferences s' = preferences s"
    and "nextRef s \<le> nextRef s'"
    and "\<And>r. tx (nodes s' r) = tx (nodes s r) \<and> outs (nodes s' r) = outs (nodes s r) \<and>
              ins (nodes s' r) = ins (nodes s r)"
    and "\<And>z. Decided (status s z) \<Longrightarrow> Decided (status s' z)"
    and "H \<subseteq> H'"
  shows "Inv3 H' s'"
proof (rule Inv3I)
  show "Inv2 s'"
    by (rule Inv2_same [OF Inv3D(1) [OF assms(1)] assms(2,3,4)]) (simp add: assms(5))
next
  fix x y rx ry assume "txs s' x = Some rx" "txs s' y = Some ry"
  then show "(y \<in> set (outs (nodes s' rx))) = (x \<in> set (ins (nodes s' ry)))"
    using Inv3D(2) [OF assms(1), of x rx y ry] assms(2,5) by simp
next
  fix x rx z assume "txs s' x = Some rx" "z \<in> set (ins (nodes s' rx)) \<union> set (outs (nodes s' rx))"
  then have "txs s z \<noteq> None \<or> Decided (status s z) \<or> z \<in> H"
    using Inv3D(3) [OF assms(1), of x rx z] assms(2,5) by simp
  then show "txs s' z \<noteq> None \<or> Decided (status s' z) \<or> z \<in> H'"
    using assms(2,6,7) by auto
qed

lemma removeConflict_sets:
  "set (ins (nodes (removeConflict c ns s) r)) - {c} = set (ins (nodes s r)) - {c} \<and>
   set (outs (nodes (removeConflict c ns s) r)) - {c} = set (outs (nodes s r)) - {c} \<and>
   tx (nodes (removeConflict c ns s) r) = tx (nodes s r)"
proof (induction ns arbitrary: s)
  case Nil
  show ?case by simp
next
  case (Cons n ns)
  show ?case
  proof (cases "txs s n")
    case None
    then show ?thesis using Cons by simp
  next
    case (Some r')
    define nb where "nb = (nodes s r')\<lparr>ins := Set_Remove c (ins (nodes s r')),
                                        outs := Set_Remove c (outs (nodes s r'))\<rparr>"
    define s2 where "s2 = (if outs nb = []
        then s\<lparr>nodes := (nodes s)(r' := nb), preferences := Set_Add n (preferences s)\<rparr>
        else s\<lparr>nodes := (nodes s)(r' := nb)\<rparr>)"
    have step: "removeConflict c (n # ns) s = removeConflict c ns s2"
      using Some unfolding s2_def nb_def by (simp add: Let_def del: Set_Remove_eq_Nil)
    have p: "nodes s2 = (nodes s)(r' := nb)" unfolding s2_def by simp
    have "set (ins (nodes s2 r)) - {c} = set (ins (nodes s r)) - {c} \<and>
          set (outs (nodes s2 r)) - {c} = set (outs (nodes s r)) - {c} \<and>
          tx (nodes s2 r) = tx (nodes s r)"
      unfolding p nb_def by auto
    then show ?thesis unfolding step using Cons.IH [of s2] by simp
  qed
qed

lemma detach_sets:
  "set (ins (nodes (detach c r s) r')) - {c} = set (ins (nodes s r')) - {c} \<and>
   set (outs (nodes (detach c r s) r')) - {c} = set (outs (nodes s r')) - {c} \<and>
   tx (nodes (detach c r s) r') = tx (nodes s r')"
proof -
  define s2 where "s2 = s\<lparr>txs := (txs s)(c := None), preferences := Set_Remove c (preferences s)\<rparr>"
  define s3 where "s3 = removeConflict c (ins (nodes s r)) s2"
  define s4 where "s4 = removeConflict c (outs (nodes s r)) s3"
  have d: "detach c r s = s4\<lparr>status := (status s4)(ID (tx (nodes s r)) := Rejected)\<rparr>"
    unfolding detach_def s4_def s3_def s2_def by (simp add: Let_def)
  have "nodes s2 = nodes s" unfolding s2_def by simp
  then show ?thesis
    unfolding d using removeConflict_sets [of c "outs (nodes s r)" s3 r']
      removeConflict_sets [of c "ins (nodes s r)" s2 r']
    unfolding s4_def [symmetric] s3_def [symmetric] by simp
qed

lemma Inv3_detach:
  assumes "txs s c = Some r" and "Inv3 H s"
  shows "Inv3 H (detach c r s)"
proof (rule Inv3I)
  note i2 = Inv3D(1) [OF assms(2)]
  show "Inv2 (detach c r s)" using i2 by (rule Inv2_detach)
  have idc: "ID (tx (nodes s r)) = c" using Inv2D(1) [OF i2 assms(1)] .
  {
    fix x y rx ry assume a: "txs (detach c r s) x = Some rx" "txs (detach c r s) y = Some ry"
    then have t: "txs s x = Some rx" "txs s y = Some ry" "x \<noteq> c" "y \<noteq> c"
      by (auto split: if_splits)
    have "(y \<in> set (outs (nodes (detach c r s) rx))) = (y \<in> set (outs (nodes s rx)))"
      using detach_sets [of c r s rx] t(4) by blast
    moreover have "(x \<in> set (ins (nodes (detach c r s) ry))) = (x \<in> set (ins (nodes s ry)))"
      using detach_sets [of c r s ry] t(3) by blast
    ultimately show "(y \<in> set (outs (nodes (detach c r s) rx))) = (x \<in> set (ins (nodes (detach c r s) ry)))"
      using Inv3D(2) [OF assms(2) t(1,2)] by simp
  }
  {
    fix x rx z assume a: "txs (detach c r s) x = Some rx"
      and z: "z \<in> set (ins (nodes (detach c r s) rx)) \<union> set (outs (nodes (detach c r s) rx))"
    have t: "txs s x = Some rx" using a by (auto split: if_splits)
    show "txs (detach c r s) z \<noteq> None \<or> Decided (status (detach c r s) z) \<or> z \<in> H"
    proof (cases "z = c")
      case True
      then show ?thesis using idc by (simp add: Decided_def)
    next
      case False
      then have "z \<in> set (ins (nodes s rx)) \<union> set (outs (nodes s rx))"
        using z detach_sets [of c r s rx] by blast
      then have "txs s z \<noteq> None \<or> Decided (status s z) \<or> z \<in> H"
        using Inv3D(3) [OF assms(2) t] by blast
      then show ?thesis using False by (auto simp: Decided_def)
    qed
  }
qed

lemma Inv3_reject: "reject n cs s = Done (e, s') \<Longrightarrow> Inv3 H s \<Longrightarrow> Inv3 H s'"
  and Inv3_fulfillRejectors: "fulfillRejectors n bs s = Done s' \<Longrightarrow> Inv3 H s \<Longrightarrow> Inv3 H s'"
proof -
  have d: "\<And>c r s. txs s c = Some r \<Longrightarrow> Inv3 H s \<Longrightarrow> Inv3 H (detach c r s)"
    by (rule Inv3_detach)
  have a: "\<And>c r s. Inv3 H s \<Longrightarrow> Inv3 H (announceReject c r s)"
    by (erule Inv3_same) simp_all
  have m: "\<And>b s. Inv3 H s \<Longrightarrow>
               Inv3 H (s\<lparr>rejectors := (rejectors s)(b := (rejectors s b)\<lparr>r_rejected := True\<rparr>)\<rparr>)"
    by (erule Inv3_same) simp_all
  have e: "\<And>e s. Inv3 H s \<Longrightarrow> Inv3 H (errs_Add e s)"
    by (erule Inv3_same) simp_all
  show "reject n cs s = Done (e, s') \<Longrightarrow> Inv3 H s \<Longrightarrow> Inv3 H s'"
    by (rule reject_preserves_inv(1) [where I = "Inv3 H", OF d a m e])
  show "fulfillRejectors n bs s = Done s' \<Longrightarrow> Inv3 H s \<Longrightarrow> Inv3 H s'"
    by (rule reject_preserves_inv(2) [where I = "Inv3 H", OF d a m e])
qed

subsection \<open>Edge symmetry through the accepter\<close>

lemma Inv3_purge:
  assumes "Inv3 H s"
  shows "Inv3 (insert (ID (tx (nodes s fnr))) H) (purge fnr s)"
proof (rule Inv3I)
  show "Inv2 (purge fnr s)" using Inv3D(1) [OF assms] by (rule Inv2_purge)
next
  fix x y rx ry assume "txs (purge fnr s) x = Some rx" "txs (purge fnr s) y = Some ry"
  then have "txs s x = Some rx" "txs s y = Some ry" by (auto split: if_splits)
  then show "(y \<in> set (outs (nodes (purge fnr s) rx))) = (x \<in> set (ins (nodes (purge fnr s) ry)))"
    using Inv3D(2) [OF assms] by simp
next
  fix x rx z assume "txs (purge fnr s) x = Some rx"
    and z: "z \<in> set (ins (nodes (purge fnr s) rx)) \<union> set (outs (nodes (purge fnr s) rx))"
  then have "txs s x = Some rx" by (auto split: if_splits)
  then have "txs s z \<noteq> None \<or> Decided (status s z) \<or> z \<in> H"
    using Inv3D(3) [OF assms] z by simp
  then show "txs (purge fnr s) z \<noteq> None \<or> Decided (status (purge fnr s) z) \<or>
             z \<in> insert (ID (tx (nodes s fnr))) H"
    by auto
qed

lemma Inv3_accepted:
  assumes "Inv3 (insert x H) s"
  shows "Inv3 H (s\<lparr>status := (status s)(x := Accepted)\<rparr>)"
proof (rule Inv3I)
  show "Inv2 (s\<lparr>status := (status s)(x := Accepted)\<rparr>)"
    using Inv3D(1) [OF assms] by (rule Inv2_same) simp_all
next
  fix a b ra rb assume "txs (s\<lparr>status := (status s)(x := Accepted)\<rparr>) a = Some ra"
    "txs (s\<lparr>status := (status s)(x := Accepted)\<rparr>) b = Some rb"
  then show "(b \<in> set (outs (nodes (s\<lparr>status := (status s)(x := Accepted)\<rparr>) ra))) =
             (a \<in> set (ins (nodes (s\<lparr>status := (status s)(x := Accepted)\<rparr>) rb)))"
    using Inv3D(2) [OF assms] by simp
next
  fix a ra z assume "txs (s\<lparr>status := (status s)(x := Accepted)\<rparr>) a = Some ra"
    and "z \<in> set (ins (nodes (s\<lparr>status := (status s)(x := Accepted)\<rparr>) ra)) \<union>
             set (outs (nodes (s\<lparr>status := (status s)(x := Accepted)\<rparr>) ra))"
  then have "txs s z \<noteq> None \<or> Decided (status s z) \<or> z \<in> insert x H"
    using Inv3D(3) [OF assms, of a ra z] by simp
  then show "txs (s\<lparr>status := (status s)(x := Accepted)\<rparr>) z \<noteq> None \<or>
             Decided (status (s\<lparr>status := (status s)(x := Accepted)\<rparr>) z) \<or> z \<in> H"
    by (auto simp: Decided_def)
qed

text \<open>
  Through an accepter's update that stores no error, the invariant (with no id under
  work) is kept; and an error, once stored, stays.
\<close>

lemma Inv3_Update:
  "Update n a s = Done s' \<Longrightarrow>
     (errs s \<noteq> None \<longrightarrow> errs s' \<noteq> None) \<and> (Inv3 {} s \<and> errs s' = None \<longrightarrow> Inv3 {} s')"
proof (erule Update_preserves(1) [where
        R = "\<lambda>s s'. (errs s \<noteq> None \<longrightarrow> errs s' \<noteq> None) \<and> (Inv3 {} s \<and> errs s' = None \<longrightarrow> Inv3 {} s')",
        rotated -1], goal_cases)
  case (1 s) show ?case by simp
next
  case (2 s s' s'') then show ?case by blast
next
  case (3 a s e s1) then show ?case by (auto simp: errs_Add_errs)
next
  case (4 a s e s1 s2) then show ?case by (auto simp: errs_Add_errs)
next
  case (5 a s s1 s2)
  define fnr where "fnr = a_fn (accepters s a)"
  define x where "x = ID (tx (nodes s fnr))"
  have i2: "Inv3 {} s \<Longrightarrow> Inv3 {} (s2\<lparr>status := (status s2)(x := Accepted)\<rparr>)"
  proof -
    assume "Inv3 {} s"
    then have "Inv3 {x} (purge fnr s)" unfolding x_def by (rule Inv3_purge)
    then have "Inv3 {x} s1" using Inv3_reject 5(4) unfolding fnr_def by blast
    then have "Inv3 {x} s2" using Inv3_reject 5(5) by blast
    then show ?thesis by (rule Inv3_accepted)
  qed
  have i3: "Inv3 {} s \<Longrightarrow> Inv3 {} (announceAccept fnr (s2\<lparr>status := (status s2)(x := Accepted)\<rparr>))"
    by (rule Inv3_same [OF i2]) simp_all
  show ?case using i2 i3 5(3) unfolding fnr_def x_def by simp
next
  case (6 e s)
  have "Inv3 {} s \<Longrightarrow> Inv3 {} (errs_Add e s)" by (erule Inv3_same) simp_all
  then show ?case by (auto simp: errs_Add_errs)
next
  case (7 a i s)
  have "Inv3 {} s \<Longrightarrow> Inv3 {} (s\<lparr>accepters := (accepters s)(a := (accepters s a)\<lparr>a_deps :=
                                 Set_Remove i (a_deps (accepters s a))\<rparr>)\<rparr>)"
    by (erule Inv3_same) simp_all
  then show ?case by simp
next
  case (8 i s)
  have "Inv3 {} s \<Longrightarrow> Inv3 {} (s\<lparr>pendingRejects := Blocker_delete (pendingRejects s) i\<rparr>)"
    by (erule Inv3_same) simp_all
  then show ?case by simp
qed

subsection \<open>Edge symmetry through a poll\<close>

lemma Inv3_redirectEdge:
  assumes "Inv3 H s" and "txs s (ID (tx (nodes s fnr))) = Some fnr"
    and "redirectEdge fnr c s = Done s'"
  shows "Inv3 H s'"
proof -
  note i2 = Inv3D(1) [OF assms(1)]
  define w where "w = ID (tx (nodes s fnr))"
  obtain cr where cr: "txs s c = Some cr"
    using assms(3) unfolding redirectEdge_def by (auto split: option.splits)
  show ?thesis
  proof (cases "bias (nodes s cr) < bias (nodes s fnr)")
    case False
    then show ?thesis using assms(1,3) redirectEdge_kept [OF cr] by simp
  next
    case True
    define n1 where "n1 = (nodes s fnr)\<lparr>ins := Set_Add c (ins (nodes s fnr)),
                                        outs := Set_Remove c (outs (nodes s fnr))\<rparr>"
    have s': "s' = s\<lparr>nodes := (nodes s)(cr := invertedNode w (nodes s cr), fnr := n1),
         preferences := (if set (outs (nodes s fnr)) \<subseteq> {c}
            then Set_Add w (Set_Remove c (preferences s))
            else Set_Remove c (preferences s))\<rparr>"
      using assms(3) redirectEdge_inverted [OF cr True] unfolding n1_def w_def by simp
    have ne: "cr \<noteq> fnr" using True by auto
    have tw: "txs s w = Some fnr" using assms(2) unfolding w_def .
    have cw: "c \<noteq> w" using cr tw ne by auto
    have p: "txs s' = txs s" "status s' = status s"
      "nodes s' = (nodes s)(cr := invertedNode w (nodes s cr), fnr := n1)"
      unfolding s' by simp_all
    have O: "set (outs (nodes s' r)) =
        (if r = fnr then set (outs (nodes s fnr)) - {c}
         else if r = cr then insert w (set (outs (nodes s cr))) else set (outs (nodes s r)))" for r
      unfolding p n1_def invertedNode_def using ne by simp
    have I: "set (ins (nodes s' r)) =
        (if r = fnr then insert c (set (ins (nodes s fnr)))
         else if r = cr then set (ins (nodes s cr)) - {w} else set (ins (nodes s r)))" for r
      unfolding p n1_def invertedNode_def using ne by simp
    have inj: "txs s i = Some fnr \<Longrightarrow> i = w" "txs s i = Some cr \<Longrightarrow> i = c" for i
      using Inv2_inj [OF i2] tw cr by blast+
    show ?thesis
    proof (rule Inv3I)
      show "Inv2 s'" using Inv2_redirectEdge [OF i2 assms(2,3)] .
    next
      fix x y rx ry assume "txs s' x = Some rx" "txs s' y = Some ry"
      then have t: "txs s x = Some rx" "txs s y = Some ry" using p by simp_all
      note sy = Inv3D(2) [OF assms(1)]
      have xw: "rx = fnr \<Longrightarrow> x = w" "rx = cr \<Longrightarrow> x = c" using inj t by blast+
      have yw: "ry = fnr \<Longrightarrow> y = w" "ry = cr \<Longrightarrow> y = c" using inj t by blast+
      have xn: "rx \<noteq> fnr \<Longrightarrow> x \<noteq> w" "rx \<noteq> cr \<Longrightarrow> x \<noteq> c" using t tw cr by auto
      have yn: "ry \<noteq> fnr \<Longrightarrow> y \<noteq> w" "ry \<noteq> cr \<Longrightarrow> y \<noteq> c" using t tw cr by auto
      have base: "(y \<in> set (outs (nodes s rx))) = (x \<in> set (ins (nodes s ry)))"
        using sy [OF t] .
      show "(y \<in> set (outs (nodes s' rx))) = (x \<in> set (ins (nodes s' ry)))"
        unfolding O I using base xw yw xn yn cw ne by (cases "rx = fnr"; cases "rx = cr"; cases "ry = fnr"; cases "ry = cr") auto
    next
      fix x rx z assume "txs s' x = Some rx"
        and z: "z \<in> set (ins (nodes s' rx)) \<union> set (outs (nodes s' rx))"
      then have t: "txs s x = Some rx" using p by simp
      have "z = c \<or> z = w \<or> z \<in> set (ins (nodes s rx)) \<union> set (outs (nodes s rx))"
        using z unfolding O I by (auto split: if_splits)
      then have "txs s z \<noteq> None \<or> Decided (status s z) \<or> z \<in> H"
        using Inv3D(3) [OF assms(1) t] cr tw by auto
      then show "txs s' z \<noteq> None \<or> Decided (status s' z) \<or> z \<in> H" unfolding p .
    qed
  qed
qed

lemma Inv3_redirectLoop:
  assumes "redirectLoop fnr cs s = Done s'" and "Inv3 H s"
    and "txs s (ID (tx (nodes s fnr))) = Some fnr"
  shows "Inv3 H s'"
  using assms
proof (induction cs arbitrary: s)
  case Nil
  then show ?case by simp
next
  case (Cons c cs)
  then obtain s1 where 1: "redirectEdge fnr c s = Done s1" and 2: "redirectLoop fnr cs s1 = Done s'"
    by (auto split: result.splits)
  have i1: "Inv3 H s1" using Inv3_redirectEdge [OF Cons.prems(2,3) 1] .
  have "txs s1 (ID (tx (nodes s1 fnr))) = Some fnr"
    using redirectEdge_votes [OF 1, of fnr] Cons.prems(3) by simp
  then show ?case using Cons.IH [OF 2 i1] by simp
qed

lemma Inv3_registerAccepter: "Inv3 H s \<Longrightarrow> Inv3 H (registerAccepter fnr s)"
  by (erule Inv3_same) simp_all

lemma Inv3_recordVote: "Inv3 H s \<Longrightarrow> Inv3 H (recordVote fnr s)"
  by (erule Inv3_same) (simp_all add: recordVote_def Let_def)

lemma Inv3_pollNode:
  assumes "pollNode fnr s = Done (stop, s')" and "Inv3 {} s" and "txs s w = Some fnr"
    and "errs s' = None"
  shows "Inv3 {} s'"
proof -
  have w: "ID (tx (nodes s fnr)) = w" using Inv2D(1) [OF Inv3D(1) [OF assms(2)] assms(3)] .
  have r: "Inv3 {} (recordVote fnr s)" using assms(2) by (rule Inv3_recordVote)
  have tr: "txs (recordVote fnr s) (ID (tx (nodes (recordVote fnr s) fnr))) = Some fnr"
    using assms(3) w by (simp add: recordVote_node)
  from assms(1) show ?thesis
  proof (cases rule: pollNode_cases)
    case (deferred s2)
    have u: "Update (length (pendingAccepts (registerAccepter fnr (recordVote fnr s))))
               (nextRef (recordVote fnr s)) (registerAccepter fnr (recordVote fnr s)) = Done s2"
      using deferred(2) unfolding deferAcceptance_def Let_def .
    have i2: "errs s2 = None \<Longrightarrow> Inv3 {} s2"
      using Inv3_Update [OF u] Inv3_registerAccepter [OF r] by blast
    from deferred(3) show ?thesis
    proof (elim disjE conjE)
      assume a: "errs s2 = None" "\<not> accepted (nodes s2 fnr)" and re: "redirectEdges fnr s2 = Done s'"
      have "s2 = registerAccepter fnr (recordVote fnr s)"
        using deferAcceptance_cases [OF deferred(2)] a by blast
      then have "txs s2 (ID (tx (nodes s2 fnr))) = Some fnr"
        using assms(3) w by (simp add: recordVote_node)
      then show ?thesis
        using Inv3_redirectLoop [OF re [unfolded redirectEdges_def] i2 [OF a(1)]] by simp
    qed (use i2 assms(4) in simp_all)
  next
    case redirected
    from redirected(3) show ?thesis
    proof (elim disjE conjE)
      assume re: "redirectEdges fnr (recordVote fnr s) = Done s'"
      show ?thesis using Inv3_redirectLoop [OF re [unfolded redirectEdges_def] r tr] .
    qed (use r in simp)
  qed
qed

lemma Inv3_pollLoop:
  assumes "pollLoop ws s = Done (e, s')" and "Inv3 {} s" and "errs s' = None"
  shows "Inv3 {} s'"
  using assms
proof (induction ws arbitrary: s)
  case Nil
  then show ?case by simp
next
  case (Cons w ws)
  show ?case
  proof (cases "txs s w")
    case None
    then show ?thesis using Cons by simp
  next
    case (Some fnr)
    then obtain stop s1 where p: "pollNode fnr s = Done (stop, s1)"
      and rest: "if stop then s' = s1 else pollLoop ws s1 = Done (e, s')"
      using Cons.prems(1) by (auto split: result.splits if_splits)
    show ?thesis
    proof (cases stop)
      case True
      then show ?thesis using rest Inv3_pollNode [OF p Cons.prems(2) Some] Cons.prems(3) by simp
    next
      case False
      then have l: "pollLoop ws s1 = Done (e, s')" using rest by simp
      have "errs s1 = None" using pollLoop_keeps [OF l, of 0] Cons.prems(3) by auto
      then have "Inv3 {} s1" using Inv3_pollNode [OF p Cons.prems(2) Some] by simp
      then show ?thesis using Cons.IH [OF l _ Cons.prems(3)] by simp
    qed
  qed
qed

lemma Inv3_RecordPoll:
  assumes "RecordPoll votes s = Done (e, s')" and "Inv3 {} s" and "errs s' = None"
  shows "Inv3 {} s'"
proof -
  have "Inv3 {} (s\<lparr>currentVote := wrap (currentVote s + 1)\<rparr>)"
    using assms(2) by (rule Inv3_same) simp_all
  then show ?thesis
    using Inv3_pollLoop [OF assms(1) [unfolded RecordPoll_def Let_def] _ assms(3)] by simp
qed

subsection \<open>Edge symmetry through Add and through runs\<close>

lemma markConflicts_ins:
  "markConflicts i cs s = Done s' \<Longrightarrow>
     set cs \<subseteq> dom (txs s) \<and>
     (\<forall>r. set (ins (nodes s' r)) =
          set (ins (nodes s r)) \<union> (if \<exists>c \<in> set cs. txs s c = Some r then {i} else {}))"
proof (induction cs arbitrary: s)
  case Nil
  then show ?case by simp
next
  case (Cons c cs)
  then obtain rc where rc: "txs s c = Some rc" by (auto split: option.splits)
  define s1 where "s1 = s\<lparr>virtuous := Set_Remove c (virtuous s),
               virtuousVoting := Set_Remove c (virtuousVoting s),
               nodes := (nodes s)(rc := (nodes s rc)\<lparr>rogue := True,
                                      ins := Set_Add i (ins (nodes s rc))\<rparr>)\<rparr>"
  have m: "markConflicts i cs s1 = Done s'" using Cons.prems rc unfolding s1_def by simp
  have t: "txs s1 = txs s" unfolding s1_def by simp
  have n: "set (ins (nodes s1 r)) = set (ins (nodes s r)) \<union> (if r = rc then {i} else {})" for r
    unfolding s1_def by simp
  note ih = Cons.IH [OF m, unfolded t]
  show ?case
  proof (intro conjI allI)
    show "set (c # cs) \<subseteq> dom (txs s)" using ih rc by auto
    fix r
    have "set (ins (nodes s' r)) =
       set (ins (nodes s1 r)) \<union> (if \<exists>c \<in> set cs. txs s c = Some r then {i} else {})"
      using ih by blast
    then show "set (ins (nodes s' r)) =
       set (ins (nodes s r)) \<union> (if \<exists>c \<in> set (c # cs). txs s c = Some r then {i} else {})"
      unfolding n using rc by auto
  qed
qed

lemma addInputs_ins:
  "addInputs i us os s = Done (os', s') \<Longrightarrow>
     \<exists>C. set os' = set os \<union> C \<and> C \<subseteq> dom (txs s) \<and>
       (\<forall>r. set (ins (nodes s' r)) =
          set (ins (nodes s r)) \<union> (if \<exists>c \<in> C. txs s c = Some r then {i} else {}))"
proof (induction us arbitrary: os s)
  case Nil
  then have "set os' = set os \<union> {} \<and> {} \<subseteq> dom (txs s) \<and>
       (\<forall>r. set (ins (nodes s' r)) =
          set (ins (nodes s r)) \<union> (if \<exists>c \<in> {}. txs s c = Some r then {i} else {}))"
    by simp
  then show ?case by (rule exI)
next
  case (Cons u us)
  define sp where "sp = (case utxos s u of None \<Rightarrow> [] | Some sp \<Rightarrow> sp)"
  obtain s1 where m: "markConflicts i sp s = Done s1"
    and a: "addInputs i us (Set_Union os sp) (s1\<lparr>utxos := (utxos s1)(u \<mapsto> Set_Add i sp)\<rparr>)
            = Done (os', s')"
    using Cons.prems unfolding sp_def by (auto simp: Let_def split: result.splits)
  have t: "txs s1 = txs s" using markConflicts_fields [OF m] by simp
  note mi = markConflicts_ins [OF m]
  obtain C where C: "set os' = set (Set_Union os sp) \<union> C" "C \<subseteq> dom (txs s)"
    "\<And>r. set (ins (nodes s' r)) =
          set (ins (nodes s1 r)) \<union> (if \<exists>c \<in> C. txs s c = Some r then {i} else {})"
    using Cons.IH [OF a] t by auto
  have "set os' = set os \<union> (set sp \<union> C) \<and> set sp \<union> C \<subseteq> dom (txs s) \<and>
       (\<forall>r. set (ins (nodes s' r)) =
          set (ins (nodes s r)) \<union> (if \<exists>c \<in> set sp \<union> C. txs s c = Some r then {i} else {}))"
  proof (intro conjI allI)
    show "set os' = set os \<union> (set sp \<union> C)" using C(1) by auto
    show "set sp \<union> C \<subseteq> dom (txs s)" using C(2) mi by auto
    fix r
    have "set (ins (nodes s1 r)) =
       set (ins (nodes s r)) \<union> (if \<exists>c \<in> set sp. txs s c = Some r then {i} else {})"
      using mi by blast
    then show "set (ins (nodes s' r)) =
          set (ins (nodes s r)) \<union> (if \<exists>c \<in> set sp \<union> C. txs s c = Some r then {i} else {})"
      unfolding C(3) by auto
  qed
  then show ?case by (rule exI)
qed

lemma Inv3_Add_inputs:
  assumes a: "addInputs (ID t) us [] s = Done (os, s2)" and i: "Inv3 {} s"
    and nt: "txs s (ID t) = None" and nd: "\<not> Decided (status s (ID t))"
  shows "Inv3 {} (insertNode t os s2)"
proof -
  note i2 = Inv3D(1) [OF i]
  define s' where "s' = insertNode t os s2"
  define w where "w = ID t"
  note f = addInputs_fields [OF a]
  note n = addInputs_nodes [OF a]
  obtain C where C0: "set os = set [] \<union> C" and Cd: "C \<subseteq> dom (txs s)"
    and Ci: "\<And>r. set (ins (nodes s2 r)) =
          set (ins (nodes s r)) \<union> (if \<exists>c \<in> C. txs s c = Some r then {ID t} else {})"
    using addInputs_ins [OF a] by blast
  have C: "C = set os" using C0 by simp
  have od: "set os \<subseteq> dom (txs s)" using Cd C by simp
  have fresh: "txs s x = Some rx \<Longrightarrow> rx \<noteq> nextRef s" for x rx
    using Inv2D(2) [OF i2, of x rx] by auto
  have nw: "txs s x = Some rx \<Longrightarrow> w \<notin> set (ins (nodes s rx)) \<union> set (outs (nodes s rx))" for x rx
    using Inv3D(3) [OF i, of x rx w] nt nd unfolding w_def by auto
  have T: "txs s' = (txs s)(w \<mapsto> nextRef s)" unfolding s'_def w_def using f by simp
  have S: "status s' = status s" unfolding s'_def using f by simp
  have O: "set (outs (nodes s' r)) = (if r = nextRef s then set os else set (outs (nodes s r)))" for r
    unfolding s'_def using f n [of r] by simp
  have I: "set (ins (nodes s' r)) =
      (if r = nextRef s then {}
       else set (ins (nodes s r)) \<union> (if \<exists>c \<in> set os. txs s c = Some r then {w} else {}))" for r
    unfolding s'_def w_def using f Ci [of r] C by (simp add: newNode_def)
  have i2': "Inv2 s'"
    unfolding s'_def
  proof (rule Inv2_insertNode)
    show "Inv2 s2" using Inv2_addInputs [OF a i2] .
    show "txs s2 (ID t) = None" using f nt by simp
  qed
  have "Inv3 {} s'"
  proof (rule Inv3I [OF i2'])
    fix x y rx ry assume tx: "txs s' x = Some rx" and ty: "txs s' y = Some ry"
    show "(y \<in> set (outs (nodes s' rx))) = (x \<in> set (ins (nodes s' ry)))"
    proof (cases "x = w")
      case xw: True
      then have rx: "rx = nextRef s" using tx T by simp
      show ?thesis
      proof (cases "y = w")
        case True
        then have "ry = nextRef s" using ty T by simp
        moreover have "w \<notin> set os" using od nt unfolding w_def by auto
        ultimately show ?thesis using rx True by (simp add: O I)
      next
        case False
        then have y: "txs s y = Some ry" using ty T by simp
        have ne: "ry \<noteq> nextRef s" using fresh [OF y] .
        have "(y \<in> set os) = (\<exists>c \<in> set os. txs s c = Some ry)"
          using Inv2_inj [OF i2 _ y] y by blast
        moreover have "w \<notin> set (ins (nodes s ry))" using nw [OF y] by simp
        ultimately show ?thesis using rx xw ne by (simp add: O I)
      qed
    next
      case xn: False
      then have x: "txs s x = Some rx" using tx T by simp
      have nx: "rx \<noteq> nextRef s" using fresh [OF x] .
      show ?thesis
      proof (cases "y = w")
        case True
        then have "ry = nextRef s" using ty T by simp
        moreover have "w \<notin> set (outs (nodes s rx))" using nw [OF x] by simp
        ultimately show ?thesis using True nx by (simp add: O I)
      next
        case False
        then have y: "txs s y = Some ry" using ty T by simp
        have ne: "ry \<noteq> nextRef s" using fresh [OF y] .
        show ?thesis using Inv3D(2) [OF i x y] nx ne xn by (simp add: O I)
      qed
    qed
  next
    fix x rx z assume tx: "txs s' x = Some rx"
      and z: "z \<in> set (ins (nodes s' rx)) \<union> set (outs (nodes s' rx))"
    have "txs s z \<noteq> None \<or> Decided (status s z) \<or> z = w"
    proof (cases "x = w")
      case True
      then have "rx = nextRef s" using tx T by simp
      then have "z \<in> set os" using z by (simp add: O I)
      then show ?thesis using od by auto
    next
      case False
      then have x: "txs s x = Some rx" using tx T by simp
      have nx: "rx \<noteq> nextRef s" using fresh [OF x] .
      have "z = w \<or> z \<in> set (ins (nodes s rx)) \<union> set (outs (nodes s rx))"
        using z nx by (auto simp: O I split: if_splits)
      then show ?thesis using Inv3D(3) [OF i x, of z] by auto
    qed
    then show "txs s' z \<noteq> None \<or> Decided (status s' z) \<or> z \<in> {}"
      unfolding T S by auto
  qed
  then show ?thesis unfolding s'_def .
qed

lemma Inv3_Add:
  assumes "Add t s = Done (e, s')" and "Inv3 {} s"
  shows "Inv3 {} s'"
proof (cases "Issued t s")
  case True
  then show ?thesis using assms by (simp add: Add_def)
next
  case False
  then have nt: "txs s (ID t) = None" and nd: "\<not> Decided (status s (ID t))"
    by (auto simp: Issued_def split: if_splits)
  define s1 where "s1 = s\<lparr>dispatched := dispatched s @ [Issue (ID t)]\<rparr>"
  have i1: "Inv3 {} s1" unfolding s1_def using assms(2) by (rule Inv3_same) simp_all
  show ?thesis
  proof (cases "InputIDs t = []")
    case True
    have "txs s' = txs s \<and> preferences s' = preferences s \<and> nextRef s' = nextRef s \<and>
          nodes s' = nodes s \<and> status s' = (status s)(ID t := Accepted)"
      using assms(1) False True by (auto simp: Add_def Let_def split: option.splits)
    then show ?thesis using Inv3_same [OF assms(2), of s' "{}"] by (simp add: Decided_def)
  next
    case ni: False
    obtain os s2 where a: "addInputs (ID t) (InputIDs t) [] s1 = Done (os, s2)"
      and s': "s' = insertNode t os s2"
      using assms(1) False ni unfolding Add_def s1_def [symmetric] Let_def
      by (auto split: result.splits)
    show ?thesis unfolding s'
      using a i1
    proof (rule Inv3_Add_inputs)
      show "txs s1 (ID t) = None" "\<not> Decided (status s1 (ID t))"
        using nt nd unfolding s1_def by simp_all
    qed
  qed
qed

lemma Inv3_Initialize: "Inv3 {} (Initialize p)"
  by (rule Inv3I [OF Inv2_Initialize]) (simp_all add: Initialize_def)

lemma perform_errs:
  assumes "perform opn s = Done (e, s')" and "errs s \<noteq> None"
  shows "errs s' \<noteq> None"
proof (cases opn)
  case (OpAdd t)
  then have "Add t s = Done (e, s')" using assms(1) by (simp add: perform_def)
  then show ?thesis using Add_errs assms(2) by simp
next
  case (OpRecordPoll votes)
  then have "RecordPoll votes s = Done (e, s')" using assms(1) by (simp add: perform_def)
  then have "errs s \<noteq> None \<longrightarrow> errs s' = errs s" using RecordPoll_keeps by blast
  then show ?thesis using assms(2) by simp
qed

lemma run_errs: "run opns s = Done s' \<Longrightarrow> errs s' = None \<Longrightarrow> errs s = None"
proof (induction opns arbitrary: s)
  case Nil
  then show ?case by simp
next
  case (Cons opn opns)
  then obtain e s1 where p: "perform opn s = Done (e, s1)" and r: "run opns s1 = Done s'"
    by (auto split: result.splits)
  have "errs s1 = None" using Cons.IH [OF r Cons.prems(2)] .
  then show ?case using perform_errs [OF p] by blast
qed

lemma Inv3_run: "run opns s = Done s' \<Longrightarrow> errs s' = None \<Longrightarrow> Inv3 {} s \<Longrightarrow> Inv3 {} s'"
proof (induction opns arbitrary: s)
  case Nil
  then show ?case by simp
next
  case (Cons opn opns)
  then obtain e s1 where p: "perform opn s = Done (e, s1)" and r: "run opns s1 = Done s'"
    by (auto split: result.splits)
  have e1: "errs s1 = None" using run_errs [OF r Cons.prems(2)] .
  have "Inv3 {} s1"
  proof (cases opn)
    case (OpAdd t)
    then show ?thesis using p Cons.prems(3) Inv3_Add unfolding perform_def by auto
  next
    case (OpRecordPoll votes)
    then show ?thesis using p Cons.prems(3) e1 Inv3_RecordPoll unfolding perform_def by auto
  qed
  then show ?case using Cons.IH [OF r Cons.prems(2)] by simp
qed

text \<open>
  C3, as the code has it. In every state a run of \<open>Add\<close> and \<open>RecordPoll\<close> operations
  from the initial state ends in with an empty error accumulator (no \<open>Accept\<close> or \<open>Reject\<close>
  callback has failed inside a poll so far), for all transactions \<open>x\<close> and \<open>y\<close> that both
  have a node in the conflict graph, \<open>y\<close> is in the \<open>outs\<close> of \<open>x\<close> exactly when \<open>x\<close> is in
  the \<open>ins\<close> of \<open>y\<close>.
\<close>

theorem edge_symmetry:
  assumes "run opns (Initialize p) = Done s" and "errs s = None"
    and "txs s x = Some rx" and "txs s y = Some ry"
  shows "(y \<in> set (outs (nodes s rx))) = (x \<in> set (ins (nodes s ry)))"
  using Inv3D(2) [OF Inv3_run [OF assms(1,2) Inv3_Initialize] assms(3,4)] .

theorem edge_symmetry_witness:
  "run [OpAdd (mkTx 1 [10] []), OpAdd (mkTx 2 [10] []), OpRecordPoll [(1, 2)]] (Initialize slow)
     = Done (after slow [OpAdd (mkTx 1 [10] []), OpAdd (mkTx 2 [10] []), OpRecordPoll [(1, 2)]]) \<and>
   errs (after slow [OpAdd (mkTx 1 [10] []), OpAdd (mkTx 2 [10] []), OpRecordPoll [(1, 2)]]) = None \<and>
   txs (after slow [OpAdd (mkTx 1 [10] []), OpAdd (mkTx 2 [10] []), OpRecordPoll [(1, 2)]]) 2 = Some 2 \<and>
   txs (after slow [OpAdd (mkTx 1 [10] []), OpAdd (mkTx 2 [10] []), OpRecordPoll [(1, 2)]]) 1 = Some 0 \<and>
   outs (nodes (after slow [OpAdd (mkTx 1 [10] []), OpAdd (mkTx 2 [10] []), OpRecordPoll [(1, 2)]]) 2) = [1] \<and>
   2 \<in> set (ins (nodes (after slow [OpAdd (mkTx 1 [10] []), OpAdd (mkTx 2 [10] []), OpRecordPoll [(1, 2)]]) 0))"
proof -
  let ?s = "after slow [OpAdd (mkTx 1 [10] []), OpAdd (mkTx 2 [10] []), OpRecordPoll [(1, 2)]]"
  have d: "is_Done (run [OpAdd (mkTx 1 [10] []), OpAdd (mkTx 2 [10] []), OpRecordPoll [(1, 2)]]
             (Initialize slow))"
    by (simp add: eval_defs)
  then have r: "run [OpAdd (mkTx 1 [10] []), OpAdd (mkTx 2 [10] []), OpRecordPoll [(1, 2)]]
             (Initialize slow) = Done ?s"
    unfolding after_def by simp
  have e: "errs ?s = None" by (simp add: eval_defs)
  have t: "txs ?s 2 = Some 2" "txs ?s 1 = Some 0" by (simp_all add: eval_defs)
  have o: "outs (nodes ?s 2) = [1]" by (simp add: eval_defs)
  have "(1 \<in> set (outs (nodes ?s 2))) = (2 \<in> set (ins (nodes ?s 0)))"
    using edge_symmetry [OF r e t(1) t(2)] .
  then have m: "2 \<in> set (ins (nodes ?s 0))" unfolding o by simp
  show ?thesis by (intro conjI r e t o m)
qed

text \<open>
  C3 as stated fails once a callback has failed. The poll starts accepting transaction 1:
  its node is deleted and its input purged; the rejection of its conflict 2 fails, which
  ends the cascade before \<open>Accept\<close>, so transaction 1 is still undecided and conflict 3
  keeps its node with 1 in its \<open>outs\<close>. Adding transaction 1 again gives it a fresh node
  without edges.
\<close>

theorem edge_symmetry_counterexample:
  "is_Done (run halfAccepted (Initialize quick)) \<and>
   txs (after quick halfAccepted) 3 = Some 4 \<and>
   txs (after quick halfAccepted) 1 = Some 7 \<and>
   1 \<in> set (outs (nodes (after quick halfAccepted) 4)) \<and>
   3 \<notin> set (ins (nodes (after quick halfAccepted) 7))"
  by (simp add: halfAccepted_def stubborn_def eval_defs)

subsection \<open>The loop of a poll, winner by winner\<close>

lemma the_Done_pair: "is_Done x \<Longrightarrow> x = Done (fst (the_Done x), snd (the_Done x))"
  by (cases x) simp_all

lemma wrap_small: "- 9223372036854775808 \<le> i \<Longrightarrow> i < 9223372036854775808 \<Longrightarrow> wrap i = i"
  by (simp add: wrap_def)

lemma pollLoop_append:
  "pollLoop (pre @ post) s = Done (e, s') \<Longrightarrow> errs s' = None \<Longrightarrow>
   \<exists>s1. pollLoop pre s = Done (None, s1) \<and> pollLoop post s1 = Done (e, s')"
proof (induction pre arbitrary: s)
  case Nil
  have "errs s = None"
    using pollLoop_keeps [OF Nil(1) [simplified], of 0] Nil(2) by (cases "errs s") simp_all
  then show ?case using Nil by simp
next
  case (Cons w pre)
  show ?case
  proof (cases "txs s w")
    case None
    then have "pollLoop (pre @ post) s = Done (e, s')" using Cons.prems by simp
    from Cons.IH [OF this Cons.prems(2)] show ?thesis using None by simp
  next
    case (Some fnr)
    then obtain stop s1 where p: "pollNode fnr s = Done (stop, s1)"
      and rest: "if stop then e = errs s1 \<and> s' = s1 else pollLoop (pre @ post) s1 = Done (e, s')"
      using Cons.prems by (auto split: result.splits if_splits)
    have "\<not> stop" using pollNode_keeps [OF p] rest Cons.prems(2) by auto
    then have "pollLoop (pre @ post) s1 = Done (e, s')" using rest by simp
    from Cons.IH [OF this Cons.prems(2)] show ?thesis using Some p \<open>\<not> stop\<close> by simp
  qed
qed

lemma pollLoop_step:
  assumes "pollLoop (w # post) s = Done (e, s')" and "errs s' = None"
  shows "\<exists>s2. pollLoop post s2 = Done (e, s') \<and>
           (case txs s w of None \<Rightarrow> s2 = s | Some r \<Rightarrow> pollNode r s = Done (False, s2))"
proof (cases "txs s w")
  case None
  then show ?thesis using assms by simp
next
  case (Some fnr)
  then obtain stop s1 where p: "pollNode fnr s = Done (stop, s1)"
    and rest: "if stop then e = errs s1 \<and> s' = s1 else pollLoop post s1 = Done (e, s')"
    using assms(1) by (auto split: result.splits if_splits)
  have "\<not> stop" using pollNode_keeps [OF p] rest assms(2) by auto
  then show ?thesis using Some p rest by auto
qed

lemma pollNode_bias:
  assumes "pollNode fnr s = Done (stop, s')" and "r \<noteq> fnr"
  shows "bias (nodes s' r) = bias (nodes s r)"
  using assms(1)
proof (cases rule: pollNode_cases)
  case (deferred s2)
  have f: "frame (registerAccepter fnr (recordVote fnr s)) s2"
    using deferred(2) by (rule deferAcceptance_frame)
  have k2: "bias (nodes s2 r) = bias (nodes s r)"
    using f assms(2) unfolding frame_def by simp
  from deferred(3) show ?thesis
  proof (elim disjE conjE)
    assume "redirectEdges fnr s2 = Done s'" "errs s2 = None" "\<not> stop"
    then show ?thesis
      using k2 redirectLoop_votes [of fnr "outs (nodes s2 fnr)" s2 s']
      unfolding redirectEdges_def by simp
  qed (use k2 in simp_all)
next
  case redirected
  from redirected(3) show ?thesis
  proof (elim disjE conjE)
    assume "redirectEdges fnr (recordVote fnr s) = Done s'"
    then show ?thesis
      using assms(2)
        redirectLoop_votes [of fnr "outs (nodes (recordVote fnr s) fnr)" "recordVote fnr s" s']
      unfolding redirectEdges_def by simp
  qed (use assms(2) in simp)
qed

lemma pollLoop_bias:
  assumes "pollLoop ws s = Done (e, s')" and "\<forall>w \<in> set ws. txs s w \<noteq> Some r"
  shows "bias (nodes s' r) = bias (nodes s r)"
  using assms
proof (induction ws arbitrary: s)
  case Nil
  then show ?case by auto
next
  case (Cons w ws)
  show ?case
  proof (cases "txs s w")
    case None
    then have "pollLoop ws s = Done (e, s')" using Cons.prems by simp
    from Cons.IH [OF this] show ?thesis using Cons.prems(2) by simp
  next
    case (Some fnr)
    then obtain stop s1 where p: "pollNode fnr s = Done (stop, s1)"
      and rest: "if stop then e = errs s1 \<and> s' = s1 else pollLoop ws s1 = Done (e, s')"
      using Cons.prems by (auto split: result.splits if_splits)
    note k = pollNode_keeps [OF p]
    have ne: "r \<noteq> fnr" using Cons.prems(2) Some by auto
    note b = pollNode_bias [OF p ne]
    show ?thesis
    proof (cases stop)
      case True
      then show ?thesis using rest b by auto
    next
      case False
      then have l: "pollLoop ws s1 = Done (e, s')" using rest by simp
      have "\<forall>w \<in> set ws. txs s1 w \<noteq> Some r"
        using Cons.prems(2) k by (metis list.set_intros(2) option.distinct(1))
      from Cons.IH [OF l this] show ?thesis using b by simp
    qed
  qed
qed

lemma distinct_Bag_Threshold:
  "distinct (map fst votes) \<Longrightarrow> distinct (Bag_Threshold a votes)"
  by (simp add: Bag_Threshold_def distinct_map_filter)




subsection \<open>The vote counters along a run\<close>

lemma redirectEdge_confidence:
  assumes "redirectEdge fnr c s = Done s'"
  shows "confidence (nodes s' r) = confidence (nodes s r) \<or> confidence (nodes s' r) = 0"
  using assms unfolding redirectEdge_def
  by (auto simp: Let_def split: option.splits if_splits)

lemma redirectLoop_confidence:
  assumes "redirectLoop fnr cs s = Done s'"
  shows "confidence (nodes s' r) = confidence (nodes s r) \<or> confidence (nodes s' r) = 0"
  using assms
proof (induction cs arbitrary: s)
  case Nil
  then show ?case by simp
next
  case (Cons c cs)
  then obtain s1 where 1: "redirectEdge fnr c s = Done s1" and 2: "redirectLoop fnr cs s1 = Done s'"
    by (auto split: result.splits)
  show ?case using redirectEdge_confidence [OF 1, of r] Cons.IH [OF 2] by auto
qed

lemma pollNode_others:
  assumes "pollNode fnr s = Done (stop, s')"
  shows "tx (nodes s' r) = tx (nodes s r) \<and>
         (r \<noteq> fnr \<longrightarrow>
            confidence (nodes s' r) = confidence (nodes s r) \<or> confidence (nodes s' r) = 0)"
  using assms
proof (cases rule: pollNode_cases)
  case (deferred s2)
  have f: "frame (registerAccepter fnr (recordVote fnr s)) s2"
    using deferred(2) by (rule deferAcceptance_frame)
  have t0: "tx (nodes (recordVote fnr s) r) = tx (nodes s r)"
    by (cases "r = fnr") (simp_all add: recordVote_node)
  have k2: "tx (nodes s2 r) = tx (nodes s r) \<and>
            (r \<noteq> fnr \<longrightarrow> confidence (nodes s2 r) = confidence (nodes s r))"
    using f t0 unfolding frame_def by (auto split: if_splits)
  from deferred(3) show ?thesis
  proof (elim disjE conjE)
    assume "redirectEdges fnr s2 = Done s'" "errs s2 = None" "\<not> stop"
    then show ?thesis
      using k2 redirectLoop_votes [of fnr "outs (nodes s2 fnr)" s2 s' r]
        redirectLoop_confidence [of fnr "outs (nodes s2 fnr)" s2 s' r]
      unfolding redirectEdges_def by auto
  qed (use k2 in simp_all)
next
  case redirected
  have t0: "tx (nodes (recordVote fnr s) r) = tx (nodes s r)"
    by (cases "r = fnr") (simp_all add: recordVote_node)
  from redirected(3) show ?thesis
  proof (elim disjE conjE)
    assume "redirectEdges fnr (recordVote fnr s) = Done s'"
    then show ?thesis
      using t0
        redirectLoop_votes [of fnr "outs (nodes (recordVote fnr s) fnr)" "recordVote fnr s" s' r]
        redirectLoop_confidence [of fnr "outs (nodes (recordVote fnr s) fnr)" "recordVote fnr s" s' r]
      unfolding redirectEdges_def by auto
  next
    assume "s' = recordVote fnr s"
    then show ?thesis using t0 by simp
  qed
qed

lemma pollLoop_confidence:
  assumes "pollLoop ws s = Done (e, s')" and "\<forall>w \<in> set ws. txs s w \<noteq> Some r"
  shows "confidence (nodes s' r) = confidence (nodes s r) \<or> confidence (nodes s' r) = 0"
  using assms
proof (induction ws arbitrary: s)
  case Nil
  then show ?case by auto
next
  case (Cons w ws)
  show ?case
  proof (cases "txs s w")
    case None
    then have "pollLoop ws s = Done (e, s')" using Cons.prems by simp
    from Cons.IH [OF this] show ?thesis using Cons.prems(2) by simp
  next
    case (Some fnr)
    then obtain stop s1 where p: "pollNode fnr s = Done (stop, s1)"
      and rest: "if stop then e = errs s1 \<and> s' = s1 else pollLoop ws s1 = Done (e, s')"
      using Cons.prems by (auto split: result.splits if_splits)
    note k = pollNode_keeps [OF p]
    have ne: "r \<noteq> fnr" using Cons.prems(2) Some by auto
    have b: "confidence (nodes s1 r) = confidence (nodes s r) \<or> confidence (nodes s1 r) = 0"
      using pollNode_others [OF p, of r] ne by simp
    show ?thesis
    proof (cases stop)
      case True
      then show ?thesis using rest b by auto
    next
      case False
      then have l: "pollLoop ws s1 = Done (e, s')" using rest by simp
      have "\<forall>w \<in> set ws. txs s1 w \<noteq> Some r"
        using Cons.prems(2) k by (metis list.set_intros(2) option.distinct(1))
      from Cons.IH [OF l this] show ?thesis using b by auto
    qed
  qed
qed

lemma pollNode_lastVote:
  assumes "pollNode fnr s = Done (stop, s')"
  shows "lastVote (nodes s' r) = lastVote (nodes s r) \<or> lastVote (nodes s' r) = currentVote s"
proof (cases "r = fnr")
  case True
  then show ?thesis using pollNode_votes(2) [OF assms] by (simp add: recordVote_node)
next
  case False
  then show ?thesis using pollNode_keeps [OF assms] by simp
qed

lemma pollLoop_lastVote:
  assumes "pollLoop ws s = Done (e, s')"
  shows "lastVote (nodes s' r) = lastVote (nodes s r) \<or> lastVote (nodes s' r) = currentVote s"
  using assms
proof (induction ws arbitrary: s)
  case Nil
  then show ?case by auto
next
  case (Cons w ws)
  show ?case
  proof (cases "txs s w")
    case None
    then have "pollLoop ws s = Done (e, s')" using Cons.prems by simp
    from Cons.IH [OF this] show ?thesis .
  next
    case (Some fnr)
    then obtain stop s1 where p: "pollNode fnr s = Done (stop, s1)"
      and rest: "if stop then e = errs s1 \<and> s' = s1 else pollLoop ws s1 = Done (e, s')"
      using Cons.prems by (auto split: result.splits if_splits)
    note k = pollNode_keeps [OF p]
    note b = pollNode_lastVote [OF p, of r]
    show ?thesis
    proof (cases stop)
      case True
      then show ?thesis using rest b by auto
    next
      case False
      then have l: "pollLoop ws s1 = Done (e, s')" using rest by simp
      from Cons.IH [OF l] show ?thesis using b k by auto
    qed
  qed
qed

lemma markConflicts_votes:
  "markConflicts i cs s = Done s' \<Longrightarrow>
     currentVote s' = currentVote s \<and> params s' = params s \<and>
     lastVote (nodes s' r) = lastVote (nodes s r)"
  by (induction cs arbitrary: s) (auto split: option.splits)

lemma addInputs_votes:
  "addInputs i us os s = Done (os', s') \<Longrightarrow>
     currentVote s' = currentVote s \<and> params s' = params s \<and>
     lastVote (nodes s' r) = lastVote (nodes s r)"
proof (induction us arbitrary: os s)
  case Nil
  then show ?case by simp
next
  case (Cons u us)
  obtain s1 where m: "markConflicts i (case utxos s u of None \<Rightarrow> [] | Some sp \<Rightarrow> sp) s = Done s1"
    and a: "addInputs i us (Set_Union os (case utxos s u of None \<Rightarrow> [] | Some sp \<Rightarrow> sp))
              (s1\<lparr>utxos := (utxos s1)(u \<mapsto> Set_Add i (case utxos s u of None \<Rightarrow> [] | Some sp \<Rightarrow> sp))\<rparr>)
            = Done (os', s')"
    using Cons.prems by (auto simp: Let_def split: result.splits)
  show ?case using Cons.IH [OF a] markConflicts_votes [OF m, of r] by simp
qed

lemma insertNode_votes [simp]:
  "currentVote (insertNode t os s) = currentVote s"
  "params (insertNode t os s) = params s"
  by (simp_all add: insertNode_def Let_def)

lemma Add_votes:
  assumes "Add t s = Done (e, s')"
  shows "currentVote s' = currentVote s \<and> params s' = params s \<and>
         (lastVote (nodes s' r) = lastVote (nodes s r) \<or> lastVote (nodes s' r) = 0) \<and>
         (txs s' i = Some r \<longrightarrow> txs s i = Some r \<or> lastVote (nodes s' r) = 0)"
proof (cases "Issued t s \<or> InputIDs t = []")
  case True
  then show ?thesis
    using assms by (auto simp: Add_def Let_def split: if_splits option.splits)
next
  case False
  then obtain os s2 where a: "addInputs (ID t) (InputIDs t) [] (s\<lparr>dispatched := dispatched s @ [Issue (ID t)]\<rparr>) = Done (os, s2)"
    and s': "s' = insertNode t os s2"
    using assms by (auto simp: Add_def Let_def split: if_splits result.splits)
  note v = addInputs_votes [OF a, of r]
  note f = addInputs_fields [OF a]
  show ?thesis
    unfolding s' using v f by (auto simp: newNode_def split: if_splits)
qed

lemma votesOK_Initialize: "votesOK (Initialize p)"
  by (simp add: votesOK_def Initialize_def newNode_def)

lemma votesOK_perform:
  assumes "perform opn s = Done (e, s')" and "votesOK s"
    and "currentVote s < 9223372036854775807"
  shows "votesOK s' \<and> currentVote s \<le> currentVote s' \<and> currentVote s' \<le> currentVote s + 1 \<and>
         params s' = params s"
proof (cases opn)
  case (OpAdd t)
  then have a: "Add t s = Done (e, s')" using assms(1) by (simp add: perform_def)
  have "votesOK s'"
    unfolding votesOK_def
  proof (intro conjI allI)
    show "0 \<le> currentVote s'"
      using Add_votes [OF a, of 0 "ID t"] assms(2) by (simp add: votesOK_def)
    fix r
    show "0 \<le> lastVote (nodes s' r)"
      using Add_votes [OF a, of r "ID t"] assms(2) unfolding votesOK_def by auto
    show "lastVote (nodes s' r) \<le> currentVote s'"
      using Add_votes [OF a, of r "ID t"] assms(2) unfolding votesOK_def by auto
  qed
  then show ?thesis using Add_votes [OF a, of 0 "ID t"] by simp
next
  case (OpRecordPoll votes)
  then have a: "RecordPoll votes s = Done (e, s')" using assms(1) by (simp add: perform_def)
  have c0: "0 \<le> currentVote s" using assms(2) by (simp add: votesOK_def)
  have w: "wrap (currentVote s + 1) = currentVote s + 1"
    using c0 assms(3) by (intro wrap_small) simp_all
  define s0 where "s0 = s\<lparr>currentVote := currentVote s + 1\<rparr>"
  have l: "pollLoop (Bag_Threshold (Alpha (params s)) votes) s0 = Done (e, s')"
    using a w unfolding RecordPoll_def Let_def s0_def by simp
  have cv: "currentVote s' = currentVote s + 1" using pollLoop_keeps [OF l] by (simp add: s0_def)
  have "votesOK s'"
    unfolding votesOK_def
  proof (intro conjI allI)
    show "0 \<le> currentVote s'" using cv c0 by simp
    fix r
    have "lastVote (nodes s' r) = lastVote (nodes s r) \<or> lastVote (nodes s' r) = currentVote s + 1"
      using pollLoop_lastVote [OF l, of r] by (simp add: s0_def)
    then show "0 \<le> lastVote (nodes s' r)" "lastVote (nodes s' r) \<le> currentVote s'"
      using assms(2) cv unfolding votesOK_def by (auto simp: add_increasing2 intro: order_trans)
  qed
  then show ?thesis using cv RecordPoll_keeps [OF a] by simp
qed

lemma votesOK_run:
  "run opns s = Done s' \<Longrightarrow> votesOK s \<Longrightarrow>
   currentVote s + int (length opns) \<le> 9223372036854775807 \<Longrightarrow>
   votesOK s' \<and> currentVote s \<le> currentVote s' \<and>
   currentVote s' \<le> currentVote s + int (length opns) \<and> params s' = params s"
proof (induction opns arbitrary: s)
  case Nil
  then show ?case by simp
next
  case (Cons opn opns)
  then obtain e s1 where p: "perform opn s = Done (e, s1)" and r: "run opns s1 = Done s'"
    by (auto split: result.splits)
  have "currentVote s < 9223372036854775807" using Cons.prems(3) by simp
  note v = votesOK_perform [OF p Cons.prems(2) this]
  have "currentVote s1 + int (length opns) \<le> 9223372036854775807"
    using v Cons.prems(3) by simp
  from Cons.IH [OF r v [THEN conjunct1] this] show ?case using v by simp
qed

lemma Inv2_perform: "perform opn s = Done (e, s') \<Longrightarrow> Inv2 s \<Longrightarrow> Inv2 s'"
  by (cases opn) (auto simp: perform_def intro: Inv2_Add Inv2_RecordPoll)

lemma quiet_perform:
  assumes "perform opn s = Done (e, s')" and "Inv2 s" and "unvoted (Alpha (params s)) x opn"
    and "0 \<le> c" and "\<forall>r. txs s x = Some r \<longrightarrow> lastVote (nodes s r) \<le> c"
  shows "\<forall>r. txs s' x = Some r \<longrightarrow> lastVote (nodes s' r) \<le> c"
proof (intro allI impI)
  fix r assume t: "txs s' x = Some r"
  show "lastVote (nodes s' r) \<le> c"
  proof (cases opn)
    case (OpAdd t)
    then have a: "Add t s = Done (e, s')" using assms(1) by (simp add: perform_def)
    show ?thesis using Add_votes [OF a, of r x] t assms(4,5) by auto
  next
    case (OpRecordPoll votes)
    then have a: "RecordPoll votes s = Done (e, s')" using assms(1) by (simp add: perform_def)
    have nx: "x \<notin> set (Bag_Threshold (Alpha (params s)) votes)"
      using assms(3) OpRecordPoll by (simp add: unvoted_def)
    note k = RecordPoll_keeps [OF a, of r]
    have ts: "txs s x = Some r" using k t by (metis option.distinct(1))
    have "\<forall>w \<in> set (Bag_Threshold (Alpha (params s)) votes). txs s w \<noteq> Some r"
      using Inv2_inj [OF assms(2) _ ts] nx by blast
    then have "lastVote (nodes s' r) = lastVote (nodes s r)" using k by simp
    then show ?thesis using assms(5) ts by simp
  qed
qed

lemma quiet_run:
  "run opns s = Done s' \<Longrightarrow> Inv2 s \<Longrightarrow> votesOK s \<Longrightarrow>
   currentVote s + int (length opns) \<le> 9223372036854775807 \<Longrightarrow>
   list_all (unvoted (Alpha (params s)) x) opns \<Longrightarrow> 0 \<le> c \<Longrightarrow>
   \<forall>r. txs s x = Some r \<longrightarrow> lastVote (nodes s r) \<le> c \<Longrightarrow>
   \<forall>r. txs s' x = Some r \<longrightarrow> lastVote (nodes s' r) \<le> c"
proof (induction opns arbitrary: s)
  case Nil
  then show ?case by simp
next
  case (Cons opn opns)
  then obtain e s1 where p: "perform opn s = Done (e, s1)" and r: "run opns s1 = Done s'"
    by (auto split: result.splits)
  have "currentVote s < 9223372036854775807" using Cons.prems(4) by simp
  note v = votesOK_perform [OF p Cons.prems(3) this]
  have b: "currentVote s1 + int (length opns) \<le> 9223372036854775807"
    using v Cons.prems(4) by simp
  have u: "unvoted (Alpha (params s)) x opn" "list_all (unvoted (Alpha (params s1)) x) opns"
    using Cons.prems(5) v by simp_all
  note q = quiet_perform [OF p Cons.prems(2) u(1) Cons.prems(6,7)]
  show ?case
    using Cons.IH [OF r Inv2_perform [OF p Cons.prems(2)] v [THEN conjunct1] b u(2) Cons.prems(6) q] .
qed




subsection \<open>The error accumulator across operations\<close>

lemma Add_result:
  assumes "Add t s = Done (e, s')"
  shows "e = (if Issued t s then None else if InputIDs t = [] then AcceptV t else errs s)"
  using assms
  by (auto simp: Add_def Let_def split: if_splits option.splits result.splits
      dest!: addInputs_fields)

lemma perform_keeps_errs:
  assumes "perform opn s = Done (e, s')" and "errs s \<noteq> None"
  shows "errs s' = errs s"
proof (cases opn)
  case (OpAdd t)
  then have "Add t s = Done (e, s')" using assms(1) by (simp add: perform_def)
  then show ?thesis by (rule Add_errs)
next
  case (OpRecordPoll votes)
  then have "RecordPoll votes s = Done (e, s')" using assms(1) by (simp add: perform_def)
  from RecordPoll_keeps [OF this, of 0] assms(2) show ?thesis by simp
qed

lemma run_keeps_errs: "run opns s = Done s' \<Longrightarrow> errs s \<noteq> None \<Longrightarrow> errs s' = errs s"
proof (induction opns arbitrary: s)
  case Nil
  then show ?case by simp
next
  case (Cons opn opns)
  then obtain e s1 where p: "perform opn s = Done (e, s1)" and r: "run opns s1 = Done s'"
    by (auto split: result.splits)
  note k = perform_keeps_errs [OF p Cons.prems(2)]
  have "errs s1 \<noteq> None" using k Cons.prems(2) by simp
  from Cons.IH [OF r this] show ?case using k by simp
qed

text \<open>
  C8, corrected. \<^verbatim>\<open>RecordPoll\<close> returns the accumulator as it is when the poll ends, and a
  poll leaves a stored error as it is. \<^verbatim>\<open>Add\<close> never changes the accumulator; it returns
  nil for a transaction that is issued, the outcome of \<^verbatim>\<open>Accept()\<close> for a transaction
  without inputs that is not issued, and the accumulator for every other transaction.
  No run of operations changes a stored error.
\<close>

theorem error_accumulator:
  "(RecordPoll votes s = Done (e, s') \<longrightarrow>
      e = errs s' \<and> (errs s \<noteq> None \<longrightarrow> errs s' = errs s)) \<and>
   (Add t s = Done (e, s') \<longrightarrow>
      errs s' = errs s \<and>
      e = (if Issued t s then None else if InputIDs t = [] then AcceptV t else errs s)) \<and>
   (run opns s = Done s' \<longrightarrow> errs s \<noteq> None \<longrightarrow> errs s' = errs s)"
proof -
  have 1: "RecordPoll votes s = Done (e, s') \<longrightarrow>
      e = errs s' \<and> (errs s \<noteq> None \<longrightarrow> errs s' = errs s)"
  proof
    assume "RecordPoll votes s = Done (e, s')"
    from RecordPoll_keeps [OF this, of 0]
    show "e = errs s' \<and> (errs s \<noteq> None \<longrightarrow> errs s' = errs s)" by simp
  qed
  have 2: "Add t s = Done (e, s') \<longrightarrow>
      errs s' = errs s \<and>
      e = (if Issued t s then None else if InputIDs t = [] then AcceptV t else errs s)"
  proof
    assume a: "Add t s = Done (e, s')"
    show "errs s' = errs s \<and>
      e = (if Issued t s then None else if InputIDs t = [] then AcceptV t else errs s)"
      using Add_errs [OF a] Add_result [OF a] by (rule conjI)
  qed
  have 3: "run opns s = Done s' \<longrightarrow> errs s \<noteq> None \<longrightarrow> errs s' = errs s"
    using run_keeps_errs [of opns s s'] by simp
  show ?thesis using 1 2 3 by (intro conjI)
qed

text \<open>
  An instance of C8: the poll in which the acceptance of transaction 1 fails returns the error,
  and so does the next poll; then \<^verbatim>\<open>Add\<close> returns the error for the new spender 3, nil for
  transaction 2, which is in the graph, and nil for transaction 8, which has no inputs.
\<close>

theorem error_accumulator_witness:
  "errs (after quick stalled) = None \<and>
   is_Done (RecordPoll [(1, 2)] (after quick stalled)) \<and>
   fst (the_Done (RecordPoll [(1, 2)] (after quick stalled))) = Some ''accept failed'' \<and>
   errs (after quick faulted) = Some ''accept failed'' \<and>
   is_Done (RecordPoll [(2, 2)] (after quick faulted)) \<and>
   fst (the_Done (RecordPoll [(2, 2)] (after quick faulted))) = Some ''accept failed'' \<and>
   \<not> Issued (mkTx 3 [12] []) (after quick faulted) \<and>
   is_Done (Add (mkTx 3 [12] []) (after quick faulted)) \<and>
   fst (the_Done (Add (mkTx 3 [12] []) (after quick faulted))) = Some ''accept failed'' \<and>
   Issued (mkTx 2 [11] []) (after quick faulted) \<and>
   is_Done (Add (mkTx 2 [11] []) (after quick faulted)) \<and>
   fst (the_Done (Add (mkTx 2 [11] []) (after quick faulted))) = None \<and>
   \<not> Issued (mkTx 8 [] []) (after quick faulted) \<and>
   is_Done (Add (mkTx 8 [] []) (after quick faulted)) \<and>
   fst (the_Done (Add (mkTx 8 [] []) (after quick faulted))) = None \<and>
   is_Done (run [OpAdd (mkTx 3 [12] []), OpRecordPoll [(3, 2)]] (after quick faulted)) \<and>
   errs (the_Done (run [OpAdd (mkTx 3 [12] []), OpRecordPoll [(3, 2)]] (after quick faulted)))
     = Some ''accept failed''"
proof -
  let ?s = "after quick stalled"
  let ?f = "after quick faulted"
  let ?p = "RecordPoll [(1, 2)] ?s"
  let ?q = "RecordPoll [(2, 2)] ?f"
  let ?a = "Add (mkTx 3 [12] []) ?f"
  let ?b = "Add (mkTx 2 [11] []) ?f"
  let ?c = "Add (mkTx 8 [] []) ?f"
  let ?r = "run [OpAdd (mkTx 3 [12] []), OpRecordPoll [(3, 2)]] ?f"
  have e0: "errs ?s = None" by (simp add: stalled_def failingSpender_def eval_defs)
  have ef: "errs ?f = Some ''accept failed''"
    by (simp add: faulted_def failingSpender_def eval_defs)
  have ne: "errs ?f \<noteq> None" unfolding ef by simp
  have dp: "is_Done ?p" by (simp add: stalled_def failingSpender_def eval_defs)
  have sp: "snd (the_Done ?p) = ?f"
    by (simp add: stalled_def faulted_def failingSpender_def eval_defs)
  have dq: "is_Done ?q" by (simp add: faulted_def failingSpender_def eval_defs)
  have da: "is_Done ?a" by (simp add: faulted_def failingSpender_def eval_defs)
  have db: "is_Done ?b" by (simp add: faulted_def failingSpender_def eval_defs)
  have dc: "is_Done ?c" by (simp add: faulted_def failingSpender_def eval_defs)
  have dr: "is_Done ?r" by (simp add: faulted_def failingSpender_def eval_defs)
  have ia: "\<not> Issued (mkTx 3 [12] []) ?f" "InputIDs (mkTx 3 [12] []) \<noteq> []"
    by (simp_all add: faulted_def failingSpender_def eval_defs)
  have ib: "Issued (mkTx 2 [11] []) ?f"
    by (simp add: faulted_def failingSpender_def eval_defs)
  have ic: "\<not> Issued (mkTx 8 [] []) ?f" "InputIDs (mkTx 8 [] []) = []"
    "AcceptV (mkTx 8 [] []) = None"
    by (simp_all add: faulted_def failingSpender_def eval_defs)
  have 1: "fst (the_Done ?p) = errs (snd (the_Done ?p))"
    using error_accumulator [of "[(1, 2)]" ?s "fst (the_Done ?p)" "snd (the_Done ?p)",
        THEN conjunct1, rule_format, OF the_Done_pair [OF dp]]
    by simp
  have 2: "fst (the_Done ?q) = errs (snd (the_Done ?q))" "errs (snd (the_Done ?q)) = errs ?f"
    using error_accumulator [of "[(2, 2)]" ?f "fst (the_Done ?q)" "snd (the_Done ?q)",
        THEN conjunct1, rule_format, OF the_Done_pair [OF dq]] ne
    by simp_all
  have 3: "fst (the_Done ?a) = errs ?f"
    using error_accumulator [of _ ?f "fst (the_Done ?a)" "snd (the_Done ?a)" "mkTx 3 [12] []",
        THEN conjunct2, THEN conjunct1, rule_format, OF the_Done_pair [OF da]] ia
    by simp
  have 4: "fst (the_Done ?b) = None"
    using error_accumulator [of _ ?f "fst (the_Done ?b)" "snd (the_Done ?b)" "mkTx 2 [11] []",
        THEN conjunct2, THEN conjunct1, rule_format, OF the_Done_pair [OF db]] ib
    by simp
  have 5: "fst (the_Done ?c) = None"
    using error_accumulator [of _ ?f "fst (the_Done ?c)" "snd (the_Done ?c)" "mkTx 8 [] []",
        THEN conjunct2, THEN conjunct1, rule_format, OF the_Done_pair [OF dc]] ic
    by simp
  have rr: "?r = Done (the_Done ?r)" using dr by (cases ?r) simp_all
  have 6: "errs (the_Done ?r) = errs ?f"
    using error_accumulator [of _ ?f _ "the_Done ?r" _
        "[OpAdd (mkTx 3 [12] []), OpRecordPoll [(3, 2)]]",
        THEN conjunct2, THEN conjunct2, rule_format, OF rr ne] .
  show ?thesis
    using e0 ef dp dq da db dc dr ia(1) ib ic(1) 1 2 3 4 5 6 unfolding sp by simp
qed

text \<open>
  C8 as stated fails: with the error stored, \<^verbatim>\<open>Add\<close> of transaction 2, which has
  a node and is being processed, returns nil.
\<close>

theorem error_accumulator_counterexample:
  "is_Done (run faulted (Initialize quick)) \<and>
   errs (after quick faulted) = Some ''accept failed'' \<and>
   txs (after quick faulted) 2 = Some 2 \<and>
   status (after quick faulted) 2 = Processing \<and>
   is_Done (Add (mkTx 2 [11] []) (after quick faulted)) \<and>
   fst (the_Done (Add (mkTx 2 [11] []) (after quick faulted))) = None"
  by (simp add: faulted_def failingSpender_def eval_defs)

subsection \<open>Safety under conflict: what a reject cascade changes\<close>

lemma rejStepD:
  assumes "rejStep s s'"
  shows "txs s' i = None \<or> txs s' i = txs s i"
    and "status s' i = status s i \<or> txs s i \<noteq> None \<and> txs s' i = None \<and> status s' i = Rejected"
    and "txs s i \<noteq> None \<Longrightarrow> txs s' i = None \<Longrightarrow> status s' i = Rejected"
    and "w \<in> nbrs s r \<Longrightarrow> w \<in> nbrs s' r \<or> txs s w \<noteq> None \<and> txs s' w = None"
    and "nbrs s' r \<subseteq> nbrs s r"
    and "(\<And>i. txs s i \<noteq> Some r) \<Longrightarrow>
          ins (nodes s' r) = ins (nodes s r) \<and> outs (nodes s' r) = outs (nodes s r)"
    and "utxos s' = utxos s" and "nextRef s' = nextRef s"
    and "tx (nodes s' r) = tx (nodes s r)"
    and "pendingAccept (nodes s' r) = pendingAccept (nodes s r)"
    and "a_deps (accepters s' a) = a_deps (accepters s a)"
    and "a_fn (accepters s' a) = a_fn (accepters s a)"
    and "a_rejected (accepters s a) \<Longrightarrow> a_rejected (accepters s' a)"
    and "r_fn (rejectors s' b) = r_fn (rejectors s b)"
    and "r_rejected (rejectors s b) \<Longrightarrow> r_rejected (rejectors s' b)"
    and "set (pendingAccepts s') \<subseteq> set (pendingAccepts s)"
    and "set (pendingRejects s') \<subseteq> set (pendingRejects s)"
    and "distinct (pendingAccepts s) \<Longrightarrow> distinct (pendingAccepts s')"
  using assms unfolding rejStep_def by blast+

lemma rejStep_dead: "rejStep s s' \<Longrightarrow> txs s i = None \<Longrightarrow> txs s' i = None"
  using rejStepD(1) [of s s' i] by auto

lemma rejStep_decided: "rejStep s s' \<Longrightarrow> txs s i = None \<Longrightarrow> status s' i = status s i"
  using rejStepD(2) [of s s' i] by auto

lemma rejStep_refl: "rejStep s s"
  by (auto simp: rejStep_def)

lemma rejStep_trans:
  assumes a: "rejStep s s'" and b: "rejStep s' s''"
  shows "rejStep s s''"
  unfolding rejStep_def
proof (intro conjI allI impI)
  fix i
  show "txs s'' i = None \<or> txs s'' i = txs s i"
    using rejStepD(1) [OF a, of i] rejStepD(1) [OF b, of i] by auto
  show "status s'' i = status s i \<or> txs s i \<noteq> None \<and> txs s'' i = None \<and> status s'' i = Rejected"
    using rejStepD(1,2) [OF a, of i] rejStepD(1,2) [OF b, of i] by (cases "txs s i") force+
next
  fix i assume "txs s i \<noteq> None" "txs s'' i = None"
  then show "status s'' i = Rejected"
    using rejStepD(1,2,3) [OF a, of i] rejStepD(1,2,3) [OF b, of i] by auto
next
  fix r w assume "w \<in> nbrs s r"
  then show "w \<in> nbrs s'' r \<or> txs s w \<noteq> None \<and> txs s'' w = None"
    using rejStepD(4) [OF a, of w r] rejStepD(4) [OF b, of w r]
      rejStepD(1) [OF a, of w] rejStepD(1) [OF b, of w] by auto
next
  fix r
  show "nbrs s'' r \<subseteq> nbrs s r" using rejStepD(5) [OF a, of r] rejStepD(5) [OF b, of r] by auto
next
  fix r assume n: "\<forall>i. txs s i \<noteq> Some r"
  then have n': "\<And>i. txs s' i \<noteq> Some r" using rejStepD(1) [OF a] by (metis option.distinct(1))
  show "ins (nodes s'' r) = ins (nodes s r)" "outs (nodes s'' r) = outs (nodes s r)"
    using rejStepD(6) [OF a, of r] rejStepD(6) [OF b, of r] n n' by auto
next
  show "utxos s'' = utxos s" "nextRef s'' = nextRef s"
    using rejStepD(7,8) [OF a] rejStepD(7,8) [OF b] by auto
next
  fix r
  show "tx (nodes s'' r) = tx (nodes s r)" "pendingAccept (nodes s'' r) = pendingAccept (nodes s r)"
    using rejStepD(9,10) [OF a, of r] rejStepD(9,10) [OF b, of r] by auto
next
  fix x
  show "a_deps (accepters s'' x) = a_deps (accepters s x)"
    "a_fn (accepters s'' x) = a_fn (accepters s x)"
    using rejStepD(11,12) [OF a, of x] rejStepD(11,12) [OF b, of x] by auto
  show "a_rejected (accepters s'' x)" if "a_rejected (accepters s x)"
    using rejStepD(13) [OF a, of x] rejStepD(13) [OF b, of x] that by auto
  show "r_fn (rejectors s'' x) = r_fn (rejectors s x)"
    using rejStepD(14) [OF a, of x] rejStepD(14) [OF b, of x] by auto
  show "r_rejected (rejectors s'' x)" if "r_rejected (rejectors s x)"
    using rejStepD(15) [OF a, of x] rejStepD(15) [OF b, of x] that by auto
next
  show "set (pendingAccepts s'') \<subseteq> set (pendingAccepts s)"
    "set (pendingRejects s'') \<subseteq> set (pendingRejects s)"
    using rejStepD(16,17) [OF a] rejStepD(16,17) [OF b] by auto
  show "distinct (pendingAccepts s'')" if "distinct (pendingAccepts s)"
    using rejStepD(18) [OF a] rejStepD(18) [OF b] that by auto
qed

lemma removeConflict_frozen:
  "(\<And>i. txs s i \<noteq> Some r) \<Longrightarrow> nodes (removeConflict c ns s) r = nodes s r"
proof (induction ns arbitrary: s)
  case Nil
  then show ?case by simp
next
  case (Cons n ns)
  show ?case
  proof (cases "txs s n")
    case None
    then show ?thesis using Cons by simp
  next
    case (Some rn)
    then have ne: "rn \<noteq> r" using Cons.prems by auto
    show ?thesis using Some ne Cons.prems
      by (simp add: Let_def Cons.IH del: Set_Remove_eq_Nil)
  qed
qed

lemma detach_frozen:
  assumes "\<And>i. txs s i \<noteq> Some r'"
  shows "ins (nodes (detach c r s) r') = ins (nodes s r')"
    and "outs (nodes (detach c r s) r') = outs (nodes s r')"
proof -
  define s2 where "s2 = s\<lparr>txs := (txs s)(c := None), preferences := Set_Remove c (preferences s)\<rparr>"
  define s3 where "s3 = removeConflict c (ins (nodes s r)) s2"
  define s4 where "s4 = removeConflict c (outs (nodes s r)) s3"
  have d: "detach c r s = s4\<lparr>status := (status s4)(ID (tx (nodes s r)) := Rejected)\<rparr>"
    unfolding detach_def s4_def s3_def s2_def by (simp add: Let_def)
  have 2: "\<And>i. txs s2 i \<noteq> Some r'" using assms unfolding s2_def by simp
  then have 3: "\<And>i. txs s3 i \<noteq> Some r'" unfolding s3_def by simp
  have "nodes s4 r' = nodes s2 r'"
    unfolding s4_def s3_def using removeConflict_frozen [OF 3 [unfolded s3_def]]
      removeConflict_frozen [OF 2] by simp
  then show "ins (nodes (detach c r s) r') = ins (nodes s r')"
    "outs (nodes (detach c r s) r') = outs (nodes s r')"
    unfolding d s2_def by simp_all
qed

lemma nbrs_detach: "nbrs (detach c r s) r' - {c} = nbrs s r' - {c}"
  using detach_sets [of c r s r'] unfolding nbrs_def by blast

lemma nbrs_detach_sub: "nbrs (detach c r s) r' \<subseteq> nbrs s r'"
  using frame_detach [of s c r] unfolding nbrs_def frame_def by blast

lemma rejStep_detach:
  assumes "Inv2 s" and "txs s c = Some r"
  shows "rejStep s (detach c r s)"
proof -
  have id: "ID (tx (nodes s r)) = c" using Inv2D(1) [OF assms] .
  note f = frame_detach [of s c r, unfolded frame_def]
  show ?thesis
    unfolding rejStep_def
  proof (intro conjI allI impI)
    fix r' w assume "w \<in> nbrs s r'"
    then show "w \<in> nbrs (detach c r s) r' \<or> txs s w \<noteq> None \<and> txs (detach c r s) w = None"
      using nbrs_detach [of c r s r'] assms(2) by (cases "w = c") auto
  next
    fix r' show "nbrs (detach c r s) r' \<subseteq> nbrs s r'" by (rule nbrs_detach_sub)
  next
    fix r' assume "\<forall>i. txs s i \<noteq> Some r'"
    then show "ins (nodes (detach c r s) r') = ins (nodes s r')"
      "outs (nodes (detach c r s) r') = outs (nodes s r')"
      using detach_frozen [of s r' c r] by simp_all
  next
    fix r' show "tx (nodes (detach c r s) r') = tx (nodes s r')"
      "pendingAccept (nodes (detach c r s) r') = pendingAccept (nodes s r')"
      using f by simp_all
  qed (use id assms(2) in \<open>auto split: if_splits\<close>)
qed

lemma set_Blocker_delete [simp]: "set (Blocker_delete b k) = {p \<in> set b. fst p \<noteq> k}"
  by (auto simp: Blocker_delete_def)

lemma distinct_Blocker_delete [simp]: "distinct b \<Longrightarrow> distinct (Blocker_delete b k)"
  by (simp add: Blocker_delete_def)

lemma set_blocking [simp]: "set (blocking b k) = {a. (k, a) \<in> set b}"
  by (force simp: blocking_def)

lemma distinct_blocking: "distinct b \<Longrightarrow> distinct (blocking b k)"
  by (auto simp: blocking_def distinct_map inj_on_def)

lemma nbrs_same: "nodes s' = nodes s \<Longrightarrow> nbrs s' r = nbrs s r"
  by (simp add: nbrs_def)

lemma rejStep_announceReject: "rejStep s (announceReject c r s)"
  unfolding rejStep_def by (auto simp: nbrs_def)

lemma rejStep_mark:
  "rejStep s (s\<lparr>rejectors := (rejectors s)(b := (rejectors s b)\<lparr>r_rejected := True\<rparr>)\<rparr>)"
  unfolding rejStep_def by (auto simp: nbrs_def)

lemma rejStep_errs_Add: "rejStep s (errs_Add e s)"
  unfolding rejStep_def by (auto simp: nbrs_def)

lemma rejStep_reject: "reject n cs s = Done (e, s') \<Longrightarrow> Inv2 s \<Longrightarrow> rejStep s s'"
  and rejStep_fulfillRejectors: "fulfillRejectors n bs s = Done s' \<Longrightarrow> Inv2 s \<Longrightarrow> rejStep s s'"
proof -
  have refl: "Inv2 s \<longrightarrow> Inv2 s \<and> rejStep s s" for s by (simp add: rejStep_refl)
  have trans: "Inv2 s \<longrightarrow> Inv2 s' \<and> rejStep s s' \<Longrightarrow> Inv2 s' \<longrightarrow> Inv2 s'' \<and> rejStep s' s'' \<Longrightarrow>
      Inv2 s \<longrightarrow> Inv2 s'' \<and> rejStep s s''" for s s' s''
    using rejStep_trans by blast
  have d: "txs s c = Some r \<Longrightarrow> Inv2 s \<longrightarrow> Inv2 (detach c r s) \<and> rejStep s (detach c r s)" for c r s
    using Inv2_detach rejStep_detach by blast
  have a: "Inv2 (detach c r s) \<longrightarrow> Inv2 (announceReject c r (detach c r s)) \<and>
      rejStep (detach c r s) (announceReject c r (detach c r s))" for c r s
    using rejStep_announceReject Inv2_same [of "detach c r s" "announceReject c r (detach c r s)"]
    by simp
  have m: "Inv2 s \<longrightarrow> Inv2 (s\<lparr>rejectors := (rejectors s)(b := (rejectors s b)\<lparr>r_rejected := True\<rparr>)\<rparr>) \<and>
      rejStep s (s\<lparr>rejectors := (rejectors s)(b := (rejectors s b)\<lparr>r_rejected := True\<rparr>)\<rparr>)" for b s
    using rejStep_mark
      Inv2_same [of s "s\<lparr>rejectors := (rejectors s)(b := (rejectors s b)\<lparr>r_rejected := True\<rparr>)\<rparr>"]
    by simp
  have e: "Inv2 s \<longrightarrow> Inv2 (errs_Add e s) \<and> rejStep s (errs_Add e s)" for e s
    using rejStep_errs_Add Inv2_same [of s "errs_Add e s"] by simp
  have r: "\<forall>x s'. reject n cs s = Done (x, s') \<longrightarrow> (Inv2 s \<longrightarrow> Inv2 s' \<and> rejStep s s')" for n cs s
    by (rule reject_preserves(1) [where R = "\<lambda>s s'. Inv2 s \<longrightarrow> Inv2 s' \<and> rejStep s s'"])
       (rule refl | erule (1) trans | erule d | rule a | rule m | rule e)+
  have f: "\<forall>s'. fulfillRejectors n bs s = Done s' \<longrightarrow> (Inv2 s \<longrightarrow> Inv2 s' \<and> rejStep s s')" for n bs s
    by (rule reject_preserves(2) [where R = "\<lambda>s s'. Inv2 s \<longrightarrow> Inv2 s' \<and> rejStep s s'"])
       (rule refl | erule (1) trans | erule d | rule a | rule m | rule e)+
  show "reject n cs s = Done (e, s') \<Longrightarrow> Inv2 s \<Longrightarrow> rejStep s s'" using r by blast
  show "fulfillRejectors n bs s = Done s' \<Longrightarrow> Inv2 s \<Longrightarrow> rejStep s s'" using f by blast
qed

text \<open>A completed rejection finds every listed transaction in the graph and leaves it
  rejected and without a node.\<close>

lemma reject_all:
  assumes "reject n cs s = Done (None, s')" and "Inv2 s" and "c \<in> set cs"
  shows "txs s c \<noteq> None \<and> txs s' c = None \<and> status s' c = Rejected"
  using assms
proof (induction cs arbitrary: s)
  case Nil
  then show ?case by simp
next
  case (Cons c0 cs)
  obtain r where r: "txs s c0 = Some r" using Cons.prems(1) by (auto split: option.splits)
  have rv: "RejectV (tx (nodes s r)) = None"
    using Cons.prems(1) r by (auto split: option.splits)
  let ?s1 = "detach c0 r s"
  let ?s2 = "announceReject c0 r ?s1"
  obtain s3 where s3: "fulfillRejectors n (blocking (pendingRejects ?s1) c0) ?s2 = Done s3"
    and rest: "reject n cs s3 = Done (None, s')"
    using Cons.prems(1) r rv by (auto split: result.splits)
  have i1: "Inv2 ?s1" using Inv2_detach [OF Cons.prems(2)] .
  have i2: "Inv2 ?s2" using i1 by (rule Inv2_same) simp_all
  have i3: "Inv2 s3" using Inv2_fulfillRejectors [OF s3 i2] .
  have st: "rejStep ?s2 s'"
    using rejStep_trans [OF rejStep_fulfillRejectors [OF s3 i2] rejStep_reject [OF rest i3]] .
  have st0: "rejStep s s3"
    using rejStep_trans [OF rejStep_detach [OF Cons.prems(2) r]
      rejStep_trans [OF rejStep_announceReject rejStep_fulfillRejectors [OF s3 i2]]] .
  show ?case
  proof (cases "c = c0")
    case True
    have "txs ?s2 c0 = None" by simp
    moreover have "status ?s2 c0 = Rejected" using Inv2D(1) [OF Cons.prems(2) r] by simp
    ultimately show ?thesis
      using rejStep_dead [OF st] rejStep_decided [OF st, of c0] r True by simp
  next
    case False
    then have "c \<in> set cs" using Cons.prems(3) by simp
    from Cons.IH [OF rest i3 this] show ?thesis
      using rejStepD(1) [OF st0, of c] by auto
  qed
qed

subsection \<open>Safety under conflict: the invariant\<close>

lemma GI_D:
  assumes "GI H F X x rx y ry s"
  shows "Inv3 H s" "procOK s" "regOK F s" "accOK H F s" "rejOK H s" "waitOK F s"
    "utxoOK X s" "edgeOK s" "pairOK H x rx y ry s" "Inv2 s"
  using assms Inv3D(1) unfolding GI_def by blast+

lemma GI_I:
  assumes "Inv3 H s" "procOK s" "regOK F s" "accOK H F s" "rejOK H s" "waitOK F s"
    "utxoOK X s" "edgeOK s" "pairOK H x rx y ry s"
  shows "GI H F X x rx y ry s"
  using assms unfolding GI_def by blast

text \<open>Stability of the auxiliary notions along a reject cascade.\<close>

lemma gone_step: "rejStep s s' \<Longrightarrow> gone H s i \<Longrightarrow> gone H s' i"
  unfolding gone_def using rejStep_dead [of s s' i] rejStep_decided [of s s' i] by auto

lemma poisoned_step:
  assumes "rejStep s s'" and "poisoned H s r"
  shows "poisoned H s' r"
proof -
  obtain w where w: "w \<in> nbrs s r" "txs s w = None" "Decided (status s w) \<or> w \<in> H"
    using assms(2) unfolding poisoned_def by blast
  have "w \<in> nbrs s' r" using rejStepD(4) [OF assms(1) w(1)] w(2) by simp
  moreover have "txs s' w = None" using rejStep_dead [OF assms(1) w(2)] .
  moreover have "status s' w = status s w" using rejStep_decided [OF assms(1) w(2)] .
  ultimately show ?thesis using w(3) unfolding poisoned_def by auto
qed

lemma waiting_step: "rejStep s s' \<Longrightarrow> waiting F s' \<subseteq> waiting F s"
  unfolding waiting_def using rejStepD(16) [of s s'] by auto

lemma doomed_step:
  assumes "rejStep s s'" and "doomed H F s r"
  shows "doomed H F s' r"
  using assms(2) unfolding doomed_def
proof
  assume "poisoned H s r"
  then show "poisoned H s' r \<or> (\<forall>d a. (d, a) \<in> waiting F s' \<longrightarrow> fnA s' a = r \<longrightarrow> a_rejected (accepters s' a))"
    using poisoned_step [OF assms(1)] by blast
next
  assume a: "\<forall>d a. (d, a) \<in> waiting F s \<longrightarrow> fnA s a = r \<longrightarrow> a_rejected (accepters s a)"
  have "a_rejected (accepters s' a)" if "(d, a) \<in> waiting F s'" "fnA s' a = r" for d a
  proof -
    have "(d, a) \<in> waiting F s" using waiting_step [OF assms(1)] that(1) by blast
    moreover have "fnA s a = r" using rejStepD(12) [OF assms(1), of a] that(2) by simp
    ultimately show ?thesis using a rejStepD(13) [OF assms(1), of a] by blast
  qed
  then show "poisoned H s' r \<or> (\<forall>d a. (d, a) \<in> waiting F s' \<longrightarrow> fnA s' a = r \<longrightarrow> a_rejected (accepters s' a))"
    by blast
qed

lemma rlive_step:
  assumes "rejStep s s'" and "rlive H s r"
  shows "rlive H s' r"
proof -
  have id: "idOf s' r = idOf s r" using rejStepD(9) [OF assms(1), of r] by simp
  show ?thesis
    using assms(2) unfolding rlive_def id
  proof
    assume l: "txs s (idOf s r) = Some r"
    show "txs s' (idOf s r) = Some r \<or> gone H s' (idOf s r)"
    proof (cases "txs s' (idOf s r)")
      case None
      then have "status s' (idOf s r) = Rejected" using rejStepD(3) [OF assms(1), of "idOf s r"] l by simp
      then show ?thesis using None by (simp add: gone_def Decided_def)
    next
      case (Some r')
      then show ?thesis using rejStepD(1) [OF assms(1), of "idOf s r"] l by simp
    qed
  next
    assume "gone H s (idOf s r)"
    then show "txs s' (idOf s r) = Some r \<or> gone H s' (idOf s r)"
      using gone_step [OF assms(1)] by blast
  qed
qed

lemma procOK_step:
  assumes "rejStep s s'" and "procOK s"
  shows "procOK s'"
  unfolding procOK_def
proof (intro allI impI)
  fix i r assume l: "txs s' i = Some r"
  then have "txs s i = Some r" using rejStepD(1) [OF assms(1), of i] by simp
  then have "status s i = Processing" using assms(2) unfolding procOK_def by blast
  then show "status s' i = Processing" using rejStepD(2) [OF assms(1), of i] l by auto
qed

lemma accepted_step:
  assumes "rejStep s s'" and "procOK s" and "status s d = Accepted"
  shows "status s' d = Accepted"
proof -
  have "txs s d = None" using assms(2,3) unfolding procOK_def by (cases "txs s d") auto
  then show ?thesis using rejStep_decided [OF assms(1)] assms(3) by simp
qed

lemma regOK_step:
  assumes st: "rejStep s s'" and "procOK s" and r: "regOK F s"
  shows "regOK F s'"
  unfolding regOK_def
proof (intro conjI allI impI)
  show "distinct (pendingAccepts s')" using rejStepD(18) [OF st] r unfolding regOK_def by blast
next
  fix d a assume "(d, a) \<in> waiting F s'"
  then have w: "(d, a) \<in> waiting F s" using waiting_step [OF st] by blast
  then have "d \<in> set (a_deps (accepters s a)) \<and> a < nextRef s \<and> fnA s a < nextRef s \<and>
        pendingAccept (nodes s (fnA s a))" using r unfolding regOK_def by blast
  then show "d \<in> set (a_deps (accepters s' a))" "a < nextRef s'" "fnA s' a < nextRef s'"
    "pendingAccept (nodes s' (fnA s' a))"
    using rejStepD(8,11,12) [OF st] rejStepD(10) [OF st, of "fnA s a"] by simp_all
next
  fix d a assume f: "(d, a) \<in> F"
  then have "status s d = Accepted" and n: "\<forall>a'. (d, a') \<notin> set (pendingAccepts s)"
    using r unfolding regOK_def by blast+
  then show "status s' d = Accepted" using accepted_step [OF st assms(2)] by blast
  show "(d, a') \<notin> set (pendingAccepts s')" for a' using n rejStepD(16) [OF st] by blast
next
  fix d a d' a'
  assume "(d, a) \<in> waiting F s'" "(d', a') \<in> waiting F s'" "fnA s' a = fnA s' a'"
  then have "(d, a) \<in> waiting F s" "(d', a') \<in> waiting F s" "fnA s a = fnA s a'"
    using waiting_step [OF st] rejStepD(12) [OF st] by auto
  then show "a = a'" using r unfolding regOK_def by blast
qed

lemma utxoOK_step:
  assumes st: "rejStep s s'" and u: "utxoOK X s"
  shows "utxoOK X s'"
  unfolding utxoOK_def
proof (intro allI impI)
  fix x r u' assume l: "txs s' x = Some r" and x: "x \<notin> X"
    and i: "u' \<in> set (InputIDs (tx (nodes s' r)))"
  have "txs s x = Some r" using rejStepD(1) [OF st, of x] l by simp
  moreover have "u' \<in> set (InputIDs (tx (nodes s r)))" using i rejStepD(9) [OF st, of r] by simp
  ultimately have "\<exists>sp. utxos s u' = Some sp \<and> x \<in> set sp" using u x unfolding utxoOK_def by blast
  then show "\<exists>sp. utxos s' u' = Some sp \<and> x \<in> set sp" using rejStepD(7) [OF st] by simp
qed

lemma edgeOK_step:
  assumes st: "rejStep s s'" and e: "edgeOK s"
  shows "edgeOK s'"
  unfolding edgeOK_def
proof (intro allI impI)
  fix x y rx ry
  assume lx: "txs s' x = Some rx" and ly: "txs s' y = Some ry" and ne: "x \<noteq> y"
    and i: "set (InputIDs (tx (nodes s' rx))) \<inter> set (InputIDs (tx (nodes s' ry))) \<noteq> {}"
  have "txs s x = Some rx" "txs s y = Some ry"
    using rejStepD(1) [OF st, of x] rejStepD(1) [OF st, of y] lx ly by simp_all
  moreover have "set (InputIDs (tx (nodes s rx))) \<inter> set (InputIDs (tx (nodes s ry))) \<noteq> {}"
    using i rejStepD(9) [OF st] by simp
  ultimately have "y \<in> nbrs s rx" using e ne unfolding edgeOK_def by blast
  then show "y \<in> nbrs s' rx" using rejStepD(4) [OF st, of y rx] ly by auto
qed

lemma pairOK_step:
  assumes st: "rejStep s s'" and p: "pairOK H x rx y ry s"
  shows "pairOK H x rx y ry s'"
  unfolding pairOK_def
proof (intro impI)
  assume ne: "x \<noteq> y"
  then have a: "rx < nextRef s" "ry < nextRef s" "idOf s rx = x" "idOf s ry = y"
    "set (InputIDs (tx (nodes s rx))) \<inter> set (InputIDs (tx (nodes s ry))) \<noteq> {}"
    "rlive H s rx" "rlive H s ry"
    "status s x = Accepted \<longrightarrow> status s y = Rejected"
    "status s y = Accepted \<longrightarrow> status s x = Rejected"
    using p unfolding pairOK_def by blast+
  have sx: "status s' x = status s x \<or> status s' x = Rejected"
    and sy: "status s' y = status s y \<or> status s' y = Rejected"
    using rejStepD(2) [OF st, of x] rejStepD(2) [OF st, of y] by auto
  show "rx < nextRef s' \<and> ry < nextRef s' \<and> idOf s' rx = x \<and> idOf s' ry = y \<and>
        set (InputIDs (tx (nodes s' rx))) \<inter> set (InputIDs (tx (nodes s' ry))) \<noteq> {} \<and>
        rlive H s' rx \<and> rlive H s' ry \<and>
        (status s' x = Accepted \<longrightarrow> status s' y = Rejected) \<and>
        (status s' y = Accepted \<longrightarrow> status s' x = Rejected)"
  proof (intro conjI)
    show "rlive H s' rx" "rlive H s' ry" using rlive_step [OF st] a(6,7) by blast+
    show "status s' x = Accepted \<longrightarrow> status s' y = Rejected" using sx sy a(8) by auto
    show "status s' y = Accepted \<longrightarrow> status s' x = Rejected" using sx sy a(9) by auto
  qed (use a rejStepD(8) [OF st] rejStepD(9) [OF st] in simp_all)
qed

lemma accOK_step:
  assumes st: "rejStep s s'" and a: "accOK H F s"
    and die: "\<And>i r. txs s i = Some r \<Longrightarrow> txs s' i = None \<Longrightarrow> doomed H F s r"
  shows "accOK H F s'"
  unfolding accOK_def
proof (intro allI impI)
  fix d a' assume w': "(d, a') \<in> waiting F s'"
  then have w: "(d, a') \<in> waiting F s" using waiting_step [OF st] by blast
  have fn: "fnA s' a' = fnA s a'" using rejStepD(12) [OF st] by simp
  have id: "idOf s' (fnA s a') = idOf s (fnA s a')" using rejStepD(9) [OF st] by simp
  let ?fn = "fnA s a'"
  from a w have "txs s (idOf s ?fn) = Some ?fn \<or> a_rejected (accepters s a') \<or> poisoned H s ?fn"
    unfolding accOK_def by blast
  then have "txs s' (idOf s ?fn) = Some ?fn \<or> a_rejected (accepters s' a') \<or> poisoned H s' ?fn"
  proof (elim disjE)
    assume l: "txs s (idOf s ?fn) = Some ?fn"
    show ?thesis
    proof (cases "txs s' (idOf s ?fn)")
      case None
      from die [OF l None] have "doomed H F s' ?fn" using doomed_step [OF st] by blast
      then show ?thesis using w' fn unfolding doomed_def by auto
    next
      case (Some r)
      then show ?thesis using rejStepD(1) [OF st, of "idOf s ?fn"] l by simp
    qed
  next
    assume "a_rejected (accepters s a')"
    then show ?thesis using rejStepD(13) [OF st] by blast
  next
    assume "poisoned H s ?fn"
    then show ?thesis using poisoned_step [OF st] by blast
  qed
  then show "txs s' (idOf s' (fnA s' a')) = Some (fnA s' a') \<or> a_rejected (accepters s' a') \<or>
        poisoned H s' (fnA s' a')" unfolding fn id .
qed

lemma rejOK_step:
  assumes st: "rejStep s s'" and r: "rejOK H s"
    and nr: "\<And>d b. (d, b) \<in> set (pendingRejects s') \<Longrightarrow> status s' d \<noteq> Rejected"
  shows "rejOK H s'"
  unfolding rejOK_def
proof (intro allI impI)
  fix d b assume e': "(d, b) \<in> set (pendingRejects s')"
  then have e: "(d, b) \<in> set (pendingRejects s)" using rejStepD(17) [OF st] by blast
  have fn: "fnR s' b = fnR s b" using rejStepD(14) [OF st] by simp
  have *: "b < nextRef s" "fnR s b < nextRef s" "d \<in> set (Dependencies (tx (nodes s (fnR s b))))"
    "\<not> r_rejected (rejectors s b) \<longrightarrow> rlive H s (fnR s b)"
    using r e unfolding rejOK_def by blast+
  show "b < nextRef s' \<and> fnR s' b < nextRef s' \<and>
        d \<in> set (Dependencies (tx (nodes s' (fnR s' b)))) \<and> status s' d \<noteq> Rejected \<and>
        (\<not> r_rejected (rejectors s' b) \<longrightarrow> rlive H s' (fnR s' b))"
    unfolding fn
    using * nr [OF e'] rejStepD(8) [OF st] rejStepD(9) [OF st, of "fnR s b"]
      rejStepD(15) [OF st, of b] rlive_step [OF st, of H "fnR s b"] by auto
qed

lemma waitOK_step:
  assumes st: "rejStep s s'" and p: "procOK s" and w: "waitOK F s"
    and rm: "\<And>d a. (d, a) \<in> set (pendingAccepts s) \<Longrightarrow>
               (d, a) \<in> set (pendingAccepts s') \<or> a_rejected (accepters s' a)"
  shows "waitOK F s'"
  unfolding waitOK_def
proof (intro allI impI)
  fix d b d' a
  assume e': "(d, b) \<in> set (pendingRejects s')" and nr: "\<not> r_rejected (rejectors s' b)"
    and w': "(d', a) \<in> waiting F s'" and fn: "fnA s' a = fnR s' b"
  have "(d, b) \<in> set (pendingRejects s)" using e' rejStepD(17) [OF st] by blast
  moreover have "\<not> r_rejected (rejectors s b)" using nr rejStepD(15) [OF st] by blast
  moreover have "(d', a) \<in> waiting F s" using w' waiting_step [OF st] by blast
  moreover have "fnA s a = fnR s b" using fn rejStepD(12,14) [OF st] by simp
  ultimately have "a_rejected (accepters s a) \<or> (d, a) \<in> set (pendingAccepts s) \<or>
      status s d = Accepted" using w unfolding waitOK_def by blast
  then show "a_rejected (accepters s' a) \<or> (d, a) \<in> set (pendingAccepts s') \<or>
      status s' d = Accepted"
    using rejStepD(13) [OF st, of a] rm [of d a] accepted_step [OF st p, of d] by blast
qed

lemma GI_step:
  assumes g: "GI H F X x rx y ry s" and st: "rejStep s s'" and i3: "Inv3 H s'"
    and die: "\<And>i r. txs s i = Some r \<Longrightarrow> txs s' i = None \<Longrightarrow> doomed H F s r"
    and nr: "\<And>d b. (d, b) \<in> set (pendingRejects s') \<Longrightarrow> status s' d \<noteq> Rejected"
    and rm: "\<And>d a. (d, a) \<in> set (pendingAccepts s) \<Longrightarrow>
               (d, a) \<in> set (pendingAccepts s') \<or> a_rejected (accepters s' a)"
  shows "GI H F X x rx y ry s'"
proof (rule GI_I [OF i3])
  note d = GI_D [OF g]
  show "procOK s'" using procOK_step [OF st d(2)] .
  show "regOK F s'" using regOK_step [OF st d(2,3)] .
  show "accOK H F s'" using accOK_step [OF st d(4) die] .
  show "rejOK H s'" using rejOK_step [OF st d(5) nr] .
  show "waitOK F s'" using waitOK_step [OF st d(2) d(6) rm] .
  show "utxoOK X s'" using utxoOK_step [OF st d(7)] .
  show "edgeOK s'" using edgeOK_step [OF st d(8)] .
  show "pairOK H x rx y ry s'" using pairOK_step [OF st d(9)] .
qed

subsection \<open>The invariant through a reject cascade\<close>

lemma GI_same_errs: "GI H F X x rx y ry (errs_Add e s) = GI H F X x rx y ry s"
proof -
  have n: "nbrs (errs_Add e s) = nbrs s" by (rule ext) (simp add: nbrs_def)
  have w: "waiting F (errs_Add e s) = waiting F s" by (simp add: waiting_def)
  have i: "Inv3 H (errs_Add e s) = Inv3 H s"
    using Inv3_same [of H s "errs_Add e s" H] Inv3_same [of H "errs_Add e s" s H] by auto
  show ?thesis
    unfolding GI_def i procOK_def regOK_def accOK_def rejOK_def waitOK_def utxoOK_def edgeOK_def
      pairOK_def rlive_def gone_def poisoned_def n w by simp
qed

lemma GI_rejectStep:
  assumes g: "GI H F X x rx y ry s" and c: "txs s c = Some r" and dm: "doomed H F s r"
  shows "GI H F X x rx y ry (announceReject c r (detach c r s))"
    and "\<forall>b \<in> set (blocking (pendingRejects (detach c r s)) c).
           \<not> r_rejected (rejectors (announceReject c r (detach c r s)) b) \<longrightarrow>
           rlive H (announceReject c r (detach c r s)) (fnR (announceReject c r (detach c r s)) b) \<and>
           doomed H F (announceReject c r (detach c r s)) (fnR (announceReject c r (detach c r s)) b)"
proof -
  let ?s2 = "announceReject c r (detach c r s)"
  note d = GI_D [OF g]
  have id: "idOf s r = c" using Inv2D(1) [OF d(10) c] .
  have st: "rejStep s ?s2"
    using rejStep_trans [OF rejStep_detach [OF d(10) c] rejStep_announceReject] .
  have i3: "Inv3 H ?s2"
    using Inv3_detach [OF c d(1)] by (rule Inv3_same) simp_all
  have pc: "status s c = Processing" using d(2) c unfolding procOK_def by blast
  have die: "doomed H F s r'" if "txs s i = Some r'" "txs ?s2 i = None" for i r'
    using that c dm by (cases "i = c") auto
  have nr: "status ?s2 d' \<noteq> Rejected" if "(d', b) \<in> set (pendingRejects ?s2)" for d' b
  proof -
    have "d' \<noteq> c" "(d', b) \<in> set (pendingRejects s)" using that by auto
    then show ?thesis using d(5) id unfolding rejOK_def by auto
  qed
  have rm: "(d', a) \<in> set (pendingAccepts ?s2) \<or> a_rejected (accepters ?s2 a)"
    if "(d', a) \<in> set (pendingAccepts s)" for d' a
    using that by (cases "d' = c") auto
  show "GI H F X x rx y ry ?s2" using GI_step [OF g st i3 die nr rm] .
  show "\<forall>b \<in> set (blocking (pendingRejects (detach c r s)) c).
           \<not> r_rejected (rejectors ?s2 b) \<longrightarrow>
           rlive H ?s2 (fnR ?s2 b) \<and> doomed H F ?s2 (fnR ?s2 b)"
  proof (intro ballI impI)
    fix b assume "b \<in> set (blocking (pendingRejects (detach c r s)) c)"
      and n2: "\<not> r_rejected (rejectors ?s2 b)"
    then have e: "(c, b) \<in> set (pendingRejects s)" and n: "\<not> r_rejected (rejectors s b)" by auto
    have fn: "fnR ?s2 b = fnR s b" by simp
    have "rlive H s (fnR s b)" using d(5) e n unfolding rejOK_def by blast
    then have 1: "rlive H ?s2 (fnR s b)" using rlive_step [OF st] by blast
    have "a_rejected (accepters ?s2 a)" if "(d', a) \<in> waiting F ?s2" "fnA ?s2 a = fnR s b" for d' a
    proof -
      have "(d', a) \<in> waiting F s" using that(1) waiting_step [OF st] by blast
      moreover have "fnA s a = fnR s b" using that(2) rejStepD(12) [OF st, of a] by simp
      ultimately have "a_rejected (accepters s a) \<or> (c, a) \<in> set (pendingAccepts s) \<or>
          status s c = Accepted" using d(6) e n unfolding waitOK_def by blast
      then show ?thesis using pc rejStepD(13) [OF st, of a] by auto
    qed
    then have 2: "doomed H F ?s2 (fnR s b)" unfolding doomed_def by blast
    show "rlive H ?s2 (fnR ?s2 b) \<and> doomed H F ?s2 (fnR ?s2 b)" unfolding fn using 1 2 by simp
  qed
qed

lemma GI_mark:
  assumes g: "GI H F X x rx y ry s"
  shows "GI H F X x rx y ry (s\<lparr>rejectors := (rejectors s)(b := (rejectors s b)\<lparr>r_rejected := True\<rparr>)\<rparr>)"
proof (rule GI_step [OF g rejStep_mark])
  note d = GI_D [OF g]
  let ?s = "s\<lparr>rejectors := (rejectors s)(b := (rejectors s b)\<lparr>r_rejected := True\<rparr>)\<rparr>"
  show "Inv3 H ?s" using d(1) by (rule Inv3_same) simp_all
  show "status ?s d' \<noteq> Rejected" if "(d', b') \<in> set (pendingRejects ?s)" for d' b'
    using that d(5) unfolding rejOK_def by auto
qed simp_all

lemma errs_reject: "reject n cs s = Done (e, s') \<Longrightarrow> errs s' = None \<Longrightarrow> errs s = None"
  using frame_reject [of n cs s e s'] unfolding frame_def by auto

lemma errs_fulfillRejectors: "fulfillRejectors n bs s = Done s' \<Longrightarrow> errs s' = None \<Longrightarrow> errs s = None"
  using frame_fulfillRejectors [of n bs s s'] unfolding frame_def by auto

lemma GI_reject:
  "\<forall>s'. reject n cs s = Done (None, s') \<longrightarrow> errs s' = None \<longrightarrow> GI H F X x rx y ry s \<longrightarrow>
      (\<forall>c \<in> set cs. \<forall>r. txs s c = Some r \<longrightarrow> doomed H F s r) \<longrightarrow> GI H F X x rx y ry s'"
  "\<forall>s'. fulfillRejectors n bs s = Done s' \<longrightarrow> errs s' = None \<longrightarrow> GI H F X x rx y ry s \<longrightarrow>
      (\<forall>b \<in> set bs. \<not> r_rejected (rejectors s b) \<longrightarrow> rlive H s (fnR s b) \<and> doomed H F s (fnR s b)) \<longrightarrow>
      GI H F X x rx y ry s'"
proof (induction n cs s and n bs s rule: reject_fulfillRejectors.induct)
  case (1 n s)
  show ?case by simp
next
  case (2 n c cs s)
  show ?case
  proof (intro allI impI)
    fix s' assume run: "reject n (c # cs) s = Done (None, s')" and e: "errs s' = None"
      and g: "GI H F X x rx y ry s"
      and pre: "\<forall>c \<in> set (c # cs). \<forall>r. txs s c = Some r \<longrightarrow> doomed H F s r"
    obtain r where r: "txs s c = Some r" using run by (auto split: option.splits)
    have rv: "RejectV (tx (nodes s r)) = None" using run r by (auto split: option.splits)
    let ?s1 = "detach c r s"
    let ?s2 = "announceReject c r ?s1"
    obtain s3 where s3: "fulfillRejectors n (blocking (pendingRejects ?s1) c) ?s2 = Done s3"
      and rest: "reject n cs s3 = Done (None, s')"
      using run r rv by (auto split: result.splits)
    note d = GI_D [OF g]
    have dm: "doomed H F s r" using pre r by simp
    note A = GI_rejectStep [OF g r dm]
    have e3: "errs s3 = None" using errs_reject [OF rest e] .
    have g3: "GI H F X x rx y ry s3" using "2.IH"(1) [OF r rv] s3 e3 A by blast
    have i2: "Inv2 ?s2" using GI_D(10) [OF A(1)] .
    have st: "rejStep s s3"
      using rejStep_trans [OF rejStep_detach [OF d(10) r]
        rejStep_trans [OF rejStep_announceReject rejStep_fulfillRejectors [OF s3 i2]]] .
    have pre3: "\<forall>c \<in> set cs. \<forall>r. txs s3 c = Some r \<longrightarrow> doomed H F s3 r"
    proof (intro ballI allI impI)
      fix c' r' assume "c' \<in> set cs" "txs s3 c' = Some r'"
      then have "txs s c' = Some r'" using rejStepD(1) [OF st, of c'] by simp
      then show "doomed H F s3 r'" using pre \<open>c' \<in> set cs\<close> doomed_step [OF st] by auto
    qed
    show "GI H F X x rx y ry s'" using "2.IH"(2) [OF r rv s3] rest e g3 pre3 by blast
  qed
next
  case (3 n s)
  show ?case by simp
next
  case (4 b bs s)
  show ?case by simp
next
  case (5 n b bs s)
  show ?case
  proof (intro allI impI)
    fix s' assume run: "fulfillRejectors (Suc n) (b # bs) s = Done s'" and e: "errs s' = None"
      and g: "GI H F X x rx y ry s"
      and pre: "\<forall>b \<in> set (b # bs). \<not> r_rejected (rejectors s b) \<longrightarrow>
                  rlive H s (fnR s b) \<and> doomed H F s (fnR s b)"
    show "GI H F X x rx y ry s'"
    proof (cases "r_rejected (rejectors s b) \<or> errs s \<noteq> None")
      case True
      then have "fulfillRejectors (Suc n) bs s = Done s'" using run by simp
      then show ?thesis using "5.IH"(1) [OF True] e g pre by simp
    next
      case False
      let ?s1 = "s\<lparr>rejectors := (rejectors s)(b := (rejectors s b)\<lparr>r_rejected := True\<rparr>)\<rparr>"
      let ?i = "idOf s (fnR s b)"
      obtain e1 s2 where s2: "reject n [?i] ?s1 = Done (e1, s2)"
        and rest: "fulfillRejectors (Suc n) bs (errs_Add e1 s2) = Done s'"
        using run False by (auto split: result.splits)
      note d = GI_D [OF g]
      have ee: "errs (errs_Add e1 s2) = None" using errs_fulfillRejectors [OF rest e] .
      then have e1: "e1 = None" and e2: "errs s2 = None"
        by (auto simp: errs_Add_errs split: if_splits)
      have g1: "GI H F X x rx y ry ?s1" using GI_mark [OF g] .
      have pb: "rlive H s (fnR s b)" "doomed H F s (fnR s b)" using pre False by auto
      have pre1: "\<forall>c \<in> set [?i]. \<forall>r. txs ?s1 c = Some r \<longrightarrow> doomed H F ?s1 r"
      proof (intro ballI allI impI)
        fix c r assume "c \<in> set [?i]" "txs ?s1 c = Some r"
        then have l: "txs s ?i = Some r" by simp
        have "r = fnR s b" using pb(1) l unfolding rlive_def gone_def by auto
        then show "doomed H F ?s1 r" using doomed_step [OF rejStep_mark pb(2)] by simp
      qed
      have g2: "GI H F X x rx y ry s2" using "5.IH"(2) [OF False] s2 e1 e2 g1 pre1 by blast
      have g2': "GI H F X x rx y ry (errs_Add e1 s2)" using g2 by (simp add: GI_same_errs)
      have st: "rejStep s (errs_Add e1 s2)"
        using rejStep_trans [OF rejStep_mark
          rejStep_trans [OF rejStep_reject [OF s2 GI_D(10) [OF g1]] rejStep_errs_Add]] .
      have pre2: "\<forall>b \<in> set bs. \<not> r_rejected (rejectors (errs_Add e1 s2) b) \<longrightarrow>
           rlive H (errs_Add e1 s2) (fnR (errs_Add e1 s2) b) \<and>
           doomed H F (errs_Add e1 s2) (fnR (errs_Add e1 s2) b)"
      proof (intro ballI impI)
        fix b' assume b': "b' \<in> set bs" and n: "\<not> r_rejected (rejectors (errs_Add e1 s2) b')"
        have "\<not> r_rejected (rejectors s b')" using n rejStepD(15) [OF st] by blast
        then have "rlive H s (fnR s b')" "doomed H F s (fnR s b')" using pre b' by auto
        then show "rlive H (errs_Add e1 s2) (fnR (errs_Add e1 s2) b') \<and>
           doomed H F (errs_Add e1 s2) (fnR (errs_Add e1 s2) b')"
          using rlive_step [OF st] doomed_step [OF st] rejStepD(14) [OF st, of b'] by simp
      qed
      show ?thesis using "5.IH"(3) [OF False s2 HOL.refl] rest e g2' pre2 by blast
    qed
  qed
qed

text \<open>What each part of the invariant reads.\<close>

lemma procOK_cong: "txs s' = txs s \<Longrightarrow> status s' = status s \<Longrightarrow> procOK s' = procOK s"
  by (simp add: procOK_def)

lemma poisoned_cong:
  "txs s' = txs s \<Longrightarrow> status s' = status s \<Longrightarrow> nbrs s' = nbrs s \<Longrightarrow> poisoned H s' = poisoned H s"
  by (rule ext) (simp add: poisoned_def)

lemma gone_cong: "txs s' = txs s \<Longrightarrow> status s' = status s \<Longrightarrow> gone H s' = gone H s"
  by (rule ext) (simp add: gone_def)

lemma regOK_cong:
  assumes "pendingAccepts s' = pendingAccepts s" "nextRef s' = nextRef s" "status s' = status s"
    "\<And>a. a_deps (accepters s' a) = a_deps (accepters s a) \<and> fnA s' a = fnA s a"
    "\<And>r. pendingAccept (nodes s' r) = pendingAccept (nodes s r)"
  shows "regOK F s' = regOK F s"
  unfolding regOK_def waiting_def by (simp add: assms)

lemma accOK_cong:
  assumes "pendingAccepts s' = pendingAccepts s" "txs s' = txs s" "status s' = status s"
    "nbrs s' = nbrs s"
    "\<And>a. a_rejected (accepters s' a) = a_rejected (accepters s a) \<and> fnA s' a = fnA s a"
    "\<And>r. tx (nodes s' r) = tx (nodes s r)"
  shows "accOK H F s' = accOK H F s"
  unfolding accOK_def waiting_def poisoned_cong [OF assms(2,3,4)] by (simp add: assms)

lemma rlive_cong:
  assumes "txs s' = txs s" "status s' = status s" "\<And>r. tx (nodes s' r) = tx (nodes s r)"
  shows "rlive H s' = rlive H s"
  by (rule ext) (simp add: rlive_def gone_cong [OF assms(1,2)] assms)

lemma rejOK_cong:
  assumes "pendingRejects s' = pendingRejects s" "txs s' = txs s" "status s' = status s"
    "nextRef s' = nextRef s" "rejectors s' = rejectors s"
    "\<And>r. tx (nodes s' r) = tx (nodes s r)"
  shows "rejOK H s' = rejOK H s"
  unfolding rejOK_def rlive_cong [OF assms(2,3,6)] by (simp add: assms)

lemma waitOK_cong:
  assumes "pendingRejects s' = pendingRejects s" "pendingAccepts s' = pendingAccepts s"
    "status s' = status s" "rejectors s' = rejectors s"
    "\<And>a. a_rejected (accepters s' a) = a_rejected (accepters s a) \<and> fnA s' a = fnA s a"
  shows "waitOK F s' = waitOK F s"
  unfolding waitOK_def waiting_def by (simp add: assms)

lemma utxoOK_cong:
  assumes "txs s' = txs s" "utxos s' = utxos s" "\<And>r. tx (nodes s' r) = tx (nodes s r)"
  shows "utxoOK X s' = utxoOK X s"
  unfolding utxoOK_def by (simp add: assms)

lemma edgeOK_cong:
  assumes "txs s' = txs s" "nbrs s' = nbrs s" "\<And>r. tx (nodes s' r) = tx (nodes s r)"
  shows "edgeOK s' = edgeOK s"
  unfolding edgeOK_def by (simp add: assms)

lemma pairOK_cong:
  assumes "txs s' = txs s" "status s' = status s" "nextRef s' = nextRef s"
    "\<And>r. tx (nodes s' r) = tx (nodes s r)"
  shows "pairOK H x rx y ry s' = pairOK H x rx y ry s"
  unfolding pairOK_def rlive_cong [OF assms(1,2,4)] by (simp add: assms)

text \<open>Widening the hole.\<close>

lemma gone_mono: "gone H s i \<Longrightarrow> H \<subseteq> H' \<Longrightarrow> gone H' s i"
  unfolding gone_def by auto

lemma poisoned_mono: "poisoned H s r \<Longrightarrow> H \<subseteq> H' \<Longrightarrow> poisoned H' s r"
  unfolding poisoned_def by auto

subsection \<open>The accepter up to the rejection of the conflicts\<close>

lemma nbrs_purge [simp]: "nbrs (purge fnr s) = nbrs s"
  by (rule ext) (simp add: nbrs_def)

lemma GI_purge:
  assumes g: "GI {} F {} x rx y ry s" and l: "txs s (idOf s fn) = Some fn"
    and u: "\<And>d a. (d, a) \<in> waiting F s \<Longrightarrow> fnA s a \<noteq> fn"
  shows "GI {idOf s fn} F (nbrs s fn) x rx y ry (purge fn s)"
proof (rule GI_I)
  note d = GI_D [OF g]
  let ?h = "idOf s fn"
  let ?s = "purge fn s"
  have dead: "txs ?s i = None" if "txs s i = None" for i using that by simp
  have live: "txs s i = Some r \<Longrightarrow> i \<noteq> ?h \<Longrightarrow> txs ?s i = Some r" for i r by simp
  have po: "poisoned {?h} ?s r" if "poisoned {} s r" for r
    using that unfolding poisoned_def by auto
  have rl: "rlive {?h} ?s r" if "rlive {} s r" for r
    using that unfolding rlive_def gone_def by auto
  show "Inv3 {?h} ?s" using Inv3_purge [OF d(1)] .
  show "procOK ?s" using d(2) unfolding procOK_def by (auto split: if_splits)
  show "regOK F ?s" using d(3) by (subst regOK_cong [of ?s s]) simp_all
  show "accOK {?h} F ?s"
    unfolding accOK_def
  proof (intro allI impI)
    fix d' a assume w: "(d', a) \<in> waiting F ?s"
    then have w0: "(d', a) \<in> waiting F s" by (simp add: waiting_def)
    then have "txs s (idOf s (fnA s a)) = Some (fnA s a) \<or> a_rejected (accepters s a) \<or>
        poisoned {} s (fnA s a)" using d(4) unfolding accOK_def by blast
    moreover have "idOf s (fnA s a) \<noteq> ?h" if "txs s (idOf s (fnA s a)) = Some (fnA s a)"
      using that l u [OF w0] by auto
    ultimately show "txs ?s (idOf ?s (fnA ?s a)) = Some (fnA ?s a) \<or> a_rejected (accepters ?s a) \<or>
        poisoned {?h} ?s (fnA ?s a)"
      using po by auto
  qed
  show "rejOK {?h} ?s"
    using d(5) rl unfolding rejOK_def by simp
  show "waitOK F ?s" using d(6) by (subst waitOK_cong [of ?s s]) simp_all
  show "utxoOK (nbrs s fn) ?s"
    unfolding utxoOK_def
  proof (intro allI impI)
    fix x' r u' assume lx: "txs ?s x' = Some r" and nx: "x' \<notin> nbrs s fn"
      and i: "u' \<in> set (InputIDs (tx (nodes ?s r)))"
    have lx0: "txs s x' = Some r" and ne: "x' \<noteq> ?h" using lx by (auto split: if_splits)
    have "u' \<notin> set (InputIDs (tx (nodes s fn)))"
    proof
      assume "u' \<in> set (InputIDs (tx (nodes s fn)))"
      then have "set (InputIDs (tx (nodes s fn))) \<inter> set (InputIDs (tx (nodes s r))) \<noteq> {}"
        using i by auto
      then have "x' \<in> nbrs s fn" using d(8) l lx0 ne unfolding edgeOK_def by blast
      then show False using nx by simp
    qed
    moreover have "\<exists>sp. utxos s u' = Some sp \<and> x' \<in> set sp"
      using d(7) lx0 i unfolding utxoOK_def by auto
    ultimately show "\<exists>sp. utxos ?s u' = Some sp \<and> x' \<in> set sp" by simp
  qed
  show "edgeOK ?s" using d(8) unfolding edgeOK_def by (auto split: if_splits)
  show "pairOK {?h} x rx y ry ?s"
    using d(9) rl unfolding pairOK_def by simp
qed

lemma fire_rejects:
  assumes i: "Inv2 s"
    and r1: "reject n1 (ins (nodes s fn)) (purge fn s) = Done (None, s1)"
    and r2: "reject n2 (outs (nodes s1 fn)) s1 = Done (None, s2)"
  shows "outs (nodes s1 fn) = outs (nodes s fn)"
    and "rejStep (purge fn s) s1" and "rejStep s1 s2"
    and "w \<in> nbrs s fn \<Longrightarrow>
           txs s w \<noteq> None \<and> w \<noteq> idOf s fn \<and> txs s2 w = None \<and> status s2 w = Rejected"
proof -
  let ?s0 = "purge fn s"
  have i0: "Inv2 ?s0" using Inv2_purge [OF i] .
  show st1: "rejStep ?s0 s1" using rejStep_reject [OF r1 i0] .
  have i1: "Inv2 s1" using Inv2_reject [OF r1 i0] .
  show st2: "rejStep s1 s2" using rejStep_reject [OF r2 i1] .
  have nf: "txs ?s0 j \<noteq> Some fn" for j
    using Inv2D(1) [OF i, of j fn] by auto
  show o: "outs (nodes s1 fn) = outs (nodes s fn)"
    using rejStepD(6) [OF st1, of fn] nf by simp
  show "txs s w \<noteq> None \<and> w \<noteq> idOf s fn \<and> txs s2 w = None \<and> status s2 w = Rejected"
    if "w \<in> nbrs s fn"
  proof -
    from that consider "w \<in> set (ins (nodes s fn))" | "w \<in> set (outs (nodes s1 fn))"
      unfolding nbrs_def o by blast
    then show ?thesis
    proof cases
      case 1
      from reject_all [OF r1 i0 1]
      have a: "txs ?s0 w \<noteq> None" "txs s1 w = None" "status s1 w = Rejected" by simp_all
      have "txs s w \<noteq> None \<and> w \<noteq> idOf s fn" using a(1) by (auto split: if_splits)
      then show ?thesis using a rejStep_dead [OF st2] rejStep_decided [OF st2, of w] by simp
    next
      case 2
      from reject_all [OF r2 i1 2]
      have a: "txs s1 w \<noteq> None" "txs s2 w = None" "status s2 w = Rejected" by simp_all
      have "txs ?s0 w \<noteq> None" using a(1) rejStepD(1) [OF st1, of w] by auto
      then have "txs s w \<noteq> None \<and> w \<noteq> idOf s fn" by (auto split: if_splits)
      then show ?thesis using a by simp
    qed
  qed
qed

text \<open>The state in which the accepter calls \<^verbatim>\<open>Accept()\<close>.\<close>

lemma GI_rejected:
  assumes g: "GI {} F {} x rx y ry s" and l: "txs s (idOf s fn) = Some fn"
    and u: "\<And>d a. (d, a) \<in> waiting F s \<Longrightarrow> fnA s a \<noteq> fn"
    and r1: "reject n1 (ins (nodes s fn)) (purge fn s) = Done (None, s1)"
    and r2: "reject n2 (outs (nodes s1 fn)) s1 = Done (None, s2)"
    and e: "errs s2 = None"
  shows "GI {idOf s fn} F (nbrs s fn) x rx y ry s2"
proof -
  let ?h = "idOf s fn"
  let ?s0 = "purge fn s"
  note d = GI_D [OF g]
  note fr = fire_rejects [OF d(10) r1 r2]
  have g0: "GI {?h} F (nbrs s fn) x rx y ry ?s0" using GI_purge [OF g l u] .
  have dm: "doomed {?h} F ?s0 r" if c: "c \<in> nbrs s fn" and lc: "txs ?s0 c = Some r" for c r
  proof -
    have lc0: "txs s c = Some r" using lc by (auto split: if_splits)
    have "?h \<in> nbrs s r"
      using Inv3D(2) [OF d(1) lc0 l] Inv3D(2) [OF d(1) l lc0] c unfolding nbrs_def by auto
    then have "poisoned {?h} ?s0 r" unfolding poisoned_def by auto
    then show ?thesis unfolding doomed_def by simp
  qed
  have e1: "errs s1 = None" using errs_reject [OF r2 e] .
  have pre1: "\<forall>c \<in> set (ins (nodes s fn)). \<forall>r. txs ?s0 c = Some r \<longrightarrow> doomed {?h} F ?s0 r"
    using dm unfolding nbrs_def by blast
  have g1: "GI {?h} F (nbrs s fn) x rx y ry s1" using GI_reject(1) r1 e1 g0 pre1 by blast
  have pre2: "\<forall>c \<in> set (outs (nodes s1 fn)). \<forall>r. txs s1 c = Some r \<longrightarrow> doomed {?h} F s1 r"
  proof (intro ballI allI impI)
    fix c r assume c: "c \<in> set (outs (nodes s1 fn))" and lc: "txs s1 c = Some r"
    have "c \<in> nbrs s fn" using c unfolding fr(1) nbrs_def by simp
    moreover have "txs ?s0 c = Some r" using lc rejStepD(1) [OF fr(2), of c] by simp
    ultimately show "doomed {?h} F s1 r" using dm doomed_step [OF fr(2)] by blast
  qed
  show ?thesis using GI_reject(1) r2 e g1 pre2 by blast
qed

subsection \<open>Accept and the notification of the waiting accepters\<close>

lemma GI_accept:
  assumes g: "GI {h} F X x rx y ry s" and dead: "txs s h = None"
    and xd: "\<And>w. w \<in> X \<Longrightarrow> txs s w = None"
    and pr: "x \<noteq> y \<Longrightarrow> (h = x \<longrightarrow> status s y = Rejected) \<and> (h = y \<longrightarrow> status s x = Rejected)"
  shows "GI {} F {} x rx y ry (s\<lparr>status := (status s)(h := Accepted)\<rparr>)"
proof (rule GI_I)
  note d = GI_D [OF g]
  let ?s = "s\<lparr>status := (status s)(h := Accepted)\<rparr>"
  have n: "nbrs ?s = nbrs s" by (rule ext) (simp add: nbrs_def)
  have go: "gone {} ?s i" if "gone {h} s i" for i
    using that unfolding gone_def Decided_def by auto
  have po: "poisoned {} ?s r" if "poisoned {h} s r" for r
    using that unfolding poisoned_def n Decided_def by auto
  have rl: "rlive {} ?s r" if "rlive {h} s r" for r
    using that go unfolding rlive_def by auto
  show "Inv3 {} ?s" using Inv3_accepted [of h "{}" s] d(1) by simp
  show "procOK ?s" using d(2) dead unfolding procOK_def by auto
  show "regOK F ?s" using d(3) unfolding regOK_def waiting_def by auto
  show "accOK {} F ?s"
    unfolding accOK_def
  proof (intro allI impI)
    fix d' a assume "(d', a) \<in> waiting F ?s"
    then have "(d', a) \<in> waiting F s" by (simp add: waiting_def)
    then have "txs s (idOf s (fnA s a)) = Some (fnA s a) \<or> a_rejected (accepters s a) \<or>
        poisoned {h} s (fnA s a)" using d(4) unfolding accOK_def by blast
    then show "txs ?s (idOf ?s (fnA ?s a)) = Some (fnA ?s a) \<or> a_rejected (accepters ?s a) \<or>
        poisoned {} ?s (fnA ?s a)" using po by auto
  qed
  show "rejOK {} ?s" using d(5) rl unfolding rejOK_def by auto
  show "waitOK F ?s" using d(6) unfolding waitOK_def waiting_def by auto
  show "utxoOK {} ?s"
    unfolding utxoOK_def
  proof (intro allI impI)
    fix x' r u assume l: "txs ?s x' = Some r" and i: "u \<in> set (InputIDs (tx (nodes ?s r)))"
    have "x' \<notin> X" using xd [of x'] l by auto
    then show "\<exists>sp. utxos ?s u = Some sp \<and> x' \<in> set sp"
      using d(7) l i unfolding utxoOK_def by auto
  qed
  show "edgeOK ?s" using d(8) unfolding edgeOK_def n by simp
  show "pairOK {} x rx y ry ?s"
    unfolding pairOK_def
  proof (intro impI)
    assume ne: "x \<noteq> y"
    then have a: "rx < nextRef s" "ry < nextRef s" "idOf s rx = x" "idOf s ry = y"
      "set (InputIDs (tx (nodes s rx))) \<inter> set (InputIDs (tx (nodes s ry))) \<noteq> {}"
      "rlive {h} s rx" "rlive {h} s ry"
      "status s x = Accepted \<longrightarrow> status s y = Rejected"
      "status s y = Accepted \<longrightarrow> status s x = Rejected"
      using d(9) unfolding pairOK_def by blast+
    show "rx < nextRef ?s \<and> ry < nextRef ?s \<and> idOf ?s rx = x \<and> idOf ?s ry = y \<and>
        set (InputIDs (tx (nodes ?s rx))) \<inter> set (InputIDs (tx (nodes ?s ry))) \<noteq> {} \<and>
        rlive {} ?s rx \<and> rlive {} ?s ry \<and>
        (status ?s x = Accepted \<longrightarrow> status ?s y = Rejected) \<and>
        (status ?s y = Accepted \<longrightarrow> status ?s x = Rejected)"
      using a rl pr [OF ne] ne by auto
  qed
qed

lemma waiting_announceAccept:
  assumes "idOf s fn = h"
  shows "waiting (F \<union> {h} \<times> set (blocking (pendingAccepts s) h)) (announceAccept fn s) = waiting F s"
  unfolding waiting_def using assms by auto

lemma GI_announce:
  assumes g: "GI {} F {} x rx y ry s" and h: "idOf s fn = h" and acc: "status s h = Accepted"
  shows "GI {} (F \<union> {h} \<times> set (blocking (pendingAccepts s) h)) {} x rx y ry (announceAccept fn s)"
proof (rule GI_I)
  note d = GI_D [OF g]
  let ?s = "announceAccept fn s"
  let ?F = "F \<union> {h} \<times> set (blocking (pendingAccepts s) h)"
  note w = waiting_announceAccept [OF h, of F]
  have n: "nbrs ?s = nbrs s" by (rule ext) (simp add: nbrs_def)
  have t: "tx (nodes ?s r) = tx (nodes s r)" for r by simp
  have p: "poisoned {} ?s = poisoned {} s" by (rule poisoned_cong) (simp_all add: n)
  have rl: "rlive {} ?s = rlive {} s" by (rule rlive_cong) simp_all
  show "Inv3 {} ?s" using d(1) by (rule Inv3_same) simp_all
  show "procOK ?s" using d(2) by (simp add: procOK_def)
  show "regOK ?F ?s"
    unfolding regOK_def w
  proof (intro conjI allI impI)
    show "distinct (pendingAccepts ?s)" using d(3) unfolding regOK_def by simp
  next
    fix d' a assume "(d', a) \<in> waiting F s"
    then have "d' \<in> set (a_deps (accepters s a)) \<and> a < nextRef s \<and> fnA s a < nextRef s \<and>
        pendingAccept (nodes s (fnA s a))" using d(3) unfolding regOK_def by blast
    then show "d' \<in> set (a_deps (accepters ?s a))" "a < nextRef ?s" "fnA ?s a < nextRef ?s"
      "pendingAccept (nodes ?s (fnA ?s a))" by auto
  next
    fix d' a assume "(d', a) \<in> ?F"
    then consider "(d', a) \<in> F" | "d' = h" by auto
    then show "status ?s d' = Accepted"
      using d(3) acc unfolding regOK_def by cases auto
    show "(d', a') \<notin> set (pendingAccepts ?s)" for a'
      using \<open>(d', a) \<in> ?F\<close> d(3) h unfolding regOK_def by auto
  next
    fix d1 a1 d2 a2
    assume "(d1, a1) \<in> waiting F s" "(d2, a2) \<in> waiting F s" "fnA ?s a1 = fnA ?s a2"
    then show "a1 = a2" using d(3) unfolding regOK_def by auto
  qed
  show "accOK {} ?F ?s" using d(4) unfolding accOK_def w p by auto
  show "rejOK {} ?s" using d(5) unfolding rejOK_def rl by auto
  show "waitOK ?F ?s"
    unfolding waitOK_def w
  proof (intro allI impI)
    fix d1 b d2 a
    assume "(d1, b) \<in> set (pendingRejects ?s)" "\<not> r_rejected (rejectors ?s b)"
      "(d2, a) \<in> waiting F s" "fnA ?s a = fnR ?s b"
    then have "a_rejected (accepters s a) \<or> (d1, a) \<in> set (pendingAccepts s) \<or>
        status s d1 = Accepted" using d(6) unfolding waitOK_def by auto
    then show "a_rejected (accepters ?s a) \<or> (d1, a) \<in> set (pendingAccepts ?s) \<or>
        status ?s d1 = Accepted" using acc h by (cases "d1 = h") auto
  qed
  show "utxoOK {} ?s" using d(7) unfolding utxoOK_def by auto
  show "edgeOK ?s" using d(8) unfolding edgeOK_def n by auto
  show "pairOK {} x rx y ry ?s" using d(9) unfolding pairOK_def rl by auto
qed

lemma GI_forget:
  assumes g: "GI H F X x rx y ry s"
  shows "GI H F X x rx y ry (s\<lparr>pendingRejects := Blocker_delete (pendingRejects s) i\<rparr>)"
proof (rule GI_I)
  note d = GI_D [OF g]
  let ?s = "s\<lparr>pendingRejects := Blocker_delete (pendingRejects s) i\<rparr>"
  have n: "nbrs ?s = nbrs s" by (rule ext) (simp add: nbrs_def)
  have rl: "rlive H ?s = rlive H s" by (rule rlive_cong) simp_all
  show "Inv3 H ?s" using d(1) by (rule Inv3_same) simp_all
  show "procOK ?s" using d(2) by (simp add: procOK_def)
  show "regOK F ?s" using d(3) by (subst regOK_cong [of ?s s]) simp_all
  show "accOK H F ?s" using d(4) by (subst accOK_cong [of ?s s]) (simp_all add: n)
  show "rejOK H ?s" using d(5) unfolding rejOK_def rl by auto
  show "waitOK F ?s" using d(6) unfolding waitOK_def waiting_def by auto
  show "utxoOK X ?s" using d(7) by (subst utxoOK_cong [of ?s s]) simp_all
  show "edgeOK ?s" using d(8) by (subst edgeOK_cong [of ?s s]) (simp_all add: n)
  show "pairOK H x rx y ry ?s" using d(9) by (subst pairOK_cong [of ?s s]) simp_all
qed

subsection \<open>The invariant through the accepter cascade\<close>

lemma errs_Update: "Update n a s = Done s' \<Longrightarrow> errs s' = None \<Longrightarrow> errs s = None"
  using frame_Update [of n a s s'] unfolding frame_def by auto

lemma errs_fulfillAccepters: "fulfillAccepters n i as s = Done s' \<Longrightarrow> errs s' = None \<Longrightarrow> errs s = None"
  using frame_fulfillAccepters [of n i as s s'] unfolding frame_def by auto

lemma regOK_D:
  assumes "regOK F s"
  shows "distinct (pendingAccepts s)"
    and "(d, a) \<in> waiting F s \<Longrightarrow> d \<in> set (a_deps (accepters s a))"
    and "(d, a) \<in> waiting F s \<Longrightarrow> a < nextRef s \<and> fnA s a < nextRef s \<and> pendingAccept (nodes s (fnA s a))"
    and "(d, a) \<in> F \<Longrightarrow> status s d = Accepted"
    and "(d, a) \<in> F \<Longrightarrow> (d, a') \<notin> set (pendingAccepts s)"
    and "(d, a) \<in> waiting F s \<Longrightarrow> (d', a') \<in> waiting F s \<Longrightarrow> fnA s a = fnA s a' \<Longrightarrow> a = a'"
  using assms unfolding regOK_def by blast+

lemma GI_dep:
  assumes g: "GI {} (F \<union> {i} \<times> set (a # as)) {} x rx y ry s"
    and di: "distinct (a # as)" and nf: "i \<notin> fst ` F"
  defines "s0 \<equiv> s\<lparr>accepters := (accepters s)(a := (accepters s a)\<lparr>a_deps :=
                                 Set_Remove i (a_deps (accepters s a))\<rparr>)\<rparr>"
  shows "GI {} (F \<union> {i} \<times> set as) {} x rx y ry s0" and "PreU (F \<union> {i} \<times> set as) a s0"
proof -
  let ?F0 = "F \<union> {i} \<times> set (a # as)"
  let ?F1 = "F \<union> {i} \<times> set as"
  note d = GI_D [OF g]
  have n: "nbrs s0 = nbrs s" by (rule ext) (simp add: nbrs_def s0_def)
  have f: "txs s0 = txs s" "status s0 = status s" "utxos s0 = utxos s" "nextRef s0 = nextRef s"
    "pendingAccepts s0 = pendingAccepts s" "pendingRejects s0 = pendingRejects s"
    "nodes s0 = nodes s" "rejectors s0 = rejectors s" "preferences s0 = preferences s"
    unfolding s0_def by simp_all
  have ac: "fnA s0 a' = fnA s a'" "a_rejected (accepters s0 a') = a_rejected (accepters s a')"
    "a_deps (accepters s0 a') = (if a' = a then Set_Remove i (a_deps (accepters s a)) else a_deps (accepters s a'))"
    for a' unfolding s0_def by simp_all
  have w1: "waiting ?F1 s0 = waiting ?F1 s" by (simp add: waiting_def f)
  have sub: "waiting ?F1 s \<subseteq> waiting ?F0 s" unfolding waiting_def by auto
  have ia0: "(i, a) \<in> ?F0" by simp
  have nreg: "(i, a') \<notin> set (pendingAccepts s)" for a'
    using d(3) ia0 unfolding regOK_def by blast
  have nia: "(i, a) \<notin> waiting ?F1 s"
    proof
    assume "(i, a) \<in> waiting ?F1 s"
    then have "(i, a) \<in> F \<or> a \<in> set as" using nreg unfolding waiting_def by auto
    then show False using di nf by (auto simp: image_iff)
  qed
  have p: "poisoned H s0 = poisoned H s" for H by (rule poisoned_cong) (simp_all add: f n)
  have rl: "rlive H s0 = rlive H s" for H by (rule rlive_cong) (simp_all add: f)
  show "GI {} ?F1 {} x rx y ry s0"
  proof (rule GI_I)
    show "Inv3 {} s0" using d(1) by (rule Inv3_same) (simp_all add: f)
    show "procOK s0" using d(2) by (simp add: procOK_def f)
    show "regOK ?F1 s0"
      unfolding regOK_def w1
    proof (intro conjI allI impI)
      show "distinct (pendingAccepts s0)" using regOK_D(1) [OF d(3)] by (simp add: f)
    next
      fix d' a' assume w: "(d', a') \<in> waiting ?F1 s"
      then have w0: "(d', a') \<in> waiting ?F0 s" using sub by blast
      have "a' = a \<Longrightarrow> d' \<noteq> i" using w nia by auto
      then show "d' \<in> set (a_deps (accepters s0 a'))"
        using regOK_D(2) [OF d(3) w0] by (cases "a' = a") (simp_all add: ac)
      show "a' < nextRef s0" "fnA s0 a' < nextRef s0" "pendingAccept (nodes s0 (fnA s0 a'))"
        using regOK_D(3) [OF d(3) w0] by (simp_all add: f ac)
    next
      fix d' a' assume "(d', a') \<in> ?F1"
      then have m: "(d', a') \<in> ?F0" by auto
      show "status s0 d' = Accepted" using regOK_D(4) [OF d(3) m] by (simp add: f)
      show "(d', a'') \<notin> set (pendingAccepts s0)" for a''
        using regOK_D(5) [OF d(3) m] by (simp add: f)
    next
      fix d1 a1 d2 a2
      assume "(d1, a1) \<in> waiting ?F1 s" "(d2, a2) \<in> waiting ?F1 s" "fnA s0 a1 = fnA s0 a2"
      then have "(d1, a1) \<in> waiting ?F0 s" "(d2, a2) \<in> waiting ?F0 s" "fnA s a1 = fnA s a2"
        using sub ac(1) by auto
      then show "a1 = a2" by (rule regOK_D(6) [OF d(3)])
    qed
    show "accOK {} ?F1 s0"
      unfolding accOK_def w1 p
    proof (intro allI impI)
      fix d' a' assume "(d', a') \<in> waiting ?F1 s"
      then have "(d', a') \<in> waiting ?F0 s" using sub by blast
      then have "txs s (idOf s (fnA s a')) = Some (fnA s a') \<or> a_rejected (accepters s a') \<or>
        poisoned {} s (fnA s a')" using d(4) unfolding accOK_def by blast
      then show "txs s0 (idOf s0 (fnA s0 a')) = Some (fnA s0 a') \<or> a_rejected (accepters s0 a') \<or>
        poisoned {} s (fnA s0 a')" by (simp add: f ac)
    qed
    show "rejOK {} s0" using d(5) unfolding rejOK_def rl by (simp add: f)
    show "waitOK ?F1 s0"
      unfolding waitOK_def w1
    proof (intro allI impI)
      fix d1 b d2 a'
      assume "(d1, b) \<in> set (pendingRejects s0)" "\<not> r_rejected (rejectors s0 b)"
        "(d2, a') \<in> waiting ?F1 s" "fnA s0 a' = fnR s0 b"
      then have "(d1, b) \<in> set (pendingRejects s)" "\<not> r_rejected (rejectors s b)"
        "(d2, a') \<in> waiting ?F0 s" "fnA s a' = fnR s b"
        using sub by (auto simp: f ac)
      then have "a_rejected (accepters s a') \<or> (d1, a') \<in> set (pendingAccepts s) \<or>
          status s d1 = Accepted" using d(6) unfolding waitOK_def by blast
      then show "a_rejected (accepters s0 a') \<or> (d1, a') \<in> set (pendingAccepts s0) \<or>
          status s0 d1 = Accepted" by (simp add: f ac)
    qed
    show "utxoOK {} s0" using d(7) by (subst utxoOK_cong [of s0 s]) (simp_all add: f)
    show "edgeOK s0" using d(8) by (subst edgeOK_cong [of s0 s]) (simp_all add: f n)
    show "pairOK {} x rx y ry s0" using d(9) by (subst pairOK_cong [of s0 s]) (simp_all add: f)
  qed
  show "PreU ?F1 a s0"
    unfolding PreU_def
  proof (intro impI conjI allI)
    assume nr: "\<not> a_rejected (accepters s0 a)" and de: "a_deps (accepters s0 a) = []"
    have "(i, a) \<in> waiting ?F0 s" unfolding waiting_def by simp
    then have "txs s (idOf s (fnA s a)) = Some (fnA s a) \<or> a_rejected (accepters s a) \<or>
        poisoned {} s (fnA s a)" using d(4) unfolding accOK_def by blast
    then show "txs s0 (idOf s0 (fnA s0 a)) = Some (fnA s0 a) \<or> poisoned {} s0 (fnA s0 a)"
      using nr unfolding p by (simp add: f ac)
    fix d' a' assume w: "(d', a') \<in> waiting ?F1 s0"
    then have w': "(d', a') \<in> waiting ?F1 s" by (simp only: w1)
    then have w0: "(d', a') \<in> waiting ?F0 s" using sub by blast
    have ia: "(i, a) \<in> waiting ?F0 s" unfolding waiting_def by simp
    show "fnA s0 a' \<noteq> fnA s0 a"
    proof
      assume "fnA s0 a' = fnA s0 a"
      then have "fnA s a' = fnA s a" by (simp add: ac)
      then have "a' = a" using regOK_D(6) [OF d(3) w0 ia] by simp
      then have wa: "(d', a) \<in> waiting ?F1 s" using w' by simp
      then have "d' \<noteq> i" using nia by auto
      moreover have "d' \<in> set (a_deps (accepters s a))"
        using regOK_D(2) [OF d(3)] wa sub by blast
      ultimately show False using de by (auto simp: ac)
    qed
  qed
qed

lemma GI_fire:
  assumes g: "GI {} F {} x rx y ry s" and pu: "PreU F a s"
    and gd: "\<not> a_rejected (accepters s a)" "a_deps (accepters s a) = []"
    and r1: "reject n1 (ins (nodes s (fnA s a))) (purge (fnA s a) s) = Done (None, s1)"
    and r2: "reject n2 (outs (nodes s1 (fnA s a))) s1 = Done (None, s2)"
    and e: "errs s2 = None"
  defines "h \<equiv> idOf s (fnA s a)"
  shows "GI {} (F \<union> {h} \<times> set (blocking (pendingAccepts s2) h)) {} x rx y ry
           (announceAccept (fnA s a) (s2\<lparr>status := (status s2)(h := Accepted)\<rparr>))"
    and "distinct (blocking (pendingAccepts s2) h)" and "h \<notin> fst ` F"
proof -
  let ?fn = "fnA s a"
  let ?s0 = "purge ?fn s"
  let ?s3 = "s2\<lparr>status := (status s2)(h := Accepted)\<rparr>"
  note d = GI_D [OF g]
  note fr = fire_rejects [OF d(10) r1 r2]
  have np: "\<not> poisoned {} s ?fn" using fr(4) unfolding poisoned_def by blast
  then have l: "txs s h = Some ?fn" and u: "\<And>d a'. (d, a') \<in> waiting F s \<Longrightarrow> fnA s a' \<noteq> ?fn"
    using pu gd unfolding PreU_def h_def by blast+
  have ph: "status s h = Processing" using d(2) l unfolding procOK_def by blast
  have g2: "GI {h} F (nbrs s ?fn) x rx y ry s2"
    unfolding h_def using GI_rejected [OF g l [unfolded h_def] u r1 r2 e] .
  have dead0: "txs ?s0 h = None" by (simp add: h_def)
  have dead: "txs s2 h = None" using rejStep_dead [OF fr(3) rejStep_dead [OF fr(2) dead0]] .
  have keep: "status s2 w = status s w" if "txs s w = None" for w
  proof -
    have 0: "txs ?s0 w = None" using that by simp
    have "status s1 w = status ?s0 w" using rejStep_decided [OF fr(2) 0] .
    moreover have "status s2 w = status s1 w"
      using rejStep_decided [OF fr(3) rejStep_dead [OF fr(2) 0]] .
    ultimately show ?thesis by simp
  qed
  have pr: "(h = x \<longrightarrow> status s2 y = Rejected) \<and> (h = y \<longrightarrow> status s2 x = Rejected)" if ne: "x \<noteq> y"
  proof -
    have a: "idOf s rx = x" "idOf s ry = y"
      "set (InputIDs (tx (nodes s rx))) \<inter> set (InputIDs (tx (nodes s ry))) \<noteq> {}"
      "rlive {} s rx" "rlive {} s ry"
      "status s x = Accepted \<longrightarrow> status s y = Rejected"
      "status s y = Accepted \<longrightarrow> status s x = Rejected"
      using d(9) ne unfolding pairOK_def by blast+
    have one: "status s2 q = Rejected"
      if hp: "h = p" and ip: "idOf s rp = p" and iq: "idOf s rq = q" and pq: "p \<noteq> q"
        and sh: "set (InputIDs (tx (nodes s rp))) \<inter> set (InputIDs (tx (nodes s rq))) \<noteq> {}"
        and lp: "rlive {} s rp" and lq: "rlive {} s rq"
        and acc: "status s q = Accepted \<longrightarrow> status s p = Rejected"
      for p q rp rq
    proof -
      have rp: "rp = ?fn" using lp l hp ip unfolding rlive_def gone_def by auto
      from lq show ?thesis unfolding rlive_def iq
      proof
        assume lq': "txs s q = Some rq"
        have "q \<in> nbrs s ?fn"
          using d(8) l lq' pq sh hp unfolding edgeOK_def rp by blast
        then show ?thesis using fr(4) by blast
      next
        assume "gone {} s q"
        then have dq: "txs s q = None" "Decided (status s q)" unfolding gone_def by auto
        have "status s q \<noteq> Accepted" using acc ph hp by auto
        then have "status s q = Rejected" using dq(2) unfolding Decided_def by auto
        then show ?thesis using keep [OF dq(1)] by simp
      qed
    qed
    have sh': "set (InputIDs (tx (nodes s ry))) \<inter> set (InputIDs (tx (nodes s rx))) \<noteq> {}"
      using a(3) by auto
    show ?thesis
      using one [of x rx ry y, OF _ a(1) a(2) ne a(3) a(4) a(5) a(7)]
        one [of y ry rx x, OF _ a(2) a(1) ne [symmetric] sh' a(5) a(4) a(6)] by blast
  qed
  have xd: "txs s2 w = None" if "w \<in> nbrs s ?fn" for w using fr(4) [OF that] by simp
  have g3: "GI {} F {} x rx y ry ?s3" using GI_accept [OF g2 dead xd pr] .
  have id3: "idOf ?s3 ?fn = h"
    using rejStepD(9) [OF fr(2), of ?fn] rejStepD(9) [OF fr(3), of ?fn] by (simp add: h_def)
  have "GI {} (F \<union> {h} \<times> set (blocking (pendingAccepts ?s3) h)) {} x rx y ry
           (announceAccept ?fn ?s3)"
    by (rule GI_announce [OF g3 id3]) simp
  then show "GI {} (F \<union> {h} \<times> set (blocking (pendingAccepts s2) h)) {} x rx y ry
           (announceAccept ?fn ?s3)" by simp
  have "distinct (pendingAccepts ?s3)" using regOK_D(1) [OF GI_D(3) [OF g3]] .
  then show "distinct (blocking (pendingAccepts s2) h)" using distinct_blocking by simp
  show "h \<notin> fst ` F"
  proof
    assume "h \<in> fst ` F"
    then obtain a' where "(h, a') \<in> F" by auto
    then show False using regOK_D(4) [OF d(3)] ph by auto
  qed
qed

lemma GI_Update_aux:
  "(\<forall>a s s' F. Update n a s = Done s' \<longrightarrow> errs s' = None \<longrightarrow> GI {} F {} x rx y ry s \<longrightarrow>
        PreU F a s \<longrightarrow> GI {} F {} x rx y ry s') \<and>
   (\<forall>i as s s' F. fulfillAccepters n i as s = Done s' \<longrightarrow> errs s' = None \<longrightarrow>
        GI {} (F \<union> {i} \<times> set as) {} x rx y ry s \<longrightarrow> distinct as \<longrightarrow> i \<notin> fst ` F \<longrightarrow>
        GI {} F {} x rx y ry s')"
proof -
  have fa: "GI {} F {} x rx y ry s'"
    if U: "\<And>m a s s' F. Suc m = n \<Longrightarrow> Update m a s = Done s' \<Longrightarrow> errs s' = None \<Longrightarrow>
             GI {} F {} x rx y ry s \<Longrightarrow> PreU F a s \<Longrightarrow> GI {} F {} x rx y ry s'"
      and run: "fulfillAccepters n i as s = Done s'" and e: "errs s' = None"
      and g: "GI {} (F \<union> {i} \<times> set as) {} x rx y ry s" and di: "distinct as"
      and nf: "i \<notin> fst ` F"
    for n i as s s' F
    using run g di
  proof (induction as arbitrary: s)
    case Nil
    then show ?case by simp
  next
    case (Cons a as)
    from Cons.prems(1) show ?case
    proof (cases rule: fulfillAccepters_Done_cases)
      case nil
      then show ?thesis by simp
    next
      case (cons m a' as' s1)
      then have eq: "a' = a" "as' = as" by simp_all
      let ?s0 = "s\<lparr>accepters := (accepters s)(a := (accepters s a)\<lparr>a_deps :=
                                 Set_Remove i (a_deps (accepters s a))\<rparr>)\<rparr>"
      have u: "Update m a ?s0 = Done s1" using cons(3) eq by simp
      have rest: "fulfillAccepters n i as s1 = Done s'" using cons(4) eq by simp
      note dp = GI_dep [OF Cons.prems(2,3) nf]
      have e1: "errs s1 = None" using errs_fulfillAccepters [OF rest e] .
      have "GI {} (F \<union> {i} \<times> set as) {} x rx y ry s1"
        using U [OF cons(1) [symmetric] u e1 dp] .
      then show ?thesis using Cons.IH [OF rest] Cons.prems(3) by simp
    qed
  qed
  have up: "GI {} F {} x rx y ry s'"
    if FA: "\<And>i as s s' F. fulfillAccepters n i as s = Done s' \<Longrightarrow> errs s' = None \<Longrightarrow>
             GI {} (F \<union> {i} \<times> set as) {} x rx y ry s \<Longrightarrow> distinct as \<Longrightarrow> i \<notin> fst ` F \<Longrightarrow>
             GI {} F {} x rx y ry s'"
      and run: "Update n a s = Done s'" and e: "errs s' = None"
      and g: "GI {} F {} x rx y ry s" and pu: "PreU F a s"
    for n a s s' F
    using run
  proof (cases rule: Update_Done_cases)
    case skip
    then show ?thesis using g by simp
  next
    case (fail_ins e1 s1)
    then show ?thesis using e by (simp add: errs_Add_errs split: if_splits)
  next
    case (fail_outs e1 s1 s2)
    then show ?thesis using e by (simp add: errs_Add_errs split: if_splits)
  next
    case (fail_accept e1 s1 s2)
    then show ?thesis using e by (simp add: errs_Add_errs split: if_splits)
  next
    case (ok s1 s2 s4)
    let ?fn = "fnA s a"
    let ?h = "idOf s ?fn"
    have e4: "errs s4 = None" using e ok(8) by simp
    have e3: "errs (announceAccept ?fn (s2\<lparr>status := (status s2)(?h := Accepted)\<rparr>)) = None"
      using errs_fulfillAccepters [OF ok(7) e4] .
    then have e2: "errs s2 = None" by simp
    note fi = GI_fire [OF g pu ok(1,2,4,5) e2]
    have "GI {} F {} x rx y ry s4" using FA [OF ok(7) e4 fi] .
    then show ?thesis unfolding ok(8) by (rule GI_forget)
  qed
  show ?thesis
  proof (induction n)
    case 0
    have F0: "\<And>i as s s' F. fulfillAccepters 0 i as s = Done s' \<Longrightarrow> errs s' = None \<Longrightarrow>
             GI {} (F \<union> {i} \<times> set as) {} x rx y ry s \<Longrightarrow> distinct as \<Longrightarrow> i \<notin> fst ` F \<Longrightarrow>
             GI {} F {} x rx y ry s'"
      by (rule fa) simp_all
    show ?case using F0 up [of 0] by blast
  next
    case (Suc n)
    have FS: "\<And>i as s s' F. fulfillAccepters (Suc n) i as s = Done s' \<Longrightarrow> errs s' = None \<Longrightarrow>
             GI {} (F \<union> {i} \<times> set as) {} x rx y ry s \<Longrightarrow> distinct as \<Longrightarrow> i \<notin> fst ` F \<Longrightarrow>
             GI {} F {} x rx y ry s'"
      by (rule fa) (use Suc in auto)
    show ?case using FS up [of "Suc n"] by blast
  qed
qed

lemma GI_Update:
  assumes "Update n a s = Done s'" and "errs s' = None" and "GI {} F {} x rx y ry s"
    and "PreU F a s"
  shows "GI {} F {} x rx y ry s'"
  using GI_Update_aux [of n x rx y ry] assms by blast

subsection \<open>The invariant through a poll\<close>

lemma set_Blocker_store [simp]: "set (Blocker_store b ds r) = set b \<union> (\<lambda>d. (d, r)) ` set ds"
  by (auto simp: Blocker_store_def)

lemma distinct_fold_Set_Add: "distinct ys \<Longrightarrow> distinct (fold Set_Add xs ys)"
  by (induction xs arbitrary: ys) (auto simp: Set_Add_def)

lemma set_fold_Set_Add: "set (fold Set_Add xs ys) = set xs \<union> set ys"
  by (induction xs arbitrary: ys) auto

lemma set_undecided [simp]:
  "set (undecided s t) = {d \<in> set (Dependencies t). \<not> Decided (status s d)}"
  by (auto simp: undecided_def set_fold_Set_Add)

lemma distinct_undecided [simp]: "distinct (undecided s t)"
  by (simp add: undecided_def distinct_fold_Set_Add)

lemma distinct_Blocker_store:
  "distinct b \<Longrightarrow> distinct ds \<Longrightarrow> r \<notin> snd ` set b \<Longrightarrow> distinct (Blocker_store b ds r)"
  by (force simp: Blocker_store_def distinct_map inj_on_def)

lemma registerAccepter_more_fields [simp]:
  "pendingAccepts (registerAccepter fnr s) =
     Blocker_store (pendingAccepts s) (undecided s (tx (nodes s fnr))) (nextRef s)"
  "accepters (registerAccepter fnr s) =
     (accepters s)(nextRef s := \<lparr>a_deps = undecided s (tx (nodes s fnr)), a_rejected = False, a_fn = fnr\<rparr>)"
  by (simp_all add: registerAccepter_def Let_def undecided_def)

lemma nbrs_registerAccepter [simp]: "nbrs (registerAccepter fnr s) = nbrs s"
  by (rule ext) (simp add: nbrs_def)

lemma rejOK_D:
  assumes "rejOK H s" and "(d, b) \<in> set (pendingRejects s)"
  shows "b < nextRef s" "fnR s b < nextRef s"
    "d \<in> set (Dependencies (tx (nodes s (fnR s b))))" "status s d \<noteq> Rejected"
    "\<not> r_rejected (rejectors s b) \<Longrightarrow> rlive H s (fnR s b)"
  using assms unfolding rejOK_def by blast+

lemma GI_registerAccepter:
  assumes g: "GI {} {} {} x rx y ry s" and l: "txs s w = Some fnr"
    and np: "\<not> pendingAccept (nodes s fnr)"
  shows "GI {} {} {} x rx y ry (registerAccepter fnr s)"
    and "PreU {} (nextRef s) (registerAccepter fnr s)"
proof -
  let ?s = "registerAccepter fnr s"
  let ?a = "nextRef s"
  let ?ds = "undecided s (tx (nodes s fnr))"
  note d = GI_D [OF g]
  have id: "idOf s fnr = w" using Inv2D(1) [OF d(10) l] .
  have lt: "fnr < nextRef s" using Inv2D(2) [OF d(10) l] .
  have t: "tx (nodes ?s r) = tx (nodes s r)" for r by simp
  have w: "waiting {} ?s = waiting {} s \<union> (\<lambda>d. (d, ?a)) ` set ?ds"
    unfolding waiting_def by simp
  have old: "a < nextRef s \<and> fnA s a < nextRef s \<and> pendingAccept (nodes s (fnA s a)) \<and>
      d' \<in> set (a_deps (accepters s a))" if "(d', a) \<in> waiting {} s" for d' a
    using regOK_D(2,3) [OF d(3) that] by simp
  have ne: "a \<noteq> ?a" "fnA s a \<noteq> fnr" if "(d', a) \<in> waiting {} s" for d' a
    using old [OF that] np by auto
  have p: "poisoned {} ?s = poisoned {} s" by (rule poisoned_cong) simp_all
  have rl: "rlive {} ?s = rlive {} s" by (rule rlive_cong) simp_all
  show "GI {} {} {} x rx y ry ?s"
  proof (rule GI_I)
    show "Inv3 {} ?s" using d(1) by (rule Inv3_registerAccepter)
    show "procOK ?s" using d(2) by (simp add: procOK_def)
    show "regOK {} ?s"
      unfolding regOK_def w
    proof (intro conjI allI impI)
      have "?a \<notin> snd ` set (pendingAccepts s)"
        using ne(1) unfolding waiting_def by force
      then show "distinct (pendingAccepts ?s)"
        using regOK_D(1) [OF d(3)] by (simp add: distinct_Blocker_store)
    next
      fix d' a assume "(d', a) \<in> waiting {} s \<union> (\<lambda>d. (d, ?a)) ` set ?ds"
      then consider "(d', a) \<in> waiting {} s" | "a = ?a" "d' \<in> set ?ds" by auto
      then have "d' \<in> set (a_deps (accepters ?s a)) \<and> a < nextRef ?s \<and> fnA ?s a < nextRef ?s \<and>
        pendingAccept (nodes ?s (fnA ?s a))"
      proof cases
        case 1
        then show ?thesis using old [OF 1] ne [OF 1] by simp
      next
        case 2
        then show ?thesis using lt by simp
      qed
      then show "d' \<in> set (a_deps (accepters ?s a))" "a < nextRef ?s" "fnA ?s a < nextRef ?s"
        "pendingAccept (nodes ?s (fnA ?s a))" by blast+
    next
      fix d1 a1 d2 a2
      assume 1: "(d1, a1) \<in> waiting {} s \<union> (\<lambda>d. (d, ?a)) ` set ?ds"
        and 2: "(d2, a2) \<in> waiting {} s \<union> (\<lambda>d. (d, ?a)) ` set ?ds"
        and eq: "fnA ?s a1 = fnA ?s a2"
      show "a1 = a2"
      proof (cases "a1 = ?a")
        case True
        show ?thesis
        proof (cases "a2 = ?a")
          case False
          then have w2: "(d2, a2) \<in> waiting {} s" using 2 by auto
          show ?thesis using ne(2) [OF w2] eq True False by simp
        qed (use True in simp)
      next
        case False
        then have w1: "(d1, a1) \<in> waiting {} s" using 1 by auto
        show ?thesis
        proof (cases "a2 = ?a")
          case True
          then show ?thesis using ne(2) [OF w1] eq False by simp
        next
          case f2: False
          then have w2: "(d2, a2) \<in> waiting {} s" using 2 by auto
          show ?thesis using regOK_D(6) [OF d(3) w1 w2] eq False f2 by simp
        qed
      qed
    qed simp_all
    show "accOK {} {} ?s"
      unfolding accOK_def w p
    proof (intro allI impI)
      fix d' a assume "(d', a) \<in> waiting {} s \<union> (\<lambda>d. (d, ?a)) ` set ?ds"
      then consider "(d', a) \<in> waiting {} s" | "a = ?a" by auto
      then show "txs ?s (idOf ?s (fnA ?s a)) = Some (fnA ?s a) \<or> a_rejected (accepters ?s a) \<or>
        poisoned {} s (fnA ?s a)"
      proof cases
        case 1
        have "txs s (idOf s (fnA s a)) = Some (fnA s a) \<or> a_rejected (accepters s a) \<or>
          poisoned {} s (fnA s a)" using d(4) 1 unfolding accOK_def by blast
        then show ?thesis using ne(1) [OF 1] by auto
      next
        case 2
        then show ?thesis using l id by simp
      qed
    qed
    show "rejOK {} ?s"
      unfolding rejOK_def rl
    proof (intro allI impI)
      fix d' b assume "(d', b) \<in> set (pendingRejects ?s)"
      then have e: "(d', b) \<in> set (pendingRejects s)" by simp
      show "b < nextRef ?s \<and> fnR ?s b < nextRef ?s \<and>
        d' \<in> set (Dependencies (tx (nodes ?s (fnR ?s b)))) \<and> status ?s d' \<noteq> Rejected \<and>
        (\<not> r_rejected (rejectors ?s b) \<longrightarrow> rlive {} s (fnR ?s b))"
        using rejOK_D [OF d(5) e] by auto
    qed
    show "waitOK {} ?s"
      unfolding waitOK_def w
    proof (intro allI impI)
      fix d1 b d2 a
      assume e: "(d1, b) \<in> set (pendingRejects ?s)" and nr: "\<not> r_rejected (rejectors ?s b)"
        and m: "(d2, a) \<in> waiting {} s \<union> (\<lambda>d. (d, ?a)) ` set ?ds" and fn: "fnA ?s a = fnR ?s b"
      have e0: "(d1, b) \<in> set (pendingRejects s)" "\<not> r_rejected (rejectors s b)"
        using e nr by simp_all
      from m consider "(d2, a) \<in> waiting {} s" | "a = ?a" by auto
      then show "a_rejected (accepters ?s a) \<or> (d1, a) \<in> set (pendingAccepts ?s) \<or>
          status ?s d1 = Accepted"
      proof cases
        case 1
        have "fnA s a = fnR s b" using fn ne(1) [OF 1] by simp
        then have "a_rejected (accepters s a) \<or> (d1, a) \<in> set (pendingAccepts s) \<or>
          status s d1 = Accepted" using d(6) e0 1 unfolding waitOK_def by blast
        then show ?thesis using ne(1) [OF 1] by auto
      next
        case 2
        then have f: "fnR s b = fnr" using fn by simp
        have "d1 \<in> set (Dependencies (tx (nodes s fnr)))" "status s d1 \<noteq> Rejected"
          using d(5) e0(1) f unfolding rejOK_def by auto
        then show ?thesis using 2 by (cases "status s d1") (auto simp: Decided_def)
      qed
    qed
    show "utxoOK {} ?s" using d(7) by (subst utxoOK_cong [of ?s s]) simp_all
    show "edgeOK ?s" using d(8) by (subst edgeOK_cong [of ?s s]) simp_all
    show "pairOK {} x rx y ry ?s" using d(9) unfolding pairOK_def rl by auto
  qed
  show "PreU {} ?a ?s"
    unfolding PreU_def
  proof (intro impI conjI allI)
    show "txs ?s (idOf ?s (fnA ?s ?a)) = Some (fnA ?s ?a) \<or> poisoned {} ?s (fnA ?s ?a)"
      using l id by simp
    fix d' a' assume de: "a_deps (accepters ?s ?a) = []" and m: "(d', a') \<in> waiting {} ?s"
    have "?ds = []" using de by simp
    then have "(d', a') \<in> waiting {} s" using m unfolding w by simp
    then show "fnA ?s a' \<noteq> fnA ?s ?a" using ne by simp
  qed
qed

text \<open>Steps that change no more than the vote counters of the nodes and the direction of
  edges.\<close>

lemma GI_grow:
  assumes g: "GI {} F {} x rx y ry s" and i3: "Inv3 {} s'"
    and f: "txs s' = txs s" "status s' = status s" "utxos s' = utxos s" "nextRef s' = nextRef s"
      "pendingAccepts s' = pendingAccepts s" "pendingRejects s' = pendingRejects s"
      "accepters s' = accepters s" "rejectors s' = rejectors s"
    and n: "\<And>r. tx (nodes s' r) = tx (nodes s r) \<and>
               pendingAccept (nodes s' r) = pendingAccept (nodes s r) \<and> nbrs s r \<subseteq> nbrs s' r"
  shows "GI {} F {} x rx y ry s'"
proof (rule GI_I [OF i3])
  note d = GI_D [OF g]
  have t: "tx (nodes s' r) = tx (nodes s r)" "pendingAccept (nodes s' r) = pendingAccept (nodes s r)"
    for r using n by simp_all
  have w: "waiting F s' = waiting F s" by (simp add: waiting_def f)
  have rl: "rlive {} s' = rlive {} s" by (rule rlive_cong) (simp_all add: f t)
  have po: "poisoned {} s' r" if "poisoned {} s r" for r
    using that n [of r] unfolding poisoned_def f by blast
  show "procOK s'" using d(2) by (simp add: procOK_def f)
  show "regOK F s'" using d(3) by (subst regOK_cong [of s' s]) (simp_all add: f t)
  show "accOK {} F s'"
    unfolding accOK_def w
  proof (intro allI impI)
    fix d' a assume "(d', a) \<in> waiting F s"
    then have "txs s (idOf s (fnA s a)) = Some (fnA s a) \<or> a_rejected (accepters s a) \<or>
        poisoned {} s (fnA s a)" using d(4) unfolding accOK_def by blast
    then show "txs s' (idOf s' (fnA s' a)) = Some (fnA s' a) \<or> a_rejected (accepters s' a) \<or>
        poisoned {} s' (fnA s' a)" using po by (auto simp: f t)
  qed
  show "rejOK {} s'" using d(5) unfolding rejOK_def rl by (simp add: f t)
  show "waitOK F s'" using d(6) by (subst waitOK_cong [of s' s]) (simp_all add: f)
  show "utxoOK {} s'" using d(7) by (subst utxoOK_cong [of s' s]) (simp_all add: f t)
  show "edgeOK s'"
    unfolding edgeOK_def
  proof (intro allI impI)
    fix p q rp rq
    assume "txs s' p = Some rp" "txs s' q = Some rq" "p \<noteq> q"
      "set (InputIDs (tx (nodes s' rp))) \<inter> set (InputIDs (tx (nodes s' rq))) \<noteq> {}"
    then have "q \<in> nbrs s rp" using d(8) unfolding edgeOK_def f t by blast
    then show "q \<in> nbrs s' rp" using n by blast
  qed
  show "pairOK {} x rx y ry s'" using d(9) by (subst pairOK_cong [of s' s]) (simp_all add: f t)
qed

lemma recordVote_rest [simp]:
  "utxos (recordVote fnr s) = utxos s" "nextRef (recordVote fnr s) = nextRef s"
  "pendingAccepts (recordVote fnr s) = pendingAccepts s"
  "pendingRejects (recordVote fnr s) = pendingRejects s"
  "accepters (recordVote fnr s) = accepters s" "rejectors (recordVote fnr s) = rejectors s"
  "tx (nodes (recordVote fnr s) r) = tx (nodes s r)"
  "pendingAccept (nodes (recordVote fnr s) r) = pendingAccept (nodes s r)"
  "ins (nodes (recordVote fnr s) r) = ins (nodes s r)"
  "outs (nodes (recordVote fnr s) r) = outs (nodes s r)"
  by (simp_all add: recordVote_def Let_def)

lemma GI_recordVote:
  assumes "GI {} F {} x rx y ry s"
  shows "GI {} F {} x rx y ry (recordVote fnr s)"
  using assms
proof (rule GI_grow)
  show "Inv3 {} (recordVote fnr s)" using Inv3_recordVote [OF GI_D(1) [OF assms]] .
qed (simp_all add: nbrs_def)

lemma GI_redirectEdge:
  assumes g: "GI {} F {} x rx y ry s" and l: "txs s (idOf s fnr) = Some fnr"
    and r: "redirectEdge fnr c s = Done s'"
  shows "GI {} F {} x rx y ry s'"
proof -
  obtain cr where cr: "txs s c = Some cr"
    using r unfolding redirectEdge_def by (auto split: option.splits)
  show ?thesis
  proof (cases "bias (nodes s cr) < bias (nodes s fnr)")
    case False
    then show ?thesis using g r redirectEdge_kept [OF cr] by simp
  next
    case True
    have ne: "cr \<noteq> fnr" using True by auto
    note s' = r [unfolded redirectEdge_inverted [OF cr True], simplified]
    show ?thesis
      using g
    proof (rule GI_grow)
      show "Inv3 {} s'" using Inv3_redirectEdge [OF GI_D(1) [OF g] l r] .
      show "tx (nodes s' r') = tx (nodes s r') \<and>
               pendingAccept (nodes s' r') = pendingAccept (nodes s r') \<and> nbrs s r' \<subseteq> nbrs s' r'" for r'
        unfolding s' [symmetric] nbrs_def using ne by (auto simp: invertedNode_def)
    qed (simp_all add: s' [symmetric])
  qed
qed

lemma GI_redirectLoop:
  assumes "redirectLoop fnr cs s = Done s'" and "GI {} F {} x rx y ry s"
    and "txs s (idOf s fnr) = Some fnr"
  shows "GI {} F {} x rx y ry s'"
  using assms
proof (induction cs arbitrary: s)
  case Nil
  then show ?case by simp
next
  case (Cons c cs)
  then obtain s1 where 1: "redirectEdge fnr c s = Done s1" and 2: "redirectLoop fnr cs s1 = Done s'"
    by (auto split: result.splits)
  have g1: "GI {} F {} x rx y ry s1" using GI_redirectEdge [OF Cons.prems(2,3) 1] .
  have "txs s1 (idOf s1 fnr) = Some fnr"
    using redirectEdge_votes [OF 1, of fnr] Cons.prems(3) by simp
  then show ?case using Cons.IH [OF 2 g1] by simp
qed

lemma GI_pollNode:
  assumes "pollNode fnr s = Done (stop, s')" and g: "GI {} {} {} x rx y ry s"
    and l: "txs s w = Some fnr" and e: "errs s' = None"
  shows "GI {} {} {} x rx y ry s'"
proof -
  note d = GI_D [OF g]
  have w: "idOf s fnr = w" using Inv2D(1) [OF d(10) l] .
  let ?s1 = "recordVote fnr s"
  have g1: "GI {} {} {} x rx y ry ?s1" using g by (rule GI_recordVote)
  have l1: "txs ?s1 w = Some fnr" using l by simp
  have tr: "txs ?s1 (idOf ?s1 fnr) = Some fnr" using l w by simp
  from assms(1) show ?thesis
  proof (cases rule: pollNode_cases)
    case (deferred s2)
    have np: "\<not> pendingAccept (nodes ?s1 fnr)" using deferred(1) unfolding shouldAccept_def by simp
    have u: "Update (length (pendingAccepts (registerAccepter fnr ?s1)))
               (nextRef ?s1) (registerAccepter fnr ?s1) = Done s2"
      using deferred(2) unfolding deferAcceptance_def Let_def .
    note ra = GI_registerAccepter [OF g1 l1 np]
    have g2: "errs s2 = None \<Longrightarrow> GI {} {} {} x rx y ry s2"
      using GI_Update [OF u _ ra] by blast
    from deferred(3) show ?thesis
    proof (elim disjE conjE)
      assume a: "errs s2 = None" "\<not> accepted (nodes s2 fnr)" and re: "redirectEdges fnr s2 = Done s'"
      have "s2 = registerAccepter fnr ?s1"
        using deferAcceptance_cases [OF deferred(2)] a by blast
      then have "txs s2 (idOf s2 fnr) = Some fnr" using l w by simp
      then show ?thesis
        using GI_redirectLoop [OF re [unfolded redirectEdges_def] g2 [OF a(1)]] by simp
    qed (use g2 e in simp_all)
  next
    case redirected
    from redirected(3) show ?thesis
    proof (elim disjE conjE)
      assume re: "redirectEdges fnr ?s1 = Done s'"
      show ?thesis using GI_redirectLoop [OF re [unfolded redirectEdges_def] g1 tr] .
    qed (use g1 in simp)
  qed
qed

lemma GI_pollLoop:
  assumes "pollLoop ws s = Done (e, s')" and "GI {} {} {} x rx y ry s" and "errs s' = None"
  shows "GI {} {} {} x rx y ry s'"
  using assms
proof (induction ws arbitrary: s)
  case Nil
  then show ?case by simp
next
  case (Cons w ws)
  show ?case
  proof (cases "txs s w")
    case None
    then show ?thesis using Cons by simp
  next
    case (Some fnr)
    then obtain stop s1 where p: "pollNode fnr s = Done (stop, s1)"
      and rest: "if stop then s' = s1 else pollLoop ws s1 = Done (e, s')"
      using Cons.prems(1) by (auto split: result.splits if_splits)
    show ?thesis
    proof (cases stop)
      case True
      then show ?thesis using rest GI_pollNode [OF p Cons.prems(2) Some] Cons.prems(3) by simp
    next
      case False
      then have l: "pollLoop ws s1 = Done (e, s')" using rest by simp
      have "errs s1 = None" using pollLoop_keeps [OF l, of 0] Cons.prems(3) by auto
      then have "GI {} {} {} x rx y ry s1" using GI_pollNode [OF p Cons.prems(2) Some] by simp
      then show ?thesis using Cons.IH [OF l _ Cons.prems(3)] by simp
    qed
  qed
qed

lemma GI_RecordPoll:
  assumes "RecordPoll votes s = Done (e, s')" and g: "GI {} {} {} x rx y ry s" and "errs s' = None"
  shows "GI {} {} {} x rx y ry s'"
proof -
  have "GI {} {} {} x rx y ry (s\<lparr>currentVote := wrap (currentVote s + 1)\<rparr>)"
    using g
  proof (rule GI_grow)
    show "Inv3 {} (s\<lparr>currentVote := wrap (currentVote s + 1)\<rparr>)"
      using GI_D(1) [OF g] by (rule Inv3_same) simp_all
  qed (simp_all add: nbrs_def)
  then show ?thesis
    using GI_pollLoop [OF assms(1) [unfolded RecordPoll_def Let_def] _ assms(3)] by simp
qed

subsection \<open>The invariant through Add\<close>

lemma markConflicts_rest:
  "markConflicts i cs s = Done s' \<Longrightarrow>
     pendingAccepts s' = pendingAccepts s \<and> pendingRejects s' = pendingRejects s \<and>
     accepters s' = accepters s \<and> rejectors s' = rejectors s \<and>
     (\<forall>r. pendingAccept (nodes s' r) = pendingAccept (nodes s r))"
  by (induction cs arbitrary: s) (auto split: option.splits)

lemma addInputs_rest:
  "addInputs i us os s = Done (os', s') \<Longrightarrow>
     pendingAccepts s' = pendingAccepts s \<and> pendingRejects s' = pendingRejects s \<and>
     accepters s' = accepters s \<and> rejectors s' = rejectors s \<and>
     (\<forall>r. pendingAccept (nodes s' r) = pendingAccept (nodes s r))"
proof (induction us arbitrary: os s)
  case Nil
  then show ?case by simp
next
  case (Cons u us)
  define sp where "sp = (case utxos s u of None \<Rightarrow> [] | Some sp \<Rightarrow> sp)"
  obtain s1 where m: "markConflicts i sp s = Done s1"
    and a: "addInputs i us (Set_Union os sp) (s1\<lparr>utxos := (utxos s1)(u \<mapsto> Set_Add i sp)\<rparr>)
            = Done (os', s')"
    using Cons.prems unfolding sp_def by (auto simp: Let_def split: result.splits)
  show ?case using Cons.IH [OF a] markConflicts_rest [OF m] by simp
qed

lemma addInputs_utxos:
  "addInputs i us os s = Done (os', s') \<Longrightarrow>
     set os \<subseteq> set os' \<and>
     (\<forall>u sp. utxos s u = Some sp \<longrightarrow> (\<exists>sp'. utxos s' u = Some sp' \<and> set sp \<subseteq> set sp')) \<and>
     (\<forall>u \<in> set us. (\<exists>sp'. utxos s' u = Some sp' \<and> i \<in> set sp') \<and>
                    (\<forall>sp. utxos s u = Some sp \<longrightarrow> set sp \<subseteq> set os'))"
proof (induction us arbitrary: os s)
  case Nil
  then show ?case by simp
next
  case (Cons u us)
  define sp where "sp = (case utxos s u of None \<Rightarrow> [] | Some sp \<Rightarrow> sp)"
  obtain s1 where m: "markConflicts i sp s = Done s1"
    and a: "addInputs i us (Set_Union os sp) (s1\<lparr>utxos := (utxos s1)(u \<mapsto> Set_Add i sp)\<rparr>)
            = Done (os', s')"
    using Cons.prems unfolding sp_def by (auto simp: Let_def split: result.splits)
  let ?s2 = "s1\<lparr>utxos := (utxos s1)(u \<mapsto> Set_Add i sp)\<rparr>"
  have u1: "utxos s1 = utxos s" using markConflicts_fields [OF m] by simp
  note ih = Cons.IH [OF a]
  have os: "set os \<subseteq> set os'" "set sp \<subseteq> set os'" using ih by auto
  have mono: "\<exists>sp'. utxos s' v = Some sp' \<and> set q \<subseteq> set sp'" if "utxos ?s2 v = Some q" for v q
    using ih that by blast
  have grow: "\<exists>sp'. utxos s' v = Some sp' \<and> set q \<subseteq> set sp'" if "utxos s v = Some q" for v q
  proof (cases "v = u")
    case True
    then have "sp = q" using that unfolding sp_def by simp
    then have "utxos ?s2 v = Some (Set_Add i q)" using True by simp
    from mono [OF this] show ?thesis by auto
  next
    case False
    then have "utxos ?s2 v = Some q" using that u1 by simp
    from mono [OF this] show ?thesis .
  qed
  have here: "\<exists>sp'. utxos s' u = Some sp' \<and> i \<in> set sp'"
    using mono [of u "Set_Add i sp"] by auto
  have cov: "set q \<subseteq> set os'" if "utxos s u = Some q" for q
    using that os(2) unfolding sp_def by simp
  have later: "(\<exists>sp'. utxos s' v = Some sp' \<and> i \<in> set sp') \<and>
                    (\<forall>q. utxos s v = Some q \<longrightarrow> set q \<subseteq> set os')" if "v \<in> set us" for v
  proof (cases "v = u")
    case True
    then show ?thesis using here cov by simp
  next
    case False
    then have "utxos ?s2 v = utxos s v" using u1 by simp
    then show ?thesis using ih that by auto
  qed
  show ?case using os(1) grow here cov later by auto
qed

lemma insertNode_rest [simp]:
  "pendingRejects (insertNode t os s) =
     Blocker_store (pendingRejects s) (undecided s t) (Suc (nextRef s))"
  "rejectors (insertNode t os s) =
     (rejectors s)(Suc (nextRef s) := \<lparr>r_deps = undecided s t, r_rejected = False, r_fn = nextRef s\<rparr>)"
  by (simp_all add: insertNode_def Let_def undecided_def)

subsection \<open>The invariant through the insertion of a node\<close>

lemma GI_decide:
  assumes g: "GI {} {} {} x rx y ry s" and nt: "txs s i = None" and nd: "\<not> Decided (status s i)"
    and f: "txs s' = txs s" "status s' = (status s)(i := Accepted)" "utxos s' = utxos s"
      "nextRef s' = nextRef s" "pendingAccepts s' = pendingAccepts s"
      "pendingRejects s' = pendingRejects s" "accepters s' = accepters s"
      "rejectors s' = rejectors s" "nodes s' = nodes s" "preferences s' = preferences s"
  shows "GI {} {} {} x rx y ry s'"
proof (rule GI_I)
  note d = GI_D [OF g]
  have n: "nbrs s' = nbrs s" by (rule ext) (simp add: nbrs_def f)
  have w: "waiting {} s' = waiting {} s" by (simp add: waiting_def f)
  have dec: "Decided (status s z) \<Longrightarrow> status s' z = status s z" for z using nd f by auto
  have go: "gone {} s' z" if "gone {} s z" for z
    using that dec [of z] unfolding gone_def f by auto
  have po: "poisoned {} s' r" if p: "poisoned {} s r" for r
  proof -
    obtain z where z: "z \<in> nbrs s r" "txs s z = None" "Decided (status s z)"
      using p unfolding poisoned_def by auto
    then have "Decided (status s' z)" using dec [of z] by simp
    then show ?thesis using z unfolding poisoned_def f(1) n by blast
  qed
  have rl: "rlive {} s' r" if "rlive {} s r" for r
    using that go unfolding rlive_def f by auto
  show "Inv3 {} s'" using d(1) by (rule Inv3_same) (auto simp: f Decided_def)
  show "procOK s'" using d(2) nt unfolding procOK_def f by auto
  show "regOK {} s'" using d(3) unfolding regOK_def w by (simp add: f)
  show "accOK {} {} s'" using d(4) po unfolding accOK_def w by (auto simp: f)
  show "rejOK {} s'"
    unfolding rejOK_def
  proof (intro allI impI)
    fix d' b assume "(d', b) \<in> set (pendingRejects s')"
    then have e: "(d', b) \<in> set (pendingRejects s)" by (simp add: f)
    show "b < nextRef s' \<and> fnR s' b < nextRef s' \<and>
        d' \<in> set (Dependencies (tx (nodes s' (fnR s' b)))) \<and> status s' d' \<noteq> Rejected \<and>
        (\<not> r_rejected (rejectors s' b) \<longrightarrow> rlive {} s' (fnR s' b))"
      using rejOK_D [OF d(5) e] rl by (auto simp: f)
  qed
  show "waitOK {} s'" using d(6) unfolding waitOK_def w by (auto simp: f)
  show "utxoOK {} s'" using d(7) by (subst utxoOK_cong [of s' s]) (simp_all add: f)
  show "edgeOK s'" using d(8) by (subst edgeOK_cong [of s' s]) (simp_all add: f n)
  show "pairOK {} x rx y ry s'"
    unfolding pairOK_def
  proof (intro impI)
    assume ne: "x \<noteq> y"
    then have a: "rx < nextRef s" "ry < nextRef s" "idOf s rx = x" "idOf s ry = y"
      "set (InputIDs (tx (nodes s rx))) \<inter> set (InputIDs (tx (nodes s ry))) \<noteq> {}"
      "rlive {} s rx" "rlive {} s ry"
      "status s x = Accepted \<longrightarrow> status s y = Rejected"
      "status s y = Accepted \<longrightarrow> status s x = Rejected"
      using d(9) unfolding pairOK_def by blast+
    have "x \<noteq> i" "y \<noteq> i" using a(3,4,6,7) nt nd unfolding rlive_def gone_def by auto
    then show "rx < nextRef s' \<and> ry < nextRef s' \<and> idOf s' rx = x \<and> idOf s' ry = y \<and>
        set (InputIDs (tx (nodes s' rx))) \<inter> set (InputIDs (tx (nodes s' ry))) \<noteq> {} \<and>
        rlive {} s' rx \<and> rlive {} s' ry \<and>
        (status s' x = Accepted \<longrightarrow> status s' y = Rejected) \<and>
        (status s' y = Accepted \<longrightarrow> status s' x = Rejected)"
      using a rl by (simp add: f)
  qed
qed

lemma GI_insert:
  assumes g: "GI {} {} {} x rx y ry s" and nt: "txs s (ID t) = None"
    and nd: "\<not> Decided (status s (ID t))"
    and a: "addInputs (ID t) (InputIDs t) [] s1 = Done (os, s2)"
    and s1: "txs s1 = txs s" "status s1 = status s" "utxos s1 = utxos s" "nextRef s1 = nextRef s"
      "pendingAccepts s1 = pendingAccepts s" "pendingRejects s1 = pendingRejects s"
      "accepters s1 = accepters s" "rejectors s1 = rejectors s" "nodes s1 = nodes s"
    and i3: "Inv3 {} (insertNode t os s2)"
  shows "GI {} {} {} x rx y ry (insertNode t os s2)"
proof (rule GI_I [OF i3])
  note d = GI_D [OF g]
  let ?s = "insertNode t os s2"
  let ?r0 = "nextRef s"
  let ?b0 = "Suc (nextRef s)"
  note af = addInputs_fields [OF a]
  note an = addInputs_nodes [OF a]
  note ar = addInputs_rest [OF a]
  note au = addInputs_utxos [OF a]
  obtain C where C0: "set os = set [] \<union> C" and Cd: "C \<subseteq> dom (txs s1)"
    and Ci: "\<And>r. set (ins (nodes s2 r)) =
          set (ins (nodes s1 r)) \<union> (if \<exists>c \<in> C. txs s1 c = Some r then {ID t} else {})"
    using addInputs_ins [OF a] by blast
  have C: "C = set os" using C0 by simp
  have f: "txs ?s = (txs s)(ID t \<mapsto> ?r0)" "status ?s = status s" "nextRef ?s = Suc (Suc ?r0)"
    "pendingAccepts ?s = pendingAccepts s" "accepters ?s = accepters s"
    "pendingRejects ?s = Blocker_store (pendingRejects s) (undecided s t) ?b0"
    "utxos ?s = utxos s2"
    using af ar s1 by (simp_all add: undecided_def)
  have rj: "rejectors ?s b = (if b = ?b0 then \<lparr>r_deps = undecided s t, r_rejected = False, r_fn = ?r0\<rparr>
      else rejectors s b)" for b
    using af ar s1 by (simp add: undecided_def)
  have nd0: "tx (nodes ?s ?r0) = t" "nbrs ?s ?r0 = set os"
    using af s1 by (simp_all add: nbrs_def newNode_def)
  have old: "tx (nodes ?s r) = tx (nodes s r)" "pendingAccept (nodes ?s r) = pendingAccept (nodes s r)"
    "nbrs ?s r = nbrs s r \<union> (if \<exists>c \<in> set os. txs s c = Some r then {ID t} else {})"
    if "r \<noteq> ?r0" for r
    using that af an [of r] ar Ci [of r] s1 C by (auto simp: nbrs_def)
  note [simp del] = insertNode_fields insertNode_more_fields insertNode_rest
  have sub: "nbrs s r \<subseteq> nbrs ?s r" if "r \<noteq> ?r0" for r using old(3) [OF that] by auto
  have lt: "r < ?r0" if "txs s j = Some r" for j r using Inv2D(2) [OF d(10) that] .
  have w: "waiting {} ?s = waiting {} s" by (simp only: waiting_def f)
  have stay: "txs ?s j = txs s j" if "j \<noteq> ID t" for j using that by (simp add: f)
  have go: "gone {} ?s z" if "gone {} s z" for z
    using that nd unfolding gone_def f by auto
  have rl: "rlive {} ?s r" if "rlive {} s r" "r < ?r0" for r
  proof -
    have r: "r \<noteq> ?r0" using that(2) by simp
    from that(1) show ?thesis unfolding rlive_def old(1) [OF r]
    proof
      assume l: "txs s (idOf s r) = Some r"
      then have "idOf s r \<noteq> ID t" using nt by auto
      then show "txs ?s (idOf s r) = Some r \<or> gone {} ?s (idOf s r)" using l stay by simp
    next
      assume "gone {} s (idOf s r)"
      then show "txs ?s (idOf s r) = Some r \<or> gone {} ?s (idOf s r)" using go by blast
    qed
  qed
  have po: "poisoned {} ?s r" if p: "poisoned {} s r" and q: "r < ?r0" for r
  proof -
    obtain z where z: "z \<in> nbrs s r" "txs s z = None" "Decided (status s z)"
      using p unfolding poisoned_def by auto
    have "z \<noteq> ID t" using z(3) nd by auto
    then have "txs ?s z = None" using z(2) stay by simp
    moreover have "z \<in> nbrs ?s r" using sub [of r] q z(1) by auto
    moreover have "Decided (status ?s z)" using z(3) by (simp add: f)
    ultimately show ?thesis unfolding poisoned_def by blast
  qed
  have pr: "status s (ID t) = Processing" using nd by (cases "status s (ID t)") (auto simp: Decided_def)
  show "procOK ?s"
    unfolding procOK_def f
  proof (intro allI impI)
    fix j r assume "((txs s)(ID t \<mapsto> ?r0)) j = Some r"
    then show "status s j = Processing"
      using d(2) pr unfolding procOK_def by (cases "j = ID t") auto
  qed
  show "regOK {} ?s"
    unfolding regOK_def w
  proof (intro conjI allI impI)
    show "distinct (pendingAccepts ?s)" using regOK_D(1) [OF d(3)] by (simp add: f)
  next
    fix d' a' assume m: "(d', a') \<in> waiting {} s"
    note o = regOK_D(2,3) [OF d(3) m]
    have ne: "fnA s a' \<noteq> ?r0" using o by simp
    show "d' \<in> set (a_deps (accepters ?s a'))" "a' < nextRef ?s" "fnA ?s a' < nextRef ?s"
      "pendingAccept (nodes ?s (fnA ?s a'))"
      using o old(2) [OF ne] by (simp_all add: f)
  next
    fix d1 a1 d2 a2
    assume "(d1, a1) \<in> waiting {} s" "(d2, a2) \<in> waiting {} s" "fnA ?s a1 = fnA ?s a2"
    then show "a1 = a2" using regOK_D(6) [OF d(3)] by (simp add: f)
  qed simp_all
  show "accOK {} {} ?s"
    unfolding accOK_def w
  proof (intro allI impI)
    fix d' a' assume m: "(d', a') \<in> waiting {} s"
    have lt': "fnA s a' < ?r0" using regOK_D(3) [OF d(3) m] by simp
    then have ne: "fnA s a' \<noteq> ?r0" by simp
    have "txs s (idOf s (fnA s a')) = Some (fnA s a') \<or> a_rejected (accepters s a') \<or>
        poisoned {} s (fnA s a')" using d(4) m unfolding accOK_def by blast
    then have "txs ?s (idOf s (fnA s a')) = Some (fnA s a') \<or> a_rejected (accepters s a') \<or>
        poisoned {} ?s (fnA s a')"
    proof (elim disjE)
      assume l: "txs s (idOf s (fnA s a')) = Some (fnA s a')"
      then have "idOf s (fnA s a') \<noteq> ID t" using nt by auto
      then show ?thesis using l stay by simp
    qed (use po lt' in auto)
    then show "txs ?s (idOf ?s (fnA ?s a')) = Some (fnA ?s a') \<or> a_rejected (accepters ?s a') \<or>
        poisoned {} ?s (fnA ?s a')"
      using old(1) [OF ne] by (simp add: f)
  qed
  show "rejOK {} ?s"
    unfolding rejOK_def
  proof (intro allI impI)
    fix d' b assume "(d', b) \<in> set (pendingRejects ?s)"
    then consider "(d', b) \<in> set (pendingRejects s)" | "b = ?b0" "d' \<in> set (undecided s t)"
      unfolding f by auto
    then show "b < nextRef ?s \<and> fnR ?s b < nextRef ?s \<and>
        d' \<in> set (Dependencies (tx (nodes ?s (fnR ?s b)))) \<and> status ?s d' \<noteq> Rejected \<and>
        (\<not> r_rejected (rejectors ?s b) \<longrightarrow> rlive {} ?s (fnR ?s b))"
    proof cases
      case 1
      note o = rejOK_D [OF d(5) 1]
      have b: "b \<noteq> ?b0" using o(1) by simp
      have ne: "fnR s b \<noteq> ?r0" using o(2) by simp
      show ?thesis using o rl [OF _ o(2)] old(1) [OF ne] b by (simp add: f rj)
    next
      case 2
      have "rlive {} ?s ?r0" unfolding rlive_def nd0 by (simp add: f)
      then show ?thesis using 2 by (auto simp: f rj nd0 Decided_def)
    qed
  qed
  show "waitOK {} ?s"
    unfolding waitOK_def w
  proof (intro allI impI)
    fix d1 b d2 a'
    assume e: "(d1, b) \<in> set (pendingRejects ?s)" and nr: "\<not> r_rejected (rejectors ?s b)"
      and m: "(d2, a') \<in> waiting {} s" and fn: "fnA ?s a' = fnR ?s b"
    have lt': "fnA s a' < ?r0" using regOK_D(3) [OF d(3) m] by simp
    have b: "b \<noteq> ?b0" using fn lt' by (auto simp: f rj)
    then have "(d1, b) \<in> set (pendingRejects s)" "\<not> r_rejected (rejectors s b)"
      "fnA s a' = fnR s b" using e nr fn by (auto simp: f rj)
    then have "a_rejected (accepters s a') \<or> (d1, a') \<in> set (pendingAccepts s) \<or>
          status s d1 = Accepted" using d(6) m unfolding waitOK_def by blast
    then show "a_rejected (accepters ?s a') \<or> (d1, a') \<in> set (pendingAccepts ?s) \<or>
          status ?s d1 = Accepted" by (simp add: f)
  qed
  show "utxoOK {} ?s"
    unfolding utxoOK_def
  proof (intro allI impI)
    fix j r u assume l: "txs ?s j = Some r" and i: "u \<in> set (InputIDs (tx (nodes ?s r)))"
    show "\<exists>sp. utxos ?s u = Some sp \<and> j \<in> set sp"
    proof (cases "j = ID t")
      case True
      then have "r = ?r0" using l by (simp add: f)
      then have "u \<in> set (InputIDs t)" using i nd0 by simp
      then show ?thesis using au True unfolding f by blast
    next
      case False
      then have l0: "txs s j = Some r" using l by (simp add: f)
      then have "r \<noteq> ?r0" using lt by blast
      then have "u \<in> set (InputIDs (tx (nodes s r)))" using i old(1) by simp
      then obtain sp where "utxos s1 u = Some sp" "j \<in> set sp"
        using d(7) l0 unfolding utxoOK_def s1 by blast
      then show ?thesis using au unfolding f by blast
    qed
  qed
  have cover: "q \<in> set os"
    if lq: "txs s q = Some rq"
      and sh: "set (InputIDs t) \<inter> set (InputIDs (tx (nodes s rq))) \<noteq> {}" for q rq
  proof -
    obtain u where u: "u \<in> set (InputIDs t)" "u \<in> set (InputIDs (tx (nodes s rq)))" using sh by auto
    obtain sp where "utxos s1 u = Some sp" "q \<in> set sp"
      using d(7) lq u(2) unfolding utxoOK_def s1 by blast
    then show ?thesis using au u(1) by blast
  qed
  show "edgeOK ?s"
    unfolding edgeOK_def
  proof (intro allI impI)
    fix p q rp rq
    assume lp: "txs ?s p = Some rp" and lq: "txs ?s q = Some rq" and ne: "p \<noteq> q"
      and sh: "set (InputIDs (tx (nodes ?s rp))) \<inter> set (InputIDs (tx (nodes ?s rq))) \<noteq> {}"
    show "q \<in> nbrs ?s rp"
    proof (cases "p = ID t")
      case True
      then have rp: "rp = ?r0" using lp by (simp add: f)
      have lq0: "txs s q = Some rq" using lq ne True by (simp add: f)
      then have "rq \<noteq> ?r0" using lt by blast
      then have "q \<in> set os" using cover [OF lq0] sh rp nd0 old(1) by simp
      then show ?thesis using rp nd0 by simp
    next
      case False
      then have lp0: "txs s p = Some rp" using lp by (simp add: f)
      then have nrp: "rp \<noteq> ?r0" using lt by blast
      show ?thesis
      proof (cases "q = ID t")
        case True
        then have rq: "rq = ?r0" using lq by (simp add: f)
        have "set (InputIDs t) \<inter> set (InputIDs (tx (nodes s rp))) \<noteq> {}"
          using sh rq nd0 old(1) [OF nrp] by auto
        then have "p \<in> set os" using cover [OF lp0] by simp
        then show ?thesis using old(3) [OF nrp] lp0 True by auto
      next
        case f2: False
        then have lq0: "txs s q = Some rq" using lq by (simp add: f)
        then have nrq: "rq \<noteq> ?r0" using lt by blast
        have "q \<in> nbrs s rp"
          using d(8) lp0 lq0 ne sh old(1) [OF nrp] old(1) [OF nrq] unfolding edgeOK_def by simp
        then show ?thesis using sub [OF nrp] by blast
      qed
    qed
  qed
  show "pairOK {} x rx y ry ?s"
    unfolding pairOK_def
  proof (intro impI)
    assume ne: "x \<noteq> y"
    then have p: "rx < nextRef s" "ry < nextRef s" "idOf s rx = x" "idOf s ry = y"
      "set (InputIDs (tx (nodes s rx))) \<inter> set (InputIDs (tx (nodes s ry))) \<noteq> {}"
      "rlive {} s rx" "rlive {} s ry"
      "status s x = Accepted \<longrightarrow> status s y = Rejected"
      "status s y = Accepted \<longrightarrow> status s x = Rejected"
      using d(9) unfolding pairOK_def by blast+
    have n: "rx \<noteq> ?r0" "ry \<noteq> ?r0" using p(1,2) by simp_all
    show "rx < nextRef ?s \<and> ry < nextRef ?s \<and> idOf ?s rx = x \<and> idOf ?s ry = y \<and>
        set (InputIDs (tx (nodes ?s rx))) \<inter> set (InputIDs (tx (nodes ?s ry))) \<noteq> {} \<and>
        rlive {} ?s rx \<and> rlive {} ?s ry \<and>
        (status ?s x = Accepted \<longrightarrow> status ?s y = Rejected) \<and>
        (status ?s y = Accepted \<longrightarrow> status ?s x = Rejected)"
      using p rl [OF p(6) p(1)] rl [OF p(7) p(2)] old(1) [OF n(1)] old(1) [OF n(2)]
      by (simp add: f)
  qed
qed

subsection \<open>Safety under conflict along runs\<close>

lemma GI_Add:
  assumes "Add t s = Done (e, s')" and g: "GI {} {} {} x rx y ry s"
  shows "GI {} {} {} x rx y ry s'"
proof (cases "Issued t s")
  case True
  then show ?thesis using assms by (simp add: Add_def)
next
  case False
  then have nt: "txs s (ID t) = None" and nd: "\<not> Decided (status s (ID t))"
    by (auto simp: Issued_def split: if_splits)
  define s1 where "s1 = s\<lparr>dispatched := dispatched s @ [Issue (ID t)]\<rparr>"
  show ?thesis
  proof (cases "InputIDs t = []")
    case True
    have "txs s' = txs s \<and> status s' = (status s)(ID t := Accepted) \<and> utxos s' = utxos s \<and>
      nextRef s' = nextRef s \<and> pendingAccepts s' = pendingAccepts s \<and>
      pendingRejects s' = pendingRejects s \<and> accepters s' = accepters s \<and>
      rejectors s' = rejectors s \<and> nodes s' = nodes s \<and> preferences s' = preferences s"
      using assms(1) False True by (auto simp: Add_def Let_def split: option.splits)
    then show ?thesis using GI_decide [OF g nt nd, of s'] by blast
  next
    case ni: False
    obtain os s2 where a: "addInputs (ID t) (InputIDs t) [] s1 = Done (os, s2)"
      and s': "s' = insertNode t os s2"
      using assms(1) False ni unfolding Add_def s1_def [symmetric] Let_def
      by (auto split: result.splits)
    have i3: "Inv3 {} (insertNode t os s2)"
      using Inv3_Add [OF assms(1) GI_D(1) [OF g]] unfolding s' .
    show ?thesis unfolding s'
      by (rule GI_insert [OF g nt nd a _ _ _ _ _ _ _ _ _ i3]) (simp_all add: s1_def)
  qed
qed

lemma GI_Initialize: "GI {} {} {} x rx x ry (Initialize p)"
proof (rule GI_I [OF Inv3_Initialize])
  show "pairOK {} x rx x ry (Initialize p)" by (simp add: pairOK_def)
qed (simp_all add: procOK_def regOK_def accOK_def rejOK_def waitOK_def utxoOK_def edgeOK_def
       waiting_def Initialize_def)

lemma GI_perform:
  assumes "perform opn s = Done (e, s')" and "GI {} {} {} x rx y ry s" and "errs s' = None"
  shows "GI {} {} {} x rx y ry s'"
proof (cases opn)
  case (OpAdd t)
  then show ?thesis using assms GI_Add unfolding perform_def by auto
next
  case (OpRecordPoll votes)
  then show ?thesis using assms GI_RecordPoll unfolding perform_def by auto
qed

lemma GI_run:
  "run opns s = Done s' \<Longrightarrow> errs s' = None \<Longrightarrow> GI {} {} {} x rx y ry s \<Longrightarrow>
     GI {} {} {} x rx y ry s'"
proof (induction opns arbitrary: s)
  case Nil
  then show ?case by simp
next
  case (Cons opn opns)
  then obtain e s1 where p: "perform opn s = Done (e, s1)" and r: "run opns s1 = Done s'"
    by (auto split: result.splits)
  have e1: "errs s1 = None" using run_errs [OF r Cons.prems(2)] .
  have "GI {} {} {} x rx y ry s1" using GI_perform [OF p Cons.prems(3) e1] .
  then show ?case using Cons.IH [OF r Cons.prems(2)] by simp
qed

lemma GI_pair:
  assumes g: "GI {} {} {} x0 r0 x0 r1 s" and lx: "txs s x = Some rx" and ly: "txs s y = Some ry"
    and sh: "set (InputIDs (tx (nodes s rx))) \<inter> set (InputIDs (tx (nodes s ry))) \<noteq> {}"
  shows "GI {} {} {} x rx y ry s"
proof (rule GI_I)
  note d = GI_D [OF g]
  show "pairOK {} x rx y ry s"
    unfolding pairOK_def rlive_def
    using Inv2D(1,2) [OF d(10) lx] Inv2D(1,2) [OF d(10) ly] sh d(2) lx ly
    unfolding procOK_def by auto
qed (use GI_D [OF g] in simp_all)




end
